(* ===== verification/Prelude.thy ===== *)
theory Prelude
  imports Main "HOL-Library.Word" "HOL-Library.Multiset"
begin

text \<open>
  Shared vocabulary of the development: machine integers, the error type of the code
  (\<^verbatim>\<open>src/src/common/src/error.rs\<close>) and results over it, Rust's saturating and wrapping
  arithmetic, byte strings with little-endian integers, \<^verbatim>\<open>Read::read_exact\<close>, and the list
  facts the components share. The collections \<open>codec\<close> (byte codecs) and \<open>sat\<close> (saturating
  arithmetic) carry the component proofs.
\<close>

named_theorems codec "length and round-trip facts of the byte codecs"
named_theorems sat "unfolding of saturating and wrapping arithmetic"

section \<open>Machine integers\<close>

type_synonym u8 = "8 word"
type_synonym u16 = "16 word"
type_synonym u32 = "32 word"
type_synonym u64 = "64 word"
type_synonym bytes = "u8 list"

text \<open>\<^verbatim>\<open>u64::MAX\<close>, \<^verbatim>\<open>saturating_add\<close> and \<^verbatim>\<open>saturating_sub\<close> on 64-bit words.\<close>

abbreviation u64_max :: u64 where
  "u64_max \<equiv> - 1"

definition sat_add :: "u64 \<Rightarrow> u64 \<Rightarrow> u64" where
  "sat_add a b = (if unat a + unat b < 2 ^ 64 then a + b else u64_max)"

definition sat_sub :: "u64 \<Rightarrow> u64 \<Rightarrow> u64" where
  "sat_sub a b = (if b \<le> a then a - b else 0)"

text \<open>
  \<^verbatim>\<open>usize\<close> counters are \<open>nat\<close> with the 64-bit bound written out where the code saturates
  (\<open>usize_add_sat\<close>, \<open>usize_mul_sat\<close>) or wraps (\<open>usize_wrap\<close>, atomic \<^verbatim>\<open>fetch_add\<close>).
\<close>

definition usize_max :: nat where
  "usize_max = 2 ^ 64 - 1"

definition usize_add_sat :: "nat \<Rightarrow> nat \<Rightarrow> nat" where
  "usize_add_sat a b = min (a + b) usize_max"

definition usize_mul_sat :: "nat \<Rightarrow> nat \<Rightarrow> nat" where
  "usize_mul_sat a b = min (a * b) usize_max"

definition usize_wrap :: "nat \<Rightarrow> nat" where
  "usize_wrap n = n mod 2 ^ 64"

text \<open>\<^verbatim>\<open>Ord::clamp\<close> on counters.\<close>

definition clamp :: "nat \<Rightarrow> nat \<Rightarrow> nat \<Rightarrow> nat" where
  "clamp x lo hi = (if x < lo then lo else if hi < x then hi else x)"

lemma unat_lt_2p64: "unat (w :: u64) < 2 ^ 64"
  using unsigned_less [of w] by simp

lemma unat_u64_max [sat]: "unat u64_max = 2 ^ 64 - 1"
  by (simp add: unsigned_minus_1_eq_mask mask_eq_exp_minus_1)

lemma word_succ_gt:
  assumes "w \<noteq> u64_max"
  shows "w < w + 1" and "unat (w + 1) = unat w + 1"
proof -
  have "unat w \<noteq> 2 ^ 64 - 1"
    using assms by (metis unat_u64_max word_unat_eq_iff)
  then have lt: "unat w + 1 < 2 ^ 64"
    using unat_lt_2p64 [of w] by linarith
  then show un: "unat (w + 1) = unat w + 1"
    by (simp add: unat_word_ariths)
  then show "w < w + 1"
    by (simp add: word_less_nat_alt)
qed

lemma sat_add_one [sat]: "sat_add w 1 = (if w = u64_max then u64_max else w + 1)"
proof (cases "w = u64_max")
  case True
  then show ?thesis by (simp add: sat_add_def unat_u64_max)
next
  case False
  then have "unat w + unat (1 :: u64) < 2 ^ 64"
    using word_succ_gt(2) [OF False] unat_lt_2p64 [of "w + 1"] by simp
  with False show ?thesis by (simp add: sat_add_def)
qed

lemma sat_add_one_gt: "w \<noteq> u64_max \<Longrightarrow> w < sat_add w 1"
  by (simp add: sat_add_one word_succ_gt)

lemma le_sat_add_one: "w \<le> sat_add w 1"
  by (cases "w = u64_max") (auto simp: sat_add_one dest: word_succ_gt(1))

lemma clamp_bounds: "lo \<le> hi \<Longrightarrow> lo \<le> clamp x lo hi \<and> clamp x lo hi \<le> hi"
  by (auto simp: clamp_def)

section \<open>Errors and results\<close>

text \<open>
  \<^verbatim>\<open>TsdbError\<close>. The text arguments keep the fixed part of the message; values that the code
  formats into it are dropped.
\<close>

datatype tsdb_error =
    Io string
  | Network string
  | Storage string
  | StorageIo string
  | Query string
  | Auth string
  | Config string
  | Schema string
  | TableNotFound string
  | MemoryLimitExceeded nat nat
  | DiskReadOnly nat nat
  | Sync string
  | Arrow string
  | Parquet string

type_synonym 'a res = "tsdb_error + 'a"

text \<open>The \<^verbatim>\<open>?\<close> operator.\<close>

definition and_then :: "'a res \<Rightarrow> ('a \<Rightarrow> 'b res) \<Rightarrow> 'b res" where
  "and_then r f = (case r of Inl e \<Rightarrow> Inl e | Inr x \<Rightarrow> f x)"

lemma and_then_simps [simp]:
  "and_then (Inl e) f = Inl e"
  "and_then (Inr x) f = f x"
  by (simp_all add: and_then_def)

lemma and_then_eq_Inr: "and_then r f = Inr y \<longleftrightarrow> (\<exists>x. r = Inr x \<and> f x = Inr y)"
  by (cases r) auto

definition ok_or :: "tsdb_error \<Rightarrow> 'a option \<Rightarrow> 'a res" where
  "ok_or e x = (case x of None \<Rightarrow> Inl e | Some y \<Rightarrow> Inr y)"

lemma ok_or_simps [simp]:
  "ok_or e None = Inl e"
  "ok_or e (Some y) = Inr y"
  by (simp_all add: ok_or_def)

section \<open>Bytes: little-endian integers and exact reads\<close>

fun nat_to_le :: "nat \<Rightarrow> nat \<Rightarrow> bytes" where
  "nat_to_le 0 x = []"
| "nat_to_le (Suc n) x = of_nat (x mod 256) # nat_to_le n (x div 256)"

fun le_to_nat :: "bytes \<Rightarrow> nat" where
  "le_to_nat [] = 0"
| "le_to_nat (b # bs) = unat b + 256 * le_to_nat bs"

definition put_u16_le :: "u16 \<Rightarrow> bytes" where
  "put_u16_le w = nat_to_le 2 (unat w)"

definition put_u32_le :: "u32 \<Rightarrow> bytes" where
  "put_u32_le w = nat_to_le 4 (unat w)"

definition put_u64_le :: "u64 \<Rightarrow> bytes" where
  "put_u64_le w = nat_to_le 8 (unat w)"

text \<open>\<^verbatim>\<open>Buf::get_*_le\<close>: the value and the advanced cursor.\<close>

definition get_u16_le :: "bytes \<Rightarrow> u16 \<times> bytes" where
  "get_u16_le c = (of_nat (le_to_nat (take 2 c)), drop 2 c)"

definition get_u32_le :: "bytes \<Rightarrow> u32 \<times> bytes" where
  "get_u32_le c = (of_nat (le_to_nat (take 4 c)), drop 4 c)"

definition get_u64_le :: "bytes \<Rightarrow> u64 \<times> bytes" where
  "get_u64_le c = (of_nat (le_to_nat (take 8 c)), drop 8 c)"

lemma length_nat_to_le [simp]: "length (nat_to_le n x) = n"
  by (induction n arbitrary: x) auto

lemma nat_to_le_numeral:
  "nat_to_le (numeral k) x = of_nat (x mod 256) # nat_to_le (pred_numeral k) (x div 256)"
  by (simp only: numeral_eq_Suc nat_to_le.simps)

lemma le_to_nat_to_le: "x < 256 ^ n \<Longrightarrow> le_to_nat (nat_to_le n x) = x"
proof (induction n arbitrary: x)
  case 0
  then show ?case by simp
next
  case (Suc n)
  have "x div 256 < 256 ^ n"
    using Suc.prems by (simp add: less_mult_imp_div_less mult.commute)
  then have "le_to_nat (nat_to_le n (x div 256)) = x div 256"
    by (rule Suc.IH)
  moreover have "unat (of_nat (x mod 256) :: u8) = x mod 256"
    by (simp add: unat_of_nat)
  ultimately show ?case by simp
qed

lemma put_lengths [simp, codec]:
  "length (put_u16_le a) = 2"
  "length (put_u32_le b) = 4"
  "length (put_u64_le c) = 8"
  by (simp_all add: put_u16_le_def put_u32_le_def put_u64_le_def)

lemma get_put_u16 [simp, codec]: "get_u16_le (put_u16_le w @ c) = (w, c)"
  using le_to_nat_to_le [of "unat w" 2] unsigned_less [of w, where ?'a = nat]
  by (simp add: get_u16_le_def put_u16_le_def)

lemma get_put_u32 [simp, codec]: "get_u32_le (put_u32_le w @ c) = (w, c)"
  using le_to_nat_to_le [of "unat w" 4] unsigned_less [of w, where ?'a = nat]
  by (simp add: get_u32_le_def put_u32_le_def)

lemma get_put_u64 [simp, codec]: "get_u64_le (put_u64_le w @ c) = (w, c)"
  using le_to_nat_to_le [of "unat w" 8] unsigned_less [of w, where ?'a = nat]
  by (simp add: get_u64_le_def put_u64_le_def)

lemma get_put_u64_end [simp, codec]: "get_u64_le (put_u64_le w) = (w, [])"
  using get_put_u64 [of w "[]"] by simp

text \<open>\<^verbatim>\<open>Read::read_exact\<close>: \<open>None\<close> is the error \<^verbatim>\<open>UnexpectedEof\<close>.\<close>

definition read_exact :: "nat \<Rightarrow> bytes \<Rightarrow> (bytes \<times> bytes) option" where
  "read_exact n r = (if n \<le> length r then Some (take n r, drop n r) else None)"

lemma read_exact_append [simp, codec]: "length a = n \<Longrightarrow> read_exact n (a @ b) = Some (a, b)"
  by (simp add: read_exact_def)

lemma read_exact_short [simp]: "length r < n \<Longrightarrow> read_exact n r = None"
  by (simp add: read_exact_def)

lemma read_exact_Some:
  "read_exact n r = Some (a, b) \<longleftrightarrow> n \<le> length r \<and> a = take n r \<and> b = drop n r"
  by (auto simp: read_exact_def)

end
