(* ===== verification/Lsn.thy ===== *)
theory Lsn
  imports Prelude
begin

text \<open>
  Identifier allocation and the lifecycle gate.
  \<^item> \<^verbatim>\<open>src/src/common/src/cdc/lsn.rs\<close>: the LSN allocator, as sequential operations and as the
    atomic steps of many threads (\<open>lsn_step\<close>, one rule per atomic access of the code).
  \<^item> \<^verbatim>\<open>src/src/storage/src/sequence.rs\<close>: the persisted memtable id sequence, with its file.
  \<^item> \<^verbatim>\<open>src/src/storage/src/lifecycle.rs\<close>: the boot gate.
\<close>

section \<open>LSN allocator\<close>

record lsn_allocator =
  la_next :: u64

definition lsn_new :: lsn_allocator where
  "lsn_new = \<lparr>la_next = 1\<rparr>"

definition allocate :: "lsn_allocator \<Rightarrow> u64 \<times> lsn_allocator" where
  "allocate a = (la_next a, a\<lparr>la_next := la_next a + 1\<rparr>)"

definition ensure_above :: "u64 \<Rightarrow> lsn_allocator \<Rightarrow> lsn_allocator" where
  "ensure_above max_seen a =
     (if max_seen = 0 then a
      else let want_next = sat_add max_seen 1 in
        if want_next \<le> la_next a then a else a\<lparr>la_next := want_next\<rparr>)"

definition lsn_current :: "lsn_allocator \<Rightarrow> u64" where
  "lsn_current a = sat_sub (la_next a) 1"

definition peek_next :: "lsn_allocator \<Rightarrow> u64" where
  "peek_next a = la_next a"

subsection \<open>Interleaved execution\<close>

text \<open>
  Where a thread stands inside \<open>ensure_above\<close>: outside, before the load of the loop, or between
  the load (which read \<open>cur\<close>) and the \<^verbatim>\<open>compare_exchange\<close>.
\<close>

datatype lsn_pc = Out | AtLoad u64 | AtCas u64 u64

datatype lsn_event = Handed u64 | Raised u64

text \<open>\<open>ls_log\<close> (newest first) and \<open>ls_wrapped\<close> are ghosts: what calls returned, and whether the
  counter went past \<^verbatim>\<open>u64::MAX\<close>.\<close>

record lsn_sys =
  ls_next :: u64
  ls_pc :: "nat \<Rightarrow> lsn_pc"
  ls_log :: "lsn_event list"
  ls_wrapped :: bool

definition lsn_init :: lsn_sys where
  "lsn_init = \<lparr>ls_next = 1, ls_pc = (\<lambda>_. Out), ls_log = [], ls_wrapped = False\<rparr>"

inductive lsn_step :: "lsn_sys \<Rightarrow> lsn_sys \<Rightarrow> bool" where
  fetch_add: "lsn_step s
     (s\<lparr>ls_next := ls_next s + 1, ls_log := Handed (ls_next s) # ls_log s,
        ls_wrapped := (ls_wrapped s \<or> ls_next s = u64_max)\<rparr>)"
| enter: "ls_pc s t = Out \<Longrightarrow> m \<noteq> 0 \<Longrightarrow>
     lsn_step s (s\<lparr>ls_pc := (ls_pc s)(t := AtLoad m)\<rparr>)"
| load_done: "ls_pc s t = AtLoad m \<Longrightarrow> sat_add m 1 \<le> ls_next s \<Longrightarrow>
     lsn_step s (s\<lparr>ls_pc := (ls_pc s)(t := Out), ls_log := Raised m # ls_log s\<rparr>)"
| load_more: "ls_pc s t = AtLoad m \<Longrightarrow> \<not> sat_add m 1 \<le> ls_next s \<Longrightarrow>
     lsn_step s (s\<lparr>ls_pc := (ls_pc s)(t := AtCas m (ls_next s))\<rparr>)"
| cas_ok: "ls_pc s t = AtCas m cur \<Longrightarrow> ls_next s = cur \<Longrightarrow>
     lsn_step s (s\<lparr>ls_next := sat_add m 1, ls_pc := (ls_pc s)(t := Out),
                   ls_log := Raised m # ls_log s\<rparr>)"
| cas_retry: "ls_pc s t = AtCas m cur \<Longrightarrow> ls_next s \<noteq> cur \<Longrightarrow>
     lsn_step s (s\<lparr>ls_pc := (ls_pc s)(t := AtLoad m)\<rparr>)"

inductive_cases lsn_stepE: "lsn_step s s'"

text \<open>\<open>ev_after new old\<close>: what a later event must satisfy with respect to an earlier one.\<close>

fun ev_after :: "lsn_event \<Rightarrow> lsn_event \<Rightarrow> bool" where
  "ev_after (Handed x) (Handed y) = (y < x)"
| "ev_after (Handed x) (Raised m) = (m = u64_max \<or> m < x)"
| "ev_after (Raised _) _ = True"

fun ev_below :: "u64 \<Rightarrow> lsn_event \<Rightarrow> bool" where
  "ev_below n (Handed x) = (x < n)"
| "ev_below n (Raised m) = (sat_add m 1 \<le> n)"

definition lsn_inv :: "lsn_sys \<Rightarrow> bool" where
  "lsn_inv s \<longleftrightarrow> ls_wrapped s \<or>
     (sorted_wrt ev_after (ls_log s) \<and> list_all (ev_below (ls_next s)) (ls_log s) \<and>
      (\<forall>t m cur. ls_pc s t = AtCas m cur \<longrightarrow> cur < sat_add m 1))"

section \<open>Memtable id sequence\<close>

text \<open>The sequence file as \<^verbatim>\<open>load\<close> sees it, and the outcome of one \<^verbatim>\<open>fs::write\<close>: a failed write
  may leave anything behind.\<close>

datatype seq_file = Absent | Valid u64 | Corrupt

datatype seq_write = WriteOk | WriteFail seq_file

record table_sequence =
  next_memtable_id :: u64
  seq_disk :: seq_file

definition seq_load :: "seq_file \<Rightarrow> table_sequence res" where
  "seq_load f = (case f of
       Absent \<Rightarrow> Inr \<lparr>next_memtable_id = 1, seq_disk = f\<rparr>
     | Valid n \<Rightarrow> Inr \<lparr>next_memtable_id = n, seq_disk = f\<rparr>
     | Corrupt \<Rightarrow> Inl (Storage ''invalid sequence file''))"

definition seq_persist :: "seq_write \<Rightarrow> table_sequence \<Rightarrow> unit res \<times> table_sequence" where
  "seq_persist w q = (case w of
       WriteOk \<Rightarrow> (Inr (), q\<lparr>seq_disk := Valid (next_memtable_id q)\<rparr>)
     | WriteFail f \<Rightarrow> (Inl (Io ''write''), q\<lparr>seq_disk := f\<rparr>))"

definition next_id :: "seq_write \<Rightarrow> table_sequence \<Rightarrow> u64 res \<times> table_sequence" where
  "next_id w q =
     (let i = next_memtable_id q;
          (r, q') = seq_persist w (q\<lparr>next_memtable_id := sat_add i 1\<rparr>)
      in (and_then r (\<lambda>_. Inr i), q'))"

definition ensure_at_least :: "seq_write \<Rightarrow> u64 \<Rightarrow> table_sequence \<Rightarrow> unit res \<times> table_sequence" where
  "ensure_at_least w min_next q =
     (if next_memtable_id q < min_next
      then seq_persist w (q\<lparr>next_memtable_id := min_next\<rparr>) else (Inr (), q))"

text \<open>A history of calls, with restarts (\<^verbatim>\<open>load\<close> of the file) in between; the result lists the ids
  handed out. A restart on an unreadable file stops the history.\<close>

datatype seq_op = NextId seq_write | EnsureAtLeast seq_write u64 | Restart

fun seq_run :: "seq_op list \<Rightarrow> table_sequence \<Rightarrow> u64 list" where
  "seq_run [] q = []"
| "seq_run (NextId w # ops) q =
     (case next_id w q of
        (Inr i, q') \<Rightarrow> i # seq_run ops q'
      | (Inl _, q') \<Rightarrow> seq_run ops q')"
| "seq_run (EnsureAtLeast w m # ops) q = seq_run ops (snd (ensure_at_least w m q))"
| "seq_run (Restart # ops) q =
     (case seq_load (seq_disk q) of Inl _ \<Rightarrow> [] | Inr q' \<Rightarrow> seq_run ops q')"

fun seq_op_ok :: "seq_op \<Rightarrow> bool" where
  "seq_op_ok (NextId w) = (w = WriteOk)"
| "seq_op_ok (EnsureAtLeast w _) = (w = WriteOk)"
| "seq_op_ok Restart = True"

text \<open>The file never lags behind: either it holds the counter, or nothing was handed out yet.\<close>

definition seq_inv :: "table_sequence \<Rightarrow> bool" where
  "seq_inv q \<longleftrightarrow> seq_load (seq_disk q) = Inr q"

section \<open>Lifecycle gate\<close>

datatype engine_lifecycle = Starting | Recovering | Running | Stopped

fun lifecycle_u8 :: "engine_lifecycle \<Rightarrow> u8" where
  "lifecycle_u8 Starting = 0"
| "lifecycle_u8 Recovering = 1"
| "lifecycle_u8 Running = 2"
| "lifecycle_u8 Stopped = 3"

definition lifecycle_from_u8 :: "u8 \<Rightarrow> engine_lifecycle" where
  "lifecycle_from_u8 v =
     (if v = 0 then Starting else if v = 1 then Recovering else if v = 2 then Running else Stopped)"

type_synonym gate = u8

definition gate_new :: gate where
  "gate_new = lifecycle_u8 Starting"

definition gate_get :: "gate \<Rightarrow> engine_lifecycle" where
  "gate_get g = lifecycle_from_u8 g"

definition gate_transition ::
  "engine_lifecycle \<Rightarrow> engine_lifecycle \<Rightarrow> gate \<Rightarrow> unit res \<times> gate" where
  "gate_transition from to g =
     (if g = lifecycle_u8 from then (Inr (), lifecycle_u8 to)
      else (Inl (Storage ''storage lifecycle: unexpected phase''), g))"

definition begin_disk_recovery :: "gate \<Rightarrow> unit res \<times> gate" where
  "begin_disk_recovery = gate_transition Starting Recovering"

definition mark_running :: "gate \<Rightarrow> unit res \<times> gate" where
  "mark_running g = (case gate_get g of
       Recovering \<Rightarrow> (Inr (), lifecycle_u8 Running)
     | Starting \<Rightarrow> (Inr (), lifecycle_u8 Running)
     | Running \<Rightarrow> (Inr (), g)
     | Stopped \<Rightarrow> (Inl (Storage ''cannot mark Running: storage engine is Stopped''), g))"

definition mark_stopped :: "gate \<Rightarrow> gate" where
  "mark_stopped g = lifecycle_u8 Stopped"

definition ensure_running :: "gate \<Rightarrow> unit res" where
  "ensure_running g = (if gate_get g = Running then Inr ()
     else Inl (Storage ''storage engine is not Running''))"

datatype gate_op = BeginDiskRecovery | MarkRunning | MarkStopped

fun gate_exec :: "gate_op \<Rightarrow> gate \<Rightarrow> gate" where
  "gate_exec BeginDiskRecovery g = snd (begin_disk_recovery g)"
| "gate_exec MarkRunning g = snd (mark_running g)"
| "gate_exec MarkStopped g = mark_stopped g"

text \<open>The order of the phases.\<close>

fun rank :: "engine_lifecycle \<Rightarrow> nat" where
  "rank Starting = 0"
| "rank Recovering = 1"
| "rank Running = 2"
| "rank Stopped = 3"

section \<open>Facts\<close>

subsection \<open>Allocator\<close>

lemma ev_below_mono: "ev_below n e \<Longrightarrow> n \<le> n' \<Longrightarrow> ev_below n' e"
  by (cases e) auto

lemma ev_after_handed: "ev_below n e \<Longrightarrow> ev_after (Handed n) e"
  by (cases e) (auto intro: less_le_trans [OF sat_add_one_gt])

lemma lsn_inv_init: "lsn_inv lsn_init"
  by (simp add: lsn_inv_def lsn_init_def)

lemma lsn_inv_step: "lsn_step s s' \<Longrightarrow> lsn_inv s \<Longrightarrow> lsn_inv s'"
proof (induction rule: lsn_step.induct)
  case (fetch_add s)
  show ?case
  proof (cases "ls_wrapped s \<or> ls_next s = u64_max")
    case False
    then have lt: "ls_next s < ls_next s + 1" by (simp add: word_succ_gt)
    with False fetch_add show ?thesis
      by (auto simp: lsn_inv_def list_all_iff ev_after_handed intro: ev_below_mono [OF _ less_imp_le])
  qed (auto simp: lsn_inv_def)
next
  case (cas_ok s t m cur)
  then show ?case
    by (auto simp: lsn_inv_def list_all_iff intro: ev_below_mono [OF _ less_imp_le])
qed (auto simp: lsn_inv_def not_le)

lemma lsn_reachable_inv: "lsn_step\<^sup>*\<^sup>* lsn_init s \<Longrightarrow> lsn_inv s"
  by (induction rule: rtranclp_induct) (auto intro: lsn_inv_init lsn_inv_step)

subsection \<open>Sequence\<close>

lemma next_id_cases:
  "next_id WriteOk q =
     (Inr (next_memtable_id q),
      q\<lparr>next_memtable_id := sat_add (next_memtable_id q) 1,
        seq_disk := Valid (sat_add (next_memtable_id q) 1)\<rparr>)"
  "next_id (WriteFail f) q =
     (Inl (Io ''write''), q\<lparr>next_memtable_id := sat_add (next_memtable_id q) 1, seq_disk := f\<rparr>)"
  by (simp_all add: next_id_def seq_persist_def Let_def)

lemma snd_ensure_at_least:
  "snd (ensure_at_least WriteOk m q) =
     (if next_memtable_id q < m then q\<lparr>next_memtable_id := m, seq_disk := Valid m\<rparr> else q)"
  by (simp add: ensure_at_least_def seq_persist_def)

lemma seq_inv_ops:
  "seq_inv (q\<lparr>next_memtable_id := n, seq_disk := Valid n\<rparr>)"
  by (simp add: seq_inv_def seq_load_def)

lemma seq_run_increasing:
  "list_all seq_op_ok ops \<Longrightarrow> seq_inv q \<Longrightarrow>
   sorted_wrt (\<lambda>x y. x < y \<or> x = u64_max \<and> y = u64_max) (seq_run ops q) \<and>
   (\<forall>x \<in> set (seq_run ops q). next_memtable_id q \<le> x)"
proof (induction ops q rule: seq_run.induct)
  case (2 w ops q)
  let ?n = "next_memtable_id q"
  have step: "sat_add ?n 1 \<le> x \<Longrightarrow> ?n \<le> x \<and> (?n < x \<or> ?n = u64_max \<and> x = u64_max)" for x
    using sat_add_one_gt [of ?n] le_sat_add_one [of ?n]
    by (cases "?n = u64_max") (auto simp: sat_add_one word_order.extremum_unique intro: less_le_trans order_trans)
  have w: "w = WriteOk" using 2 by simp
  then show ?case
    using 2 seq_inv_ops [of "sat_add ?n 1" q] by (auto simp: next_id_cases dest!: step)
next
  case (3 w m ops q)
  then show ?case
    using seq_inv_ops [of m q]
    by (auto simp: snd_ensure_at_least split: if_splits intro: order_trans [OF less_imp_le])
qed (auto simp: seq_inv_def)

subsection \<open>Gate\<close>

lemma lifecycle_round [simp]: "gate_get (lifecycle_u8 p) = p"
  by (cases p) (simp_all add: gate_get_def lifecycle_from_u8_def)

lemma rank_le_Stopped: "rank p \<le> 3"
  by (cases p) auto

lemma gate_exec_rank: "rank (gate_get g) \<le> rank (gate_get (gate_exec op g))"
  by (cases op)
    (auto simp: begin_disk_recovery_def gate_transition_def mark_running_def mark_stopped_def
       rank_le_Stopped simp del: lifecycle_u8.simps split: engine_lifecycle.splits)

lemma gate_run_rank: "rank (gate_get g) \<le> rank (gate_get (fold gate_exec ops g))"
proof (induction ops arbitrary: g)
  case (Cons op ops)
  show ?case using gate_exec_rank [of g op] Cons [of "gate_exec op g"] by simp
qed simp

section \<open>Properties\<close>

text \<open>
  C8. LSNs are unique and increasing under any interleaving. Threads allocate and raise the
  watermark concurrently, each atomic access being one step. As long as the counter has not passed
  the largest 64-bit value, every allocated LSN is greater than all LSNs allocated before it and
  greater than every watermark whose \<open>ensure_above\<close> call had returned before it (the largest
  64-bit value excepted).
\<close>
theorem lsn_unique_increasing:
  assumes "lsn_step\<^sup>*\<^sup>* lsn_init s" and "\<not> ls_wrapped s"
  shows "sorted_wrt ev_after (ls_log s)"
  using lsn_reachable_inv [OF assms(1)] assms(2) by (simp add: lsn_inv_def)

theorem lsn_unique_increasing_witness:
  "\<exists>s. lsn_step\<^sup>*\<^sup>* lsn_init s \<and> ls_log s = [Handed 10, Raised 9, Handed 1] \<and>
     sorted_wrt ev_after (ls_log s)"
proof -
  let ?s0 = "\<lparr>ls_next = 2, ls_pc = (\<lambda>_. Out), ls_log = [Handed 1], ls_wrapped = False\<rparr>"
  let ?s1 = "?s0\<lparr>ls_pc := (\<lambda>_. Out)(0 := AtLoad 9)\<rparr>"
  let ?s2 = "?s0\<lparr>ls_pc := (\<lambda>_. Out)(0 := AtCas 9 2)\<rparr>"
  let ?s3 = "?s0\<lparr>ls_next := 10, ls_log := [Raised 9, Handed 1]\<rparr>"
  let ?s4 = "?s0\<lparr>ls_next := 11, ls_log := [Handed 10, Raised 9, Handed 1]\<rparr>"
  have steps: "lsn_step lsn_init ?s0" "lsn_step ?s0 ?s1" "lsn_step ?s1 ?s2" "lsn_step ?s2 ?s3"
    "lsn_step ?s3 ?s4"
    using lsn_step.fetch_add [of lsn_init] lsn_step.enter [of ?s0 0 9]
      lsn_step.load_more [of ?s1 0 9] lsn_step.cas_ok [of ?s2 0 9 2] lsn_step.fetch_add [of ?s3]
    by (simp_all add: lsn_init_def sat_add_one word_le_nat_alt fun_upd_idem)
  then have "lsn_step\<^sup>*\<^sup>* lsn_init ?s4"
    by (meson converse_rtranclp_into_rtranclp rtranclp.rtrancl_refl)
  then show ?thesis using lsn_unique_increasing [of ?s4] by (intro exI [of _ ?s4]) simp
qed

text \<open>
  C9. Memtable ids are never reused across restarts. For any series of allocations, watermark
  raises and restarts in which the writes of the sequence file succeed, the ids handed out are
  strictly increasing, until the counter saturates at the largest 64-bit value.
\<close>
theorem memtable_ids_fresh:
  assumes "seq_load file = Inr q" and "list_all seq_op_ok ops"
  shows "sorted_wrt (\<lambda>x y. x < y \<or> x = u64_max \<and> y = u64_max) (seq_run ops q)"
proof -
  have "seq_disk q = file"
    using assms(1) by (auto simp: seq_load_def split: seq_file.splits)
  then show ?thesis
    using assms seq_run_increasing [of ops q] by (simp add: seq_inv_def)
qed

theorem memtable_ids_fresh_witness:
  "let ids = seq_run [NextId WriteOk, Restart, EnsureAtLeast WriteOk 7, NextId WriteOk, Restart,
       NextId WriteOk] \<lparr>next_memtable_id = 1, seq_disk = Absent\<rparr>
   in ids = [1, 7, 8] \<and> sorted_wrt (\<lambda>x y. x < y \<or> x = u64_max \<and> y = u64_max) ids"
proof -
  let ?ops = "[NextId WriteOk, Restart, EnsureAtLeast WriteOk 7, NextId WriteOk, Restart, NextId WriteOk]"
  let ?q = "\<lparr>next_memtable_id = 1, seq_disk = Absent\<rparr>"
  have "seq_run ?ops ?q = [1, 7, 8]"
    by (simp add: next_id_cases snd_ensure_at_least seq_load_def sat_add_one word_less_nat_alt)
  moreover have "seq_load Absent = Inr ?q" by (simp add: seq_load_def)
  ultimately show ?thesis
    using memtable_ids_fresh [of Absent ?q ?ops] by (simp only: Let_def) simp
qed

end
