(* ===== verification/Wal_Format.thy ===== *)
theory Wal_Format
  imports Prelude
begin

text \<open>
  The on-disk format of a WAL segment, \<^verbatim>\<open>src/src/storage/src/wal/format.rs\<close>: constants, record
  types, the segment header, frame header and footer codecs, the memtable-end payload,
  \<open>write_frame\<close>, and the decode-and-verify step (\<open>read_frame\<close>) that every reader loop of the
  code performs first. Arrow IPC, array sizes and CRC32 come from other packages: they are the
  fields of the parameter \<open>arrow\<close>, and \<open>arrow_ok\<close> states the round trip of the IPC stream format.
\<close>

unbundle bit_operations_syntax

section \<open>Constants\<close>

definition SEGMENT_MAGIC :: bytes where
  "SEGMENT_MAGIC = [0x46, 0x4C, 0x4F, 0x57, 0x57, 0x41, 0x4C, 0]"

definition FRAME_MAGIC :: u32 where
  "FRAME_MAGIC = 0x46574C31"

definition SEGMENT_FORMAT_VERSION :: u16 where
  "SEGMENT_FORMAT_VERSION = 1"

definition SEGMENT_MIN_READ_VERSION :: u16 where
  "SEGMENT_MIN_READ_VERSION = 1"

definition SEGMENT_MAX_READ_VERSION :: u16 where
  "SEGMENT_MAX_READ_VERSION = SEGMENT_FORMAT_VERSION"

definition SEGMENT_KNOWN_FLAGS :: u32 where
  "SEGMENT_KNOWN_FLAGS = 0"

definition FRAME_KNOWN_FLAGS :: u32 where
  "FRAME_KNOWN_FLAGS = 0"

definition SEGMENT_HEADER_SIZE :: nat where
  "SEGMENT_HEADER_SIZE = 40"

definition FRAME_HEADER_SIZE :: nat where
  "FRAME_HEADER_SIZE = 36"

definition PAYLOAD_FORMAT_ARROW_IPC :: u16 where
  "PAYLOAD_FORMAT_ARROW_IPC = 1"

definition DEFAULT_WAL_BLOCK_MAX_BYTES :: nat where
  "DEFAULT_WAL_BLOCK_MAX_BYTES = 5 * 1024 * 1024"

definition SCHEMA_FRAME_SEQUENCE :: u64 where
  "SCHEMA_FRAME_SEQUENCE = 0"

lemmas size_consts = SEGMENT_HEADER_SIZE_def FRAME_HEADER_SIZE_def DEFAULT_WAL_BLOCK_MAX_BYTES_def

definition segment_format_readable :: "u16 \<Rightarrow> bool" where
  "segment_format_readable v \<longleftrightarrow> SEGMENT_MIN_READ_VERSION \<le> v \<and> v \<le> SEGMENT_MAX_READ_VERSION"

definition validate_segment_format_version :: "u16 \<Rightarrow> unit res" where
  "validate_segment_format_version v = (if segment_format_readable v then Inr ()
     else Inl (Storage ''unsupported WAL segment format version''))"

definition validate_segment_flags :: "u32 \<Rightarrow> unit res" where
  "validate_segment_flags flags = (if flags AND NOT SEGMENT_KNOWN_FLAGS \<noteq> 0
     then Inl (Storage ''unsupported WAL segment flags'') else Inr ())"

definition frame_has_unknown_flags :: "u32 \<Rightarrow> bool" where
  "frame_has_unknown_flags flags \<longleftrightarrow> flags AND NOT FRAME_KNOWN_FLAGS \<noteq> 0"

section \<open>Types\<close>

datatype record_type = RSchema | RBatch | RFooter | RMemTableEnd | RUnknown u16

definition record_type_from_u16 :: "u16 \<Rightarrow> record_type" where
  "record_type_from_u16 v =
     (if v = 1 then RSchema else if v = 2 then RBatch else if v = 3 then RFooter
      else if v = 4 then RMemTableEnd else RUnknown v)"

fun record_type_as_u16 :: "record_type \<Rightarrow> u16" where
  "record_type_as_u16 RSchema = 1"
| "record_type_as_u16 RBatch = 2"
| "record_type_as_u16 RFooter = 3"
| "record_type_as_u16 RMemTableEnd = 4"
| "record_type_as_u16 (RUnknown v) = v"

record segment_header =
  sh_format_version :: u16
  sh_segment_flags :: u32
  sh_memtable_id :: u64
  sh_created_unix_ms :: u64

record frame_header =
  fh_record_type :: record_type
  fh_payload_format :: u16
  fh_block_len :: u32
  fh_crc32 :: u32
  fh_flags :: u32
  fh_sequence :: u64
  fh_lsn :: u64

record segment_footer =
  sf_batch_count :: u64
  sf_frame_count :: u64
  sf_closed_unix_ms :: u64

text \<open>
  The other packages: Arrow's IPC stream writer and reader (\<open>None\<close> is an error of the package;
  reading a batch may also find an empty stream, \<open>Some None\<close>), \<^verbatim>\<open>get_array_memory_size\<close>,
  the schema of a batch and \<^verbatim>\<open>crc32fast::hash\<close>. \<open>'s\<close> is the type of schemas and \<open>'b\<close> that of record batches.
\<close>

record ('s, 'b) arrow =
  ipc_write_schema :: "'s \<Rightarrow> bytes option"
  ipc_write_batch :: "'b \<Rightarrow> bytes option"
  ipc_read_schema :: "bytes \<Rightarrow> 's option"
  ipc_read_batch :: "bytes \<Rightarrow> 'b option option"
  array_memory_size :: "'b \<Rightarrow> nat"
  batch_schema :: "'b \<Rightarrow> 's"
  crc32_hash :: "bytes \<Rightarrow> u32"

definition arrow_ok :: "('s, 'b) arrow \<Rightarrow> bool" where
  "arrow_ok A \<longleftrightarrow>
     (\<forall>s p. ipc_write_schema A s = Some p \<longrightarrow> ipc_read_schema A p = Some s) \<and>
     (\<forall>b p. ipc_write_batch A b = Some p \<longrightarrow> ipc_read_batch A p = Some (Some b))"

section \<open>Codecs\<close>

definition new_v1 :: "u64 \<Rightarrow> u64 \<Rightarrow> segment_header" where
  "new_v1 now mid = \<lparr>sh_format_version = SEGMENT_FORMAT_VERSION, sh_segment_flags = 0,
     sh_memtable_id = mid, sh_created_unix_ms = now\<rparr>"

definition segment_header_encode :: "segment_header \<Rightarrow> bytes" where
  "segment_header_encode h =
     SEGMENT_MAGIC @ put_u16_le (sh_format_version h) @
     put_u16_le (of_nat SEGMENT_HEADER_SIZE) @ put_u32_le (sh_segment_flags h) @
     put_u64_le (sh_memtable_id h) @ put_u64_le (sh_created_unix_ms h) @ put_u64_le 0"

text \<open>Decoders return the value and the rest of the reader.\<close>

definition segment_header_decode :: "bytes \<Rightarrow> (segment_header \<times> bytes) res" where
  "segment_header_decode r =
     (case read_exact SEGMENT_HEADER_SIZE r of
        None \<Rightarrow> Inl (Storage ''failed to fill whole buffer'')
      | Some (buf, r1) \<Rightarrow>
        let magic = take 8 buf; c = drop 8 buf in
        if magic \<noteq> SEGMENT_MAGIC then Inl (Storage ''invalid WAL segment magic'')
        else
          let (format_version, c) = get_u16_le c;
              (header_size, c) = get_u16_le c
          in if unat header_size < SEGMENT_HEADER_SIZE
             then Inl (Storage ''WAL segment header size too small'')
             else and_then (validate_segment_format_version format_version) (\<lambda>_.
               let (segment_flags, c) = get_u32_le c in
               and_then (validate_segment_flags segment_flags) (\<lambda>_.
                 let (mid, c) = get_u64_le c;
                     (created, c) = get_u64_le c;
                     extra = unat header_size - SEGMENT_HEADER_SIZE;
                     h = \<lparr>sh_format_version = format_version, sh_segment_flags = segment_flags,
                           sh_memtable_id = mid, sh_created_unix_ms = created\<rparr>
                 in if extra > 0
                    then case read_exact extra r1 of
                        None \<Rightarrow> Inl (Storage ''failed to fill whole buffer'')
                      | Some (_, r2) \<Rightarrow> Inr (h, r2)
                    else Inr (h, r1))))"

definition body_len :: "frame_header \<Rightarrow> nat" where
  "body_len h = unat (fh_block_len h) - FRAME_HEADER_SIZE"

definition frame_header_encode :: "frame_header \<Rightarrow> bytes" where
  "frame_header_encode h =
     put_u32_le FRAME_MAGIC @ put_u32_le (fh_block_len h) @
     put_u16_le (record_type_as_u16 (fh_record_type h)) @ put_u16_le (fh_payload_format h) @
     put_u32_le (fh_crc32 h) @ put_u32_le (fh_flags h) @
     put_u64_le (fh_sequence h) @ put_u64_le (fh_lsn h)"

definition frame_header_decode :: "bytes \<Rightarrow> (frame_header \<times> bytes) option res" where
  "frame_header_decode r =
     (case read_exact 4 r of
        None \<Rightarrow> Inr None
      | Some (b4, r1) \<Rightarrow>
        if fst (get_u32_le b4) \<noteq> FRAME_MAGIC then Inl (Storage ''invalid WAL frame magic'')
        else case read_exact (FRAME_HEADER_SIZE - 4) r1 of
            None \<Rightarrow> Inl (Storage ''failed to fill whole buffer'')
          | Some (c, r2) \<Rightarrow>
            let (block_len, c) = get_u32_le c in
            if unat block_len < FRAME_HEADER_SIZE then Inl (Storage ''invalid WAL block_len'')
            else if unat block_len > DEFAULT_WAL_BLOCK_MAX_BYTES
            then Inl (Storage ''WAL block_len exceeds max'')
            else
              let (record_raw, c) = get_u16_le c;
                  (payload_format, c) = get_u16_le c;
                  (crc, c) = get_u32_le c;
                  (flags, c) = get_u32_le c;
                  (sequence, c) = get_u64_le c;
                  (lsn, c) = get_u64_le c;
                  record_type =
                    (if frame_has_unknown_flags flags then RUnknown record_raw
                     else record_type_from_u16 record_raw)
              in Inr (Some (\<lparr>fh_record_type = record_type, fh_payload_format = payload_format,
                    fh_block_len = block_len, fh_crc32 = crc, fh_flags = flags,
                    fh_sequence = sequence, fh_lsn = lsn\<rparr>, r2)))"

definition footer_encode :: "segment_footer \<Rightarrow> bytes" where
  "footer_encode f = put_u64_le (sf_batch_count f) @ put_u64_le (sf_frame_count f) @
     put_u64_le (sf_closed_unix_ms f)"

definition footer_decode :: "bytes \<Rightarrow> segment_footer res" where
  "footer_decode payload =
     (if length payload \<noteq> 24 then Inl (Storage ''invalid WAL footer length'')
      else let (bc, c) = get_u64_le payload; (fc, c) = get_u64_le c; (ts, c) = get_u64_le c
        in Inr \<lparr>sf_batch_count = bc, sf_frame_count = fc, sf_closed_unix_ms = ts\<rparr>)"

definition encode_memtable_end_payload :: "u64 \<Rightarrow> u64 \<Rightarrow> bytes" where
  "encode_memtable_end_payload closed new = put_u64_le closed @ put_u64_le new"

definition decode_memtable_end_payload :: "bytes \<Rightarrow> u64 \<times> u64" where
  "decode_memtable_end_payload p =
     (if length p \<ge> 16 then (fst (get_u64_le p), fst (get_u64_le (drop 8 p)))
      else if length p \<ge> 8 then (fst (get_u64_le p), sat_add (fst (get_u64_le p)) 1)
      else (0, 0))"

definition encode_schema_ipc :: "('s, 'b) arrow \<Rightarrow> 's \<Rightarrow> bytes res" where
  "encode_schema_ipc A s = ok_or (Storage ''arrow ipc'') (ipc_write_schema A s)"

definition decode_schema_ipc :: "('s, 'b) arrow \<Rightarrow> bytes \<Rightarrow> 's res" where
  "decode_schema_ipc A p = ok_or (Storage ''arrow ipc'') (ipc_read_schema A p)"

definition encode_batch_ipc :: "('s, 'b) arrow \<Rightarrow> 'b \<Rightarrow> bytes res" where
  "encode_batch_ipc A b = ok_or (Storage ''arrow ipc'') (ipc_write_batch A b)"

definition decode_batch_ipc :: "('s, 'b) arrow \<Rightarrow> bytes \<Rightarrow> 'b res" where
  "decode_batch_ipc A p =
     and_then (ok_or (Storage ''arrow ipc'') (ipc_read_batch A p))
       (ok_or (Storage ''empty WAL batch frame''))"

section \<open>Writing one frame\<close>

text \<open>
  The outcome of the file operations of one call: creating or opening a file, the writes
  (\<open>write_fail = Some k\<close>: they fail after \<open>k\<close> bytes were accepted), \<^verbatim>\<open>flush\<close> and \<^verbatim>\<open>sync_data\<close>,
  and reading the file's metadata.
\<close>

record wal_io =
  open_ok :: bool
  write_fail :: "nat option"
  sync_ok :: bool
  meta_ok :: bool

definition io_good :: wal_io where
  "io_good = \<lparr>open_ok = True, write_fail = None, sync_ok = True, meta_ok = True\<rparr>"

definition frame_of ::
  "('s, 'b) arrow \<Rightarrow> record_type \<Rightarrow> u16 \<Rightarrow> u64 \<Rightarrow> u64 \<Rightarrow> bytes \<Rightarrow> frame_header" where
  "frame_of A rt fmt sequence lsn payload =
     \<lparr>fh_record_type = rt, fh_payload_format = fmt,
      fh_block_len = of_nat FRAME_HEADER_SIZE + of_nat (length payload),
      fh_crc32 = crc32_hash A payload, fh_flags = 0, fh_sequence = sequence, fh_lsn = lsn\<rparr>"

definition write_frame ::
  "('s, 'b) arrow \<Rightarrow> wal_io \<Rightarrow> record_type \<Rightarrow> u16 \<Rightarrow> u64 \<Rightarrow> u64 \<Rightarrow> bytes \<Rightarrow> nat \<Rightarrow> bytes
     \<Rightarrow> unit res \<times> bytes" where
  "write_frame A io rt fmt sequence lsn payload max_block out =
     (let len32 = (of_nat (length payload) :: u32) in
      if FRAME_HEADER_SIZE + unat len32 \<ge> 2 ^ 32
      then (Inl (Storage ''WAL block too large''), out)
      else if FRAME_HEADER_SIZE + unat len32 > max_block
      then (Inl (Storage ''WAL block exceeds max''), out)
      else
        let hdr = frame_header_encode (frame_of A rt fmt sequence lsn payload) in
        case write_fail io of
          None \<Rightarrow> (Inr (), out @ hdr @ payload)
        | Some k \<Rightarrow>
            if k < FRAME_HEADER_SIZE then (Inl (Storage ''write''), out @ take k hdr)
            else (Inl (Io ''write''), out @ hdr @ take (k - FRAME_HEADER_SIZE) payload))"

section \<open>Reading one frame\<close>

text \<open>
  What the first lines of every reader loop find at the cursor: the end of the file, a header that
  does not decode, a body cut short, a checksum mismatch, or a verified frame with its body and
  the rest of the file.
\<close>

datatype frame_read =
    FEof
  | FBadHeader tsdb_error
  | FTruncated
  | FCrcMismatch
  | FFrame frame_header bytes bytes

definition read_frame :: "('s, 'b) arrow \<Rightarrow> bytes \<Rightarrow> frame_read" where
  "read_frame A r = (case frame_header_decode r of
       Inl e \<Rightarrow> FBadHeader e
     | Inr None \<Rightarrow> FEof
     | Inr (Some (h, r1)) \<Rightarrow>
       (case read_exact (body_len h) r1 of
          None \<Rightarrow> FTruncated
        | Some (payload, r2) \<Rightarrow>
          if crc32_hash A payload \<noteq> fh_crc32 h then FCrcMismatch else FFrame h payload r2))"

text \<open>
  A frame as the writer produces it: a known record type, no flags, a length that matches the body
  and stays within the hard cap, and the checksum of the body.
\<close>

definition frame_wf :: "('s, 'b) arrow \<Rightarrow> frame_header \<times> bytes \<Rightarrow> bool" where
  "frame_wf A f \<longleftrightarrow>
     record_type_from_u16 (record_type_as_u16 (fh_record_type (fst f))) = fh_record_type (fst f) \<and>
     fh_flags (fst f) = 0 \<and>
     unat (fh_block_len (fst f)) = FRAME_HEADER_SIZE + length (snd f) \<and>
     FRAME_HEADER_SIZE + length (snd f) \<le> DEFAULT_WAL_BLOCK_MAX_BYTES \<and>
     fh_crc32 (fst f) = crc32_hash A (snd f)"

definition frame_bytes :: "frame_header \<times> bytes \<Rightarrow> bytes" where
  "frame_bytes f = frame_header_encode (fst f) @ snd f"

definition frames_bytes :: "(frame_header \<times> bytes) list \<Rightarrow> bytes" where
  "frames_bytes fs = concat (map frame_bytes fs)"

section \<open>Facts\<close>

subsection \<open>Codec round trips\<close>

lemma length_headers [simp, codec]:
  "length (segment_header_encode h) = SEGMENT_HEADER_SIZE"
  "length (frame_header_encode g) = FRAME_HEADER_SIZE"
  "length (footer_encode f) = 24"
  "length (encode_memtable_end_payload a b) = 16"
  by (simp_all add: segment_header_encode_def frame_header_encode_def footer_encode_def
      encode_memtable_end_payload_def SEGMENT_MAGIC_def size_consts)

lemma length_frame_bytes [simp, codec]: "length (frame_bytes f) = FRAME_HEADER_SIZE + length (snd f)"
  by (simp add: frame_bytes_def)

lemma frames_bytes_simps [simp]:
  "frames_bytes [] = []"
  "frames_bytes (f # fs) = frame_bytes f @ frames_bytes fs"
  "frames_bytes (fs @ gs) = frames_bytes fs @ frames_bytes gs"
  by (simp_all add: frames_bytes_def)

lemma segment_header_decode_encode:
  assumes "segment_format_readable (sh_format_version h)" and "sh_segment_flags h = 0"
  shows "segment_header_decode (segment_header_encode h @ r) = Inr (h, r)"
proof -
  have "read_exact SEGMENT_HEADER_SIZE (segment_header_encode h @ r) =
      Some (segment_header_encode h, r)"
    by (simp add: length_headers)
  moreover have "take 8 (segment_header_encode h) = SEGMENT_MAGIC"
    "drop 8 (segment_header_encode h) =
       put_u16_le (sh_format_version h) @ put_u16_le 40 @ put_u32_le (sh_segment_flags h) @
       put_u64_le (sh_memtable_id h) @ put_u64_le (sh_created_unix_ms h) @ put_u64_le 0"
    by (simp_all add: segment_header_encode_def SEGMENT_MAGIC_def SEGMENT_HEADER_SIZE_def)
  ultimately show ?thesis
    using assms
    by (simp add: segment_header_decode_def validate_segment_format_version_def
        validate_segment_flags_def SEGMENT_HEADER_SIZE_def)
qed

lemma new_v1_decode [simp, codec]:
  "segment_header_decode (segment_header_encode (new_v1 now mid) @ r) = Inr (new_v1 now mid, r)"
  by (rule segment_header_decode_encode)
    (simp_all add: new_v1_def segment_format_readable_def SEGMENT_FORMAT_VERSION_def
       SEGMENT_MIN_READ_VERSION_def SEGMENT_MAX_READ_VERSION_def)

lemma frame_header_decode_encode:
  assumes "record_type_from_u16 (record_type_as_u16 (fh_record_type h)) = fh_record_type h"
    and "fh_flags h = 0"
    and "FRAME_HEADER_SIZE \<le> unat (fh_block_len h)"
    and "unat (fh_block_len h) \<le> DEFAULT_WAL_BLOCK_MAX_BYTES"
  shows "frame_header_decode (frame_header_encode h @ r) = Inr (Some (h, r))"
proof -
  let ?c = "put_u32_le (fh_block_len h) @
     put_u16_le (record_type_as_u16 (fh_record_type h)) @ put_u16_le (fh_payload_format h) @
     put_u32_le (fh_crc32 h) @ put_u32_le (fh_flags h) @
     put_u64_le (fh_sequence h) @ put_u64_le (fh_lsn h)"
  have "read_exact 4 (frame_header_encode h @ r) = Some (put_u32_le FRAME_MAGIC, ?c @ r)"
    by (simp add: frame_header_encode_def)
  moreover have "read_exact (FRAME_HEADER_SIZE - 4) (?c @ r) = Some (?c, r)"
    by (rule read_exact_append) (simp add: FRAME_HEADER_SIZE_def)
  moreover have "get_u32_le (put_u32_le FRAME_MAGIC) = (FRAME_MAGIC, [])"
    using get_put_u32 [of FRAME_MAGIC "[]"] by simp
  ultimately show ?thesis
    using assms by (simp add: frame_header_decode_def frame_has_unknown_flags_def)
qed

lemma footer_round [simp, codec]: "footer_decode (footer_encode f) = Inr f"
  by (simp add: footer_decode_def) (simp add: footer_encode_def)

lemma memtable_end_round [simp, codec]:
  "decode_memtable_end_payload (encode_memtable_end_payload a b) = (a, b)"
  by (simp add: decode_memtable_end_payload_def) (simp add: encode_memtable_end_payload_def)

lemma batch_ipc_round:
  "arrow_ok A \<Longrightarrow> encode_batch_ipc A b = Inr p \<Longrightarrow> decode_batch_ipc A p = Inr b"
  by (auto simp: encode_batch_ipc_def decode_batch_ipc_def arrow_ok_def ok_or_def
      split: option.splits)

lemma schema_ipc_round:
  "arrow_ok A \<Longrightarrow> encode_schema_ipc A s = Inr p \<Longrightarrow> decode_schema_ipc A p = Inr s"
  by (auto simp: encode_schema_ipc_def decode_schema_ipc_def arrow_ok_def ok_or_def
      split: option.splits)

subsection \<open>Reading back what was written\<close>

lemma read_frame_frame_bytes:
  assumes "frame_wf A f"
  shows "read_frame A (frame_bytes f @ r) = FFrame (fst f) (snd f) r"
proof -
  have "frame_header_decode (frame_header_encode (fst f) @ snd f @ r) = Inr (Some (fst f, snd f @ r))"
    using assms by (intro frame_header_decode_encode) (auto simp: frame_wf_def)
  moreover have "body_len (fst f) = length (snd f)"
    using assms by (simp add: frame_wf_def body_len_def)
  ultimately show ?thesis
    using assms by (simp add: read_frame_def frame_bytes_def frame_wf_def)
qed

lemma read_frame_consumes:
  "read_frame A r = FFrame h p rest \<Longrightarrow> length rest + FRAME_HEADER_SIZE \<le> length r"
  by (auto simp: read_frame_def frame_header_decode_def read_exact_Some Let_def
      FRAME_HEADER_SIZE_def
      split: sum.splits option.splits prod.splits if_splits)

lemma read_frame_shorter: "read_frame A r = FFrame h p rest \<Longrightarrow> length rest < length r"
  using read_frame_consumes [of A r h p rest] by (simp add: FRAME_HEADER_SIZE_def)

text \<open>A strict prefix of a frame never reads as a frame.\<close>

lemma read_frame_torn:
  assumes "frame_wf A f" and "n < length (frame_bytes f)"
  shows "\<not> (\<exists>h p r. read_frame A (take n (frame_bytes f)) = FFrame h p r)"
proof (cases "n < FRAME_HEADER_SIZE")
  case True
  then have "\<not> (\<exists>x. frame_header_decode (take n (frame_bytes f)) = Inr (Some x))"
    by (auto simp: frame_header_decode_def FRAME_HEADER_SIZE_def read_exact_def)
  then show ?thesis
    by (auto simp: read_frame_def split: sum.splits option.splits)
next
  case False
  then have "take n (frame_bytes f) =
      frame_header_encode (fst f) @ take (n - FRAME_HEADER_SIZE) (snd f)"
    by (simp add: frame_bytes_def)
  moreover have "frame_header_decode
      (frame_header_encode (fst f) @ take (n - FRAME_HEADER_SIZE) (snd f)) =
      Inr (Some (fst f, take (n - FRAME_HEADER_SIZE) (snd f)))"
    using assms(1) by (intro frame_header_decode_encode) (auto simp: frame_wf_def)
  moreover have "body_len (fst f) = length (snd f)"
    using assms(1) by (simp add: frame_wf_def body_len_def)
  ultimately show ?thesis
    using assms(2) False by (auto simp: read_frame_def)
qed

lemma write_frame_ok:
  assumes "write_frame A io rt fmt s l p m out = (Inr (), out')" and "length p < 2 ^ 32"
  shows "out' = out @ frame_bytes (frame_of A rt fmt s l p, p)"
    and "unat (fh_block_len (frame_of A rt fmt s l p)) = FRAME_HEADER_SIZE + length p"
    and "FRAME_HEADER_SIZE + length p \<le> m"
proof -
  have len: "unat (of_nat (length p) :: u32) = length p"
    using assms(2) by (simp add: unat_of_nat)
  show "out' = out @ frame_bytes (frame_of A rt fmt s l p, p)"
    and "FRAME_HEADER_SIZE + length p \<le> m"
    using assms(1) len
    by (auto simp: write_frame_def Let_def frame_bytes_def
        split: if_splits option.splits)
  have "FRAME_HEADER_SIZE + length p < 2 ^ 32"
    using assms(1) len by (auto simp: write_frame_def Let_def split: if_splits)
  then show "unat (fh_block_len (frame_of A rt fmt s l p)) = FRAME_HEADER_SIZE + length p"
    by (simp add: frame_of_def unat_of_nat flip: of_nat_add)
qed

end
