(* ===== verification/Wal_Reader.thy ===== *)
theory Wal_Reader
  imports Wal_Format
begin

text \<open>
  The readers of WAL segments in \<^verbatim>\<open>src/src/storage/src/wal/format.rs\<close>: replay of one segment,
  reading from a sequence number, the tail scan used when a segment is reopened, and the tailing
  cursor. Every reader is the loop \<open>frame_loop\<close> with its own reaction to a verified frame and to
  the end of the readable part. A reader works on the bytes of the file; \<open>None\<close> is a file that
  does not exist. The facts reduce each loop on a file of whole frames with an arbitrary
  unreadable tail to a fold over the frames.
\<close>

section \<open>The loop\<close>

datatype ('st, 'o) ctl = Go 'st | Done 'o

text \<open>\<open>step\<close> receives the state, the frame header, its body and the rest of the file; \<open>stop\<close> the
  state and the reason why no further frame is available.\<close>

function frame_loop ::
  "('s, 'b) arrow \<Rightarrow> ('st \<Rightarrow> frame_header \<Rightarrow> bytes \<Rightarrow> bytes \<Rightarrow> ('st, 'o) ctl) \<Rightarrow>
   ('st \<Rightarrow> frame_read \<Rightarrow> 'o) \<Rightarrow> 'st \<Rightarrow> bytes \<Rightarrow> 'o" where
  "frame_loop A step stop st r =
     (case read_frame A r of
        FFrame h p r' \<Rightarrow>
          (case step st h p r' of
             Go st' \<Rightarrow> frame_loop A step stop st' r'
           | Done x \<Rightarrow> x)
      | e \<Rightarrow> stop st e)"
  by pat_completeness auto
termination
  by (relation "measure (\<lambda>(_, _, _, _, r). length r)") (auto dest: read_frame_shorter)

declare frame_loop.simps [simp del]

text \<open>\<^verbatim>\<open>if allow_partial { break } else { return Err(e) }\<close>\<close>

definition bail :: "bool \<Rightarrow> tsdb_error \<Rightarrow> 'a \<Rightarrow> 'a res" where
  "bail allow_partial e x = (if allow_partial then Inr x else Inl e)"

definition stop_bail :: "bool \<Rightarrow> 'a \<Rightarrow> frame_read \<Rightarrow> 'a res" where
  "stop_bail allow_partial x e = (case e of
       FBadHeader err \<Rightarrow> bail allow_partial err x
     | FTruncated \<Rightarrow> bail allow_partial (Storage ''failed to fill whole buffer'') x
     | FCrcMismatch \<Rightarrow> bail allow_partial (Storage ''WAL frame crc mismatch'') x
     | _ \<Rightarrow> Inr x)"

section \<open>Segment replay\<close>

record ('s, 'b) seg_state =
  ss_schema :: "'s option"
  ss_batches :: "'b list"
  ss_next :: u64

definition read_segment_step ::
  "('s, 'b) arrow \<Rightarrow> bool \<Rightarrow> ('s, 'b) seg_state \<Rightarrow> frame_header \<Rightarrow> bytes \<Rightarrow> bytes
     \<Rightarrow> (('s, 'b) seg_state, ('b list \<times> bool) res) ctl" where
  "read_segment_step A allow_partial st h payload rest =
     (let out = (ss_batches st, False) in
      case fh_record_type h of
        RSchema \<Rightarrow>
          if fh_sequence h \<noteq> SCHEMA_FRAME_SEQUENCE
          then Done (bail allow_partial (Storage ''invalid WAL schema sequence'') out)
          else if fh_payload_format h \<noteq> PAYLOAD_FORMAT_ARROW_IPC
          then Done (bail allow_partial (Storage ''unsupported schema payload format'') out)
          else (case decode_schema_ipc A payload of
                  Inr s \<Rightarrow> Go (st\<lparr>ss_schema := Some s\<rparr>)
                | Inl e \<Rightarrow> Done (bail allow_partial e out))
      | RBatch \<Rightarrow>
          if fh_sequence h \<noteq> ss_next st
          then Done (bail allow_partial (Storage ''WAL batch sequence gap'') out)
          else if fh_payload_format h \<noteq> PAYLOAD_FORMAT_ARROW_IPC
          then Done (bail allow_partial (Storage ''unsupported batch payload format'') out)
          else (case decode_batch_ipc A payload of
                  Inr b \<Rightarrow> Go (st\<lparr>ss_batches := ss_batches st @ [b], ss_next := ss_next st + 1\<rparr>)
                | Inl e \<Rightarrow> Done (bail allow_partial e out))
      | RFooter \<Rightarrow> Done (and_then (footer_decode payload) (\<lambda>_. Inr (ss_batches st, True)))
      | RMemTableEnd \<Rightarrow> Go (st\<lparr>ss_next := max (sat_add (fh_sequence h) 1) (ss_next st)\<rparr>)
      | RUnknown _ \<Rightarrow> Go (st\<lparr>ss_next := max (sat_add (fh_sequence h) 1) (ss_next st)\<rparr>))"

definition read_segment_stop ::
  "bool \<Rightarrow> ('s, 'b) seg_state \<Rightarrow> frame_read \<Rightarrow> ('b list \<times> bool) res" where
  "read_segment_stop allow_partial st = stop_bail allow_partial (ss_batches st, False)"

definition read_segment_batches ::
  "('s, 'b) arrow \<Rightarrow> bytes option \<Rightarrow> bool \<Rightarrow> 'b list res" where
  "read_segment_batches A file allow_partial =
     (case file of
        None \<Rightarrow> Inr []
      | Some d \<Rightarrow>
        (case segment_header_decode d of
           Inl e \<Rightarrow> bail allow_partial e []
         | Inr (_, r) \<Rightarrow>
           and_then
             (frame_loop A (read_segment_step A allow_partial) (read_segment_stop allow_partial)
                \<lparr>ss_schema = None, ss_batches = [], ss_next = 1\<rparr> r)
             (\<lambda>(batches, saw_footer).
                if \<not> allow_partial \<and> \<not> saw_footer
                then Inl (Storage ''WAL segment missing footer'') else Inr batches)))"

section \<open>Reading from a sequence number\<close>

record 'b wal_framed_batch =
  wfb_sequence :: u64
  wfb_lsn :: u64
  wfb_batch :: 'b

definition read_from_step ::
  "('s, 'b) arrow \<Rightarrow> u64 \<Rightarrow> bool \<Rightarrow> 's option \<times> 'b wal_framed_batch list \<Rightarrow> frame_header \<Rightarrow>
   bytes \<Rightarrow> bytes \<Rightarrow> ('s option \<times> 'b wal_framed_batch list, 'b wal_framed_batch list res) ctl" where
  "read_from_step A from_sequence allow_partial st h payload rest =
     (let (schema, out) = st in
      case fh_record_type h of
        RSchema \<Rightarrow>
          (case decode_schema_ipc A payload of
             Inr s \<Rightarrow> Go (Some s, out)
           | Inl e \<Rightarrow> if allow_partial then Go (schema, out)
                     else Done (Inl (Storage ''invalid WAL schema frame'')))
      | RBatch \<Rightarrow>
          if fh_sequence h < from_sequence then Go (schema, out)
          else (case schema of
                  None \<Rightarrow> Done (bail allow_partial (Storage ''WAL batch before schema'') out)
                | Some _ \<Rightarrow>
                  (case decode_batch_ipc A payload of
                     Inr b \<Rightarrow> Go (schema, out @ [\<lparr>wfb_sequence = fh_sequence h,
                                 wfb_lsn = fh_lsn h, wfb_batch = b\<rparr>])
                   | Inl e \<Rightarrow> Done (bail allow_partial e out)))
      | RFooter \<Rightarrow> Done (Inr out)
      | _ \<Rightarrow> Go (schema, out))"

definition read_from_stop ::
  "bool \<Rightarrow> 's option \<times> 'b wal_framed_batch list \<Rightarrow> frame_read \<Rightarrow> 'b wal_framed_batch list res" where
  "read_from_stop allow_partial st = stop_bail allow_partial (snd st)"

definition read_wal_batches_from_sequence ::
  "('s, 'b) arrow \<Rightarrow> bytes option \<Rightarrow> u64 \<Rightarrow> u64 \<Rightarrow> bool \<Rightarrow> 'b wal_framed_batch list res" where
  "read_wal_batches_from_sequence A file expected_memtable_id from_sequence allow_partial =
     (case file of
        None \<Rightarrow> Inr []
      | Some d \<Rightarrow>
        (case segment_header_decode d of
           Inl e \<Rightarrow> bail allow_partial e []
         | Inr (h, r) \<Rightarrow>
           if sh_memtable_id h \<noteq> expected_memtable_id
           then bail allow_partial (Storage ''WAL memtable id mismatch'') []
           else frame_loop A (read_from_step A from_sequence allow_partial)
                  (read_from_stop allow_partial) (None, []) r))"

section \<open>Tail scan\<close>

record segment_tail_state =
  ts_batches_written :: nat
  ts_next_batch_sequence :: u64
  ts_bytes_written :: nat
  ts_frames_written :: u64
  ts_has_footer :: bool

definition tail_init :: segment_tail_state where
  "tail_init = \<lparr>ts_batches_written = 0, ts_next_batch_sequence = 1, ts_bytes_written = 0,
     ts_frames_written = 0, ts_has_footer = False\<rparr>"

definition scan_tail_step ::
  "('s, 'b) arrow \<Rightarrow> segment_tail_state \<Rightarrow> frame_header \<Rightarrow> bytes \<Rightarrow> bytes
     \<Rightarrow> (segment_tail_state, segment_tail_state res) ctl" where
  "scan_tail_step A st0 h payload rest =
     (let st = st0\<lparr>ts_frames_written := ts_frames_written st0 + 1\<rparr> in
      case fh_record_type h of
        RSchema \<Rightarrow>
          if fh_sequence h \<noteq> SCHEMA_FRAME_SEQUENCE
          then Done (Inl (Storage ''invalid WAL schema sequence'')) else Go st
      | RBatch \<Rightarrow>
          if fh_sequence h \<noteq> ts_next_batch_sequence st
          then Done (Inl (Storage ''WAL batch sequence gap''))
          else
            let st' = st\<lparr>ts_next_batch_sequence := ts_next_batch_sequence st + 1,
                         ts_batches_written := ts_batches_written st + 1\<rparr>
            in (case decode_batch_ipc A payload of
                  Inr b \<Rightarrow> Go (st'\<lparr>ts_bytes_written :=
                      ts_bytes_written st' + max (array_memory_size A b) 1\<rparr>)
                | Inl _ \<Rightarrow> Go st')
      | RFooter \<Rightarrow>
          Done (if rest \<noteq> [] then Inl (Storage ''trailing bytes after WAL footer'')
                else Inr (st\<lparr>ts_has_footer := True\<rparr>))
      | _ \<Rightarrow> Go (st\<lparr>ts_next_batch_sequence :=
                    max (sat_add (fh_sequence h) 1) (ts_next_batch_sequence st)\<rparr>))"

definition scan_segment_tail :: "('s, 'b) arrow \<Rightarrow> bytes option \<Rightarrow> segment_tail_state res" where
  "scan_segment_tail A file =
     and_then (ok_or (Io ''not found'') file) (\<lambda>d.
     and_then (segment_header_decode d) (\<lambda>(_, r).
       frame_loop A (scan_tail_step A) (\<lambda>st _. Inr st) tail_init r))"

record wal_segment_tail_state =
  wst_batches_written :: nat
  wst_next_batch_sequence :: u64
  wst_has_footer :: bool

definition wal_segment_tail :: "('s, 'b) arrow \<Rightarrow> bytes option \<Rightarrow> wal_segment_tail_state res" where
  "wal_segment_tail A file = and_then (scan_segment_tail A file) (\<lambda>t.
     Inr \<lparr>wst_batches_written = ts_batches_written t,
          wst_next_batch_sequence = ts_next_batch_sequence t, wst_has_footer = ts_has_footer t\<rparr>)"

section \<open>Tailing cursor\<close>

text \<open>
  The reader position outside a call is always \<open>safe_pos\<close>. The file is an argument of every call:
  it grows between calls.
\<close>

record 's wal_frame_cursor =
  cur_memtable_id :: u64
  cur_schema :: "'s option"
  safe_pos :: nat
  cur_finished :: bool

record 'b wal_frame_event =
  ev_lsn :: u64
  ev_sequence :: u64
  ev_batch :: 'b

datatype 'b frame_step = StSchema | StBatch "'b wal_frame_event" | StFooter | StEof

definition cursor_open :: "bytes option \<Rightarrow> u64 \<Rightarrow> 's wal_frame_cursor option res" where
  "cursor_open file logical_memtable_id =
     (case file of
        None \<Rightarrow> Inr None
      | Some d \<Rightarrow> and_then (segment_header_decode d) (\<lambda>(_, r).
          Inr (Some \<lparr>cur_memtable_id = logical_memtable_id, cur_schema = None,
                     safe_pos = length d - length r, cur_finished = False\<rparr>)))"

definition read_one_frame ::
  "('s, 'b) arrow \<Rightarrow> bytes \<Rightarrow> 's wal_frame_cursor \<Rightarrow> 'b frame_step res \<times> 's wal_frame_cursor" where
  "read_one_frame A d c =
     (case read_frame A (drop (safe_pos c) d) of
        FFrame h payload rest \<Rightarrow>
          let c = c\<lparr>safe_pos := length d - length rest\<rparr> in
          (case fh_record_type h of
             RSchema \<Rightarrow>
               (Inr StSchema, (case decode_schema_ipc A payload of
                                 Inr s \<Rightarrow> c\<lparr>cur_schema := Some s\<rparr> | Inl _ \<Rightarrow> c))
           | RBatch \<Rightarrow>
               (and_then (decode_batch_ipc A payload) (\<lambda>b.
                  Inr (StBatch \<lparr>ev_lsn = fh_lsn h, ev_sequence = fh_sequence h, ev_batch = b\<rparr>)), c)
           | RFooter \<Rightarrow> (Inr StFooter, c)
           | _ \<Rightarrow> (Inr StSchema, c))
      | _ \<Rightarrow> (Inr StEof, c))"

lemma read_one_frame_progress:
  "read_one_frame A d c = (Inr st, c') \<Longrightarrow> st \<noteq> StEof \<Longrightarrow> length d - safe_pos c' < length d - safe_pos c"
  by (auto simp: read_one_frame_def Let_def and_then_eq_Inr dest!: read_frame_shorter
      split: frame_read.splits record_type.splits sum.splits)

function next_batch_loop ::
  "('s, 'b) arrow \<Rightarrow> bytes \<Rightarrow> 's wal_frame_cursor \<Rightarrow>
   'b wal_frame_event option res \<times> 's wal_frame_cursor" where
  "next_batch_loop A d c =
     (case read_one_frame A d c of
        (Inl e, c') \<Rightarrow> (Inl e, c')
      | (Inr (StBatch ev), c') \<Rightarrow> (Inr (Some ev), c')
      | (Inr StSchema, c') \<Rightarrow> next_batch_loop A d c'
      | (Inr StFooter, c') \<Rightarrow> (Inr None, c'\<lparr>cur_finished := True\<rparr>)
      | (Inr StEof, c') \<Rightarrow> (Inr None, c'))"
  by pat_completeness auto
termination
  by (relation "measure (\<lambda>(_, d, c). length d - safe_pos c)") (auto dest!: read_one_frame_progress [OF sym])

declare next_batch_loop.simps [simp del]

definition next_batch ::
  "('s, 'b) arrow \<Rightarrow> bytes \<Rightarrow> 's wal_frame_cursor \<Rightarrow>
   'b wal_frame_event option res \<times> 's wal_frame_cursor" where
  "next_batch A d c = (if cur_finished c then (Inr None, c) else next_batch_loop A d c)"

text \<open>A consumer that polls until nothing more is available.\<close>

lemma next_batch_loop_progress:
  "next_batch_loop A d c = (Inr (Some ev), c') \<Longrightarrow> length d - safe_pos c' < length d - safe_pos c"
proof (induction A d c rule: next_batch_loop.induct)
  case (1 A d c)
  obtain r c1 where rc: "read_one_frame A d c = (r, c1)" by fastforce
  show ?case
  proof (cases r)
    case (Inr st)
    then have "st \<noteq> StEof \<Longrightarrow> length d - safe_pos c1 < length d - safe_pos c"
      using rc read_one_frame_progress by blast
    then show ?thesis
      using "1.prems" rc Inr "1.IH" [OF rc [symmetric] Inr] by (subst (asm) next_batch_loop.simps)
        (auto split: frame_step.splits)
  next
    case (Inl e)
    then show ?thesis
      using "1.prems" rc by (subst (asm) next_batch_loop.simps) auto
  qed
qed

function cursor_drain ::
  "('s, 'b) arrow \<Rightarrow> bytes \<Rightarrow> 's wal_frame_cursor \<Rightarrow>
   'b wal_frame_event list \<times> 's wal_frame_cursor" where
  "cursor_drain A d c =
     (case next_batch A d c of
        (Inr (Some ev), c') \<Rightarrow> (let (evs, c'') = cursor_drain A d c' in (ev # evs, c''))
      | (_, c') \<Rightarrow> ([], c'))"
  by pat_completeness auto
termination
  by (relation "measure (\<lambda>(_, d, c). length d - safe_pos c)")
    (auto simp: next_batch_def split: if_splits dest!: next_batch_loop_progress [OF sym])

declare cursor_drain.simps [simp del]

text \<open>The consumer across the growth of a file: each view is a longer prefix of it.\<close>

fun cursor_tail ::
  "('s, 'b) arrow \<Rightarrow> bytes list \<Rightarrow> 's wal_frame_cursor \<Rightarrow> 'b wal_frame_event list" where
  "cursor_tail A [] c = []"
| "cursor_tail A (d # ds) c = (let (evs, c') = cursor_drain A d c in evs @ cursor_tail A ds c')"

section \<open>Files of whole frames with a torn tail\<close>

definition torn :: "('s, 'b) arrow \<Rightarrow> bytes \<Rightarrow> bool" where
  "torn A t \<longleftrightarrow> (\<forall>h p r. read_frame A t \<noteq> FFrame h p r)"

text \<open>How many of the frames lie within the first \<open>n\<close> bytes.\<close>

fun fits :: "nat \<Rightarrow> (frame_header \<times> bytes) list \<Rightarrow> nat" where
  "fits n [] = 0"
| "fits n (f # fs) =
     (if length (frame_bytes f) \<le> n then Suc (fits (n - length (frame_bytes f)) fs) else 0)"

text \<open>A loop's reaction to a list of frames followed by \<open>t\<close>.\<close>

fun frame_run ::
  "('st \<Rightarrow> frame_header \<Rightarrow> bytes \<Rightarrow> bytes \<Rightarrow> ('st, 'o) ctl) \<Rightarrow> bytes \<Rightarrow>
   (frame_header \<times> bytes) list \<Rightarrow> 'st \<Rightarrow> ('st, 'o) ctl" where
  "frame_run step t [] st = Go st"
| "frame_run step t (f # fs) st =
     (case step st (fst f) (snd f) (frames_bytes fs @ t) of
        Go st' \<Rightarrow> frame_run step t fs st'
      | Done x \<Rightarrow> Done x)"

lemma torn_Nil [simp]: "torn A []"
  by (simp add: torn_def read_frame_def frame_header_decode_def)

lemma frame_loop_torn:
  "torn A t \<Longrightarrow> frame_loop A step stop st t = stop st (read_frame A t)"
  by (cases "read_frame A t") (auto simp: torn_def frame_loop.simps [of A step stop st t])

lemma frame_loop_frames:
  "list_all (frame_wf A) fs \<Longrightarrow>
   frame_loop A step stop st (frames_bytes fs @ t) =
     (case frame_run step t fs st of Go st' \<Rightarrow> frame_loop A step stop st' t | Done x \<Rightarrow> x)"
proof (induction fs arbitrary: st)
  case (Cons f fs)
  then have "read_frame A (frame_bytes f @ frames_bytes fs @ t) =
      FFrame (fst f) (snd f) (frames_bytes fs @ t)"
    by (simp add: read_frame_frame_bytes)
  then show ?case
    using Cons frame_loop.simps [of A step stop st "frame_bytes f @ frames_bytes fs @ t"]
    by (auto split: ctl.splits)
qed simp

lemma fits_le_length: "fits n fs \<le> length fs"
  by (induction n fs rule: fits.induct) auto

lemma fits_iff:
  "m \<le> length fs \<Longrightarrow> length (frames_bytes (take m fs)) \<le> n \<longleftrightarrow> m \<le> fits n fs"
proof (induction n fs arbitrary: m rule: fits.induct)
  case (2 n f fs)
  then show ?case
  proof (cases m)
    case (Suc k)
    show ?thesis
    proof (cases "length (frame_bytes f) \<le> n")
      case True
      then show ?thesis using "2.IH" [of k] "2.prems" Suc by auto
    qed (use Suc in auto)
  qed simp
qed simp

lemma take_frames_bytes:
  assumes "list_all (frame_wf A) fs"
  shows "\<exists>t. take n (frames_bytes fs) = frames_bytes (take (fits n fs) fs) @ t \<and> torn A t"
  using assms
proof (induction n fs rule: fits.induct)
  case (2 n f fs)
  show ?case
  proof (cases "length (frame_bytes f) \<le> n")
    case True
    then obtain t where "take (n - length (frame_bytes f)) (frames_bytes fs) =
        frames_bytes (take (fits (n - length (frame_bytes f)) fs) fs) @ t" and "torn A t"
      using 2 by auto
    with True show ?thesis by auto
  next
    case False
    moreover have "torn A (take n (frame_bytes f))"
      using 2 False read_frame_torn [of A f n] by (auto simp: torn_def)
    ultimately show ?thesis by auto
  qed
qed auto

lemma stop_bail_partial [simp]: "stop_bail True x e = Inr x"
  by (cases e) (simp_all add: stop_bail_def bail_def)

end
