(* ===== verification/Wal_Segment.thy ===== *)
theory Wal_Segment
  imports Wal_Reader
begin

text \<open>
  The segment writer \<^verbatim>\<open>FramedSegmentWriter\<close> of \<^verbatim>\<open>src/src/storage/src/wal/format.rs\<close>. The file is
  kept apart from the writer: \<open>file_data\<close> are all bytes handed to it, \<open>file_durable\<close> how many of
  them a completed \<^verbatim>\<open>sync_data\<close> covers. After a crash the file is some prefix of \<open>file_data\<close> of
  at least \<open>file_durable\<close> bytes; a concurrent reader also sees some prefix. The second part gives
  the contents of a segment as a list of log entries and shows what the readers return for it.
\<close>

section \<open>Writer\<close>

record seg_file =
  file_data :: bytes
  file_durable :: nat

record segment_writer =
  fw_memtable_id :: u64
  fw_batches_written :: nat
  fw_frames_written :: u64
  fw_bytes_written :: nat
  fw_next_batch_sequence :: u64
  fw_block_max_bytes :: nat

definition clamp_block_max :: "nat \<Rightarrow> nat" where
  "clamp_block_max m = clamp m FRAME_HEADER_SIZE DEFAULT_WAL_BLOCK_MAX_BYTES"

definition fails_before :: "wal_io \<Rightarrow> nat \<Rightarrow> bool" where
  "fails_before io n = (case write_fail io of None \<Rightarrow> False | Some k \<Rightarrow> k < n)"

definition create_with_block_max ::
  "('s, 'b) arrow \<Rightarrow> wal_io \<Rightarrow> u64 \<Rightarrow> seg_file option \<Rightarrow> u64 \<Rightarrow> 's \<Rightarrow> nat
     \<Rightarrow> segment_writer res \<times> seg_file option" where
  "create_with_block_max A io now file mid schema block_max =
     (if file \<noteq> None then (Inl (Storage ''WAL file already exists''), file)
      else if \<not> open_ok io then (Inl (Io ''create''), None)
      else
        let bm = clamp_block_max block_max;
            hdr = segment_header_encode (new_v1 now mid);
            mk = (\<lambda>d. Some \<lparr>file_data = d, file_durable = 0\<rparr>)
        in if fails_before io SEGMENT_HEADER_SIZE
           then (Inl (Storage ''write''), mk (take (the (write_fail io)) hdr))
           else (case encode_schema_ipc A schema of
               Inl e \<Rightarrow> (Inl e, mk hdr)
             | Inr p \<Rightarrow>
               let io' = io\<lparr>write_fail := map_option (\<lambda>k. k - SEGMENT_HEADER_SIZE) (write_fail io)\<rparr>;
                   (r, d) = write_frame A io' RSchema PAYLOAD_FORMAT_ARROW_IPC
                              SCHEMA_FRAME_SEQUENCE 0 p bm hdr
               in (and_then r (\<lambda>_. Inr \<lparr>fw_memtable_id = mid, fw_batches_written = 0,
                     fw_frames_written = 1, fw_bytes_written = 0, fw_next_batch_sequence = 1,
                     fw_block_max_bytes = bm\<rparr>), mk d)))"

definition resume_with_block_max ::
  "('s, 'b) arrow \<Rightarrow> wal_io \<Rightarrow> seg_file option \<Rightarrow> u64 \<Rightarrow> nat \<Rightarrow> segment_writer res" where
  "resume_with_block_max A io file mid block_max =
     and_then (scan_segment_tail A (map_option file_data file)) (\<lambda>t.
       if ts_has_footer t then Inl (Storage ''WAL already closed'')
       else if \<not> open_ok io then Inl (Io ''open'')
       else Inr \<lparr>fw_memtable_id = mid, fw_batches_written = ts_batches_written t,
          fw_frames_written = ts_frames_written t, fw_bytes_written = ts_bytes_written t,
          fw_next_batch_sequence = ts_next_batch_sequence t,
          fw_block_max_bytes = clamp_block_max block_max\<rparr>)"

definition resume_any ::
  "('s, 'b) arrow \<Rightarrow> wal_io \<Rightarrow> seg_file option \<Rightarrow> segment_writer res" where
  "resume_any A io file =
     and_then (ok_or (Io ''not found'') file) (\<lambda>f.
     and_then (segment_header_decode (file_data f)) (\<lambda>(h, _).
       resume_with_block_max A io file (sh_memtable_id h) DEFAULT_WAL_BLOCK_MAX_BYTES))"

definition set_block_max_bytes :: "nat \<Rightarrow> segment_writer \<Rightarrow> segment_writer" where
  "set_block_max_bytes m w = w\<lparr>fw_block_max_bytes := clamp_block_max m\<rparr>"

definition seg_sync :: "wal_io \<Rightarrow> seg_file \<Rightarrow> unit res \<times> seg_file" where
  "seg_sync io f = (if sync_ok io then (Inr (), f\<lparr>file_durable := length (file_data f)\<rparr>)
     else (Inl (Io ''sync''), f))"

definition append_batch ::
  "('s, 'b) arrow \<Rightarrow> wal_io \<Rightarrow> 'b \<Rightarrow> u64 \<Rightarrow> bool \<Rightarrow> segment_writer \<Rightarrow> seg_file
     \<Rightarrow> u64 res \<times> segment_writer \<times> seg_file" where
  "append_batch A io batch lsn sync w f =
     (let sequence = fw_next_batch_sequence w in
      case encode_batch_ipc A batch of
        Inl e \<Rightarrow> (Inl e, w, f)
      | Inr payload \<Rightarrow>
        let (r, d) = write_frame A io RBatch PAYLOAD_FORMAT_ARROW_IPC sequence lsn payload
                       (fw_block_max_bytes w) (file_data f);
            f' = f\<lparr>file_data := d\<rparr>
        in (case r of
              Inl e \<Rightarrow> (Inl e, w, f')
            | Inr _ \<Rightarrow>
              let w' = w\<lparr>fw_next_batch_sequence := sequence + 1,
                         fw_batches_written := fw_batches_written w + 1,
                         fw_frames_written := fw_frames_written w + 1,
                         fw_bytes_written :=
                           fw_bytes_written w + max (array_memory_size A batch) 1\<rparr>
              in if sync then let (r', f'') = seg_sync io f' in (and_then r' (\<lambda>_. Inr sequence), w', f'')
                 else (Inr sequence, w', f')))"

definition append_memtable_end ::
  "('s, 'b) arrow \<Rightarrow> wal_io \<Rightarrow> u64 \<Rightarrow> u64 \<Rightarrow> u64 \<Rightarrow> segment_writer \<Rightarrow> seg_file
     \<Rightarrow> unit res \<times> segment_writer \<times> seg_file" where
  "append_memtable_end A io end_lsn closed new w f =
     (let sequence = fw_next_batch_sequence w;
          (r, d) = write_frame A io RMemTableEnd 0 sequence end_lsn
                     (encode_memtable_end_payload closed new) (fw_block_max_bytes w) (file_data f);
          f' = f\<lparr>file_data := d\<rparr>
      in (case r of
            Inl e \<Rightarrow> (Inl e, w, f')
          | Inr _ \<Rightarrow>
            let w' = w\<lparr>fw_next_batch_sequence := sequence + 1,
                       fw_frames_written := fw_frames_written w + 1\<rparr>;
                (r', f'') = seg_sync io f'
            in (case r' of
                  Inl e \<Rightarrow> (Inl e, w', f'')
                | Inr _ \<Rightarrow> (Inr (), w'\<lparr>fw_memtable_id := new\<rparr>, f''))))"

definition set_memtable_id :: "u64 \<Rightarrow> segment_writer \<Rightarrow> segment_writer" where
  "set_memtable_id mid w = w\<lparr>fw_memtable_id := mid\<rparr>"

definition finish ::
  "('s, 'b) arrow \<Rightarrow> wal_io \<Rightarrow> u64 \<Rightarrow> segment_writer \<Rightarrow> seg_file \<Rightarrow> unit res \<times> seg_file" where
  "finish A io now w f =
     (let footer = \<lparr>sf_batch_count = of_nat (fw_batches_written w),
                    sf_frame_count = fw_frames_written w + 1, sf_closed_unix_ms = now\<rparr>;
          (r, d) = write_frame A io RFooter 0 (fw_next_batch_sequence w) 0 (footer_encode footer)
                     (fw_block_max_bytes w) (file_data f);
          f' = f\<lparr>file_data := d\<rparr>
      in (case r of Inl e \<Rightarrow> (Inl e, f') | Inr _ \<Rightarrow> seg_sync io f'))"

definition on_disk_bytes :: "wal_io \<Rightarrow> seg_file \<Rightarrow> u64 res" where
  "on_disk_bytes io f = (if \<not> sync_ok io then Inl (Io ''flush'')
     else Inr (if meta_ok io then of_nat (length (file_data f)) else 0))"

section \<open>Segments as logs\<close>

text \<open>
  What a segment records: batches with their LSN and memtable-end markers. Every entry takes the
  next sequence number.
\<close>

datatype 'b log_entry = LBatch u64 'b | LEnd u64 u64 u64

fun entry_payload :: "('s, 'b) arrow \<Rightarrow> 'b log_entry \<Rightarrow> bytes" where
  "entry_payload A (LBatch l b) = the (ipc_write_batch A b)"
| "entry_payload A (LEnd l c n) = encode_memtable_end_payload c n"

fun entry_frame :: "('s, 'b) arrow \<Rightarrow> u64 \<Rightarrow> 'b log_entry \<Rightarrow> frame_header \<times> bytes" where
  "entry_frame A k (LBatch l b) =
     (frame_of A RBatch PAYLOAD_FORMAT_ARROW_IPC k l (entry_payload A (LBatch l b)),
      entry_payload A (LBatch l b))"
| "entry_frame A k (LEnd l c n) =
     (frame_of A RMemTableEnd 0 k l (encode_memtable_end_payload c n),
      encode_memtable_end_payload c n)"

fun entry_frames :: "('s, 'b) arrow \<Rightarrow> u64 \<Rightarrow> 'b log_entry list \<Rightarrow> (frame_header \<times> bytes) list" where
  "entry_frames A k [] = []"
| "entry_frames A k (e # es) = entry_frame A k e # entry_frames A (k + 1) es"

fun entry_ok :: "('s, 'b) arrow \<Rightarrow> 'b log_entry \<Rightarrow> bool" where
  "entry_ok A (LBatch l b) \<longleftrightarrow> ipc_write_batch A b \<noteq> None \<and>
     FRAME_HEADER_SIZE + length (the (ipc_write_batch A b)) \<le> DEFAULT_WAL_BLOCK_MAX_BYTES"
| "entry_ok A (LEnd l c n) \<longleftrightarrow> True"

fun log_batches :: "'b log_entry list \<Rightarrow> 'b list" where
  "log_batches [] = []"
| "log_batches (LBatch l b # es) = b # log_batches es"
| "log_batches (LEnd l c n # es) = log_batches es"

fun log_framed :: "u64 \<Rightarrow> 'b log_entry list \<Rightarrow> 'b wal_framed_batch list" where
  "log_framed k [] = []"
| "log_framed k (LBatch l b # es) =
     \<lparr>wfb_sequence = k, wfb_lsn = l, wfb_batch = b\<rparr> # log_framed (k + 1) es"
| "log_framed k (LEnd l c n # es) = log_framed (k + 1) es"

fun log_mem :: "('s, 'b) arrow \<Rightarrow> 'b log_entry list \<Rightarrow> nat" where
  "log_mem A [] = 0"
| "log_mem A (LBatch l b # es) = max (array_memory_size A b) 1 + log_mem A es"
| "log_mem A (LEnd l c n # es) = log_mem A es"

definition schema_ok :: "('s, 'b) arrow \<Rightarrow> 's \<Rightarrow> bool" where
  "schema_ok A s \<longleftrightarrow> ipc_write_schema A s \<noteq> None \<and>
     FRAME_HEADER_SIZE + length (the (ipc_write_schema A s)) \<le> DEFAULT_WAL_BLOCK_MAX_BYTES"

definition schema_frame :: "('s, 'b) arrow \<Rightarrow> 's \<Rightarrow> frame_header \<times> bytes" where
  "schema_frame A s =
     (frame_of A RSchema PAYLOAD_FORMAT_ARROW_IPC SCHEMA_FRAME_SEQUENCE 0 (the (ipc_write_schema A s)),
      the (ipc_write_schema A s))"

definition log_frames :: "('s, 'b) arrow \<Rightarrow> 's \<Rightarrow> 'b log_entry list \<Rightarrow> (frame_header \<times> bytes) list" where
  "log_frames A s es = schema_frame A s # entry_frames A 1 es"

definition seg_bytes ::
  "('s, 'b) arrow \<Rightarrow> u64 \<Rightarrow> u64 \<Rightarrow> 's \<Rightarrow> 'b log_entry list \<Rightarrow> bytes" where
  "seg_bytes A now mid s es =
     segment_header_encode (new_v1 now mid) @ frames_bytes (log_frames A s es)"

text \<open>A log that a segment can hold: encodable, within the block cap, and short enough for its
  64-bit sequence numbers.\<close>

definition log_ok :: "('s, 'b) arrow \<Rightarrow> 's \<Rightarrow> 'b log_entry list \<Rightarrow> bool" where
  "log_ok A s es \<longleftrightarrow> arrow_ok A \<and> schema_ok A s \<and> list_all (entry_ok A) es \<and> length es < 2 ^ 64 - 1"

section \<open>Facts\<close>

lemma frame_of_wf:
  assumes "record_type_from_u16 (record_type_as_u16 rt) = rt"
    and "FRAME_HEADER_SIZE + length p \<le> DEFAULT_WAL_BLOCK_MAX_BYTES"
  shows "frame_wf A (frame_of A rt fmt k l p, p)"
proof -
  have "FRAME_HEADER_SIZE + length p < 2 ^ 32"
    using assms(2) by (simp add: size_consts)
  then have "unat (of_nat (FRAME_HEADER_SIZE + length p) :: u32) = FRAME_HEADER_SIZE + length p"
    by (simp add: unat_of_nat del: of_nat_add)
  then show ?thesis
    using assms by (simp add: frame_wf_def frame_of_def)
qed

lemma record_type_rounds [simp]:
  "record_type_from_u16 (record_type_as_u16 RSchema) = RSchema"
  "record_type_from_u16 (record_type_as_u16 RBatch) = RBatch"
  "record_type_from_u16 (record_type_as_u16 RFooter) = RFooter"
  "record_type_from_u16 (record_type_as_u16 RMemTableEnd) = RMemTableEnd"
  by (simp_all add: record_type_from_u16_def)

lemma entry_frame_wf: "entry_ok A e \<Longrightarrow> frame_wf A (entry_frame A k e)"
  by (cases e) (auto intro!: frame_of_wf simp del: record_type_as_u16.simps simp: size_consts)

lemma schema_frame_wf: "schema_ok A s \<Longrightarrow> frame_wf A (schema_frame A s)"
  by (auto simp: schema_ok_def schema_frame_def intro!: frame_of_wf
      simp del: record_type_as_u16.simps)

lemma entry_frames_wf: "list_all (entry_ok A) es \<Longrightarrow> list_all (frame_wf A) (entry_frames A k es)"
  by (induction es arbitrary: k) (auto intro: entry_frame_wf)

lemma log_frames_wf: "log_ok A s es \<Longrightarrow> list_all (frame_wf A) (log_frames A s es)"
  by (simp add: log_ok_def log_frames_def schema_frame_wf entry_frames_wf)

lemma length_entry_frames [simp]: "length (entry_frames A k es) = length es"
  by (induction es arbitrary: k) auto

lemma take_entry_frames: "take m (entry_frames A k es) = entry_frames A k (take m es)"
  by (induction es arbitrary: m k) (auto simp: take_Cons split: nat.splits)

lemma entry_frames_append:
  "entry_frames A k (es @ fs) = entry_frames A k es @ entry_frames A (k + of_nat (length es)) fs"
  by (induction es arbitrary: k) (auto simp: algebra_simps)

lemma log_batches_append [simp]: "log_batches (es @ fs) = log_batches es @ log_batches fs"
  by (induction es rule: log_batches.induct) auto

lemma log_mem_append [simp]: "log_mem A (es @ fs) = log_mem A es + log_mem A fs"
  by (induction A es rule: log_mem.induct) auto

lemma frame_of_sel [simp]:
  "fh_record_type (frame_of A rt fmt k l p) = rt"
  "fh_payload_format (frame_of A rt fmt k l p) = fmt"
  "fh_sequence (frame_of A rt fmt k l p) = k"
  "fh_lsn (frame_of A rt fmt k l p) = l"
  by (simp_all add: frame_of_def)

text \<open>Sequence numbers below the bound do not wrap.\<close>

lemma seq_step:
  assumes "unat k + Suc n < 2 ^ 64"
  shows "max (sat_add k 1) k = k + (1 :: u64)" and "unat (k + 1) + n < 2 ^ 64"
proof -
  have "k \<noteq> u64_max"
    using assms by (auto simp: unat_u64_max)
  then show "max (sat_add k 1) k = k + 1" and "unat (k + 1) + n < 2 ^ 64"
    using assms word_succ_gt [of k] by (auto simp: sat_add_one max_def)
qed

lemma decode_entry:
  "arrow_ok A \<Longrightarrow> entry_ok A (LBatch l b) \<Longrightarrow> decode_batch_ipc A (entry_payload A (LBatch l b)) = Inr b"
  by (auto intro!: batch_ipc_round simp: encode_batch_ipc_def)

lemma decode_schema_frame:
  "arrow_ok A \<Longrightarrow> schema_ok A s \<Longrightarrow> decode_schema_ipc A (the (ipc_write_schema A s)) = Inr s"
  by (auto intro!: schema_ipc_round simp: encode_schema_ipc_def schema_ok_def)

end
