(* ===== verification/Wal_Log.thy ===== *)
theory Wal_Log
  imports Wal_Segment "HOL-Library.Sublist"
begin

text \<open>
  What the readers of \<^verbatim>\<open>src/src/storage/src/wal/format.rs\<close> return for a segment that holds a given
  log, whole or cut off anywhere, and what the writer leaves in the file: \<open>seg_repr\<close> relates a
  writer and its file to the log written so far, and every writer operation is shown to refine the
  corresponding append on the log.
\<close>

section \<open>Readers on whole entries\<close>

lemma run_segment:
  assumes "arrow_ok A" and "list_all (entry_ok A) es" and "unat k + length es < 2 ^ 64"
  shows "frame_run (read_segment_step A ap) t (entry_frames A k es)
           \<lparr>ss_schema = s, ss_batches = bs, ss_next = k\<rparr> =
         Go \<lparr>ss_schema = s, ss_batches = bs @ log_batches es, ss_next = k + of_nat (length es)\<rparr>"
  using assms(2,3)
proof (induction es arbitrary: k bs)
  case (Cons e es)
  have step: "max (sat_add k 1) k = k + 1" "unat (k + 1) + length es < 2 ^ 64"
    using seq_step [of k "length es"] Cons.prems(2) by auto
  show ?case
  proof (cases e)
    case (LBatch l b)
    then show ?thesis
      using Cons decode_entry [OF assms(1), of l b] step
      by (simp add: read_segment_step_def algebra_simps)
  next
    case (LEnd l c n)
    then show ?thesis
      using Cons step by (simp add: read_segment_step_def algebra_simps)
  qed
qed simp

lemma run_schema_segment:
  assumes "arrow_ok A" and "schema_ok A s"
  shows "read_segment_step A ap st (fst (schema_frame A s)) (snd (schema_frame A s)) r =
         Go (st\<lparr>ss_schema := Some s\<rparr>)"
  using decode_schema_frame [OF assms] by (simp add: read_segment_step_def schema_frame_def)

lemma run_from:
  assumes "arrow_ok A" and "list_all (entry_ok A) es" and "unat k + length es < 2 ^ 64"
  shows "frame_run (read_from_step A lo ap) t (entry_frames A k es) (Some s, out) =
         Go (Some s, out @ filter (\<lambda>b. lo \<le> wfb_sequence b) (log_framed k es))"
  using assms(2,3)
proof (induction es arbitrary: k out)
  case (Cons e es)
  have step: "unat (k + 1) + length es < 2 ^ 64"
    using seq_step [of k "length es"] Cons.prems(2) by auto
  show ?case
  proof (cases e)
    case (LBatch l b)
    then show ?thesis
      using Cons decode_entry [OF assms(1), of l b] step
      by (auto simp: read_from_step_def not_less)
  next
    case (LEnd l c n)
    then show ?thesis
      using Cons step by (simp add: read_from_step_def)
  qed
qed simp

lemma run_schema_from:
  assumes "arrow_ok A" and "schema_ok A s"
  shows "read_from_step A lo ap (x, out) (fst (schema_frame A s)) (snd (schema_frame A s)) r =
         Go (Some s, out)"
  using decode_schema_frame [OF assms] by (simp add: read_from_step_def schema_frame_def)

text \<open>The tail scan counts what was written.\<close>

definition tail_of :: "('s, 'b) arrow \<Rightarrow> 'b log_entry list \<Rightarrow> segment_tail_state" where
  "tail_of A es = \<lparr>ts_batches_written = length (log_batches es),
     ts_next_batch_sequence = 1 + of_nat (length es), ts_bytes_written = log_mem A es,
     ts_frames_written = 1 + of_nat (length es), ts_has_footer = False\<rparr>"

lemma run_tail:
  assumes "arrow_ok A" and "list_all (entry_ok A) es" and "unat k + length es < 2 ^ 64"
  shows "frame_run (scan_tail_step A) t (entry_frames A k es)
           \<lparr>ts_batches_written = n, ts_next_batch_sequence = k, ts_bytes_written = m,
            ts_frames_written = fr, ts_has_footer = False\<rparr> =
         Go \<lparr>ts_batches_written = n + length (log_batches es),
             ts_next_batch_sequence = k + of_nat (length es), ts_bytes_written = m + log_mem A es,
             ts_frames_written = fr + of_nat (length es), ts_has_footer = False\<rparr>"
  using assms(2,3)
proof (induction es arbitrary: k n m fr)
  case (Cons e es)
  have step: "max (sat_add k 1) k = k + 1" "unat (k + 1) + length es < 2 ^ 64"
    using seq_step [of k "length es"] Cons.prems(2) by auto
  show ?case
  proof (cases e)
    case (LBatch l b)
    then show ?thesis
      using Cons decode_entry [OF assms(1), of l b] step
      by (simp add: scan_tail_step_def Let_def algebra_simps)
  next
    case (LEnd l c n)
    then show ?thesis
      using Cons step by (simp add: scan_tail_step_def Let_def algebra_simps)
  qed
qed simp

section \<open>Cut-off segments\<close>

text \<open>The number of entries whose frames lie within the first \<open>n\<close> bytes of the segment.\<close>

definition survived :: "('s, 'b) arrow \<Rightarrow> 's \<Rightarrow> 'b log_entry list \<Rightarrow> nat \<Rightarrow> nat" where
  "survived A s es n = fits (n - SEGMENT_HEADER_SIZE) (log_frames A s es) - 1"

lemma survived_le: "survived A s es n \<le> length es"
  using fits_le_length [of "n - SEGMENT_HEADER_SIZE" "log_frames A s es"]
  by (simp add: survived_def log_frames_def)

lemma length_seg_bytes:
  "length (seg_bytes A now mid s es) = SEGMENT_HEADER_SIZE + length (frames_bytes (log_frames A s es))"
  by (simp add: seg_bytes_def)

lemma take_log_frames: "take (Suc m) (log_frames A s es) = log_frames A s (take m es)"
  by (simp add: log_frames_def take_entry_frames)

lemma le_survived:
  assumes "j \<le> length es" and "length (seg_bytes A now mid s (take j es)) \<le> n"
  shows "j \<le> survived A s es n"
proof -
  have "length (frames_bytes (take (Suc j) (log_frames A s es))) \<le> n - SEGMENT_HEADER_SIZE"
    using assms(2) by (simp add: length_seg_bytes take_log_frames)
  then have "Suc j \<le> fits (n - SEGMENT_HEADER_SIZE) (log_frames A s es)"
    using assms(1) by (subst (asm) fits_iff) (simp_all add: log_frames_def)
  then show ?thesis by (simp add: survived_def)
qed

lemma survived_fits:
  assumes "SEGMENT_HEADER_SIZE \<le> n" and "0 < fits (n - SEGMENT_HEADER_SIZE) (log_frames A s es)"
  shows "length (seg_bytes A now mid s (take (survived A s es n) es)) \<le> n"
proof -
  let ?m = "fits (n - SEGMENT_HEADER_SIZE) (log_frames A s es)"
  have "length (frames_bytes (take ?m (log_frames A s es))) \<le> n - SEGMENT_HEADER_SIZE"
    by (subst fits_iff) (simp_all add: fits_le_length)
  moreover have "?m = Suc (survived A s es n)"
    using assms(2) by (simp add: survived_def)
  ultimately show ?thesis
    using assms(1) by (simp add: length_seg_bytes take_log_frames)
qed

text \<open>
  A cut-off segment is one of: too short for a header, a header with an unreadable rest, or the
  segment of a shorter log with an unreadable rest.
\<close>

lemma seg_bytes_take:
  assumes "log_ok A s es" and "n \<le> length (seg_bytes A now mid s es)"
  obtains (short) "n < SEGMENT_HEADER_SIZE" "survived A s es n = 0"
    | (bare) t where "SEGMENT_HEADER_SIZE \<le> n" "survived A s es n = 0" "torn A t"
        "take n (seg_bytes A now mid s es) = segment_header_encode (new_v1 now mid) @ t"
    | (log) t where "torn A t"
        "take n (seg_bytes A now mid s es) = seg_bytes A now mid s (take (survived A s es n) es) @ t"
proof -
  let ?fs = "log_frames A s es" and ?k = "n - SEGMENT_HEADER_SIZE"
  obtain t where t: "take ?k (frames_bytes ?fs) = frames_bytes (take (fits ?k ?fs) ?fs) @ t"
    and torn: "torn A t"
    using take_frames_bytes [OF log_frames_wf [OF assms(1)]] by blast
  show ?thesis
  proof (cases "n < SEGMENT_HEADER_SIZE")
    case True
    have "fits 0 ?fs = 0" by (simp add: log_frames_def FRAME_HEADER_SIZE_def)
    with True show ?thesis by (intro short) (simp_all add: survived_def)
  next
    case False
    then have n: "take n (seg_bytes A now mid s es) =
        segment_header_encode (new_v1 now mid) @ take ?k (frames_bytes ?fs)"
      by (simp add: seg_bytes_def)
    show ?thesis
    proof (cases "fits ?k ?fs")
      case 0
      with False n t torn show ?thesis by (intro bare [of t]) (simp_all add: survived_def)
    next
      case (Suc m)
      with n t torn show ?thesis
        by (intro log [of t]) (simp_all add: survived_def seg_bytes_def take_log_frames)
    qed
  qed
qed

lemma segment_header_decode_short [simp]:
  "n < SEGMENT_HEADER_SIZE \<Longrightarrow> segment_header_decode (take n d) = Inl (Storage ''failed to fill whole buffer'')"
  by (simp add: segment_header_decode_def)

lemma log_ok_take: "log_ok A s es \<Longrightarrow> log_ok A s (take m es)"
  by (auto simp: log_ok_def list_all_iff dest: in_set_takeD)

lemma log_loop:
  assumes "log_ok A s es" and "torn A t"
    and "frame_run step t (log_frames A s es) st = Go st'"
  shows "frame_loop A step stop st (frames_bytes (log_frames A s es) @ t) = stop st' (read_frame A t)"
  using frame_loop_frames [OF log_frames_wf [OF assms(1)], of step stop st t] assms(2,3)
  by (simp add: frame_loop_torn)

lemma log_run_segment:
  assumes "log_ok A s es"
  shows "frame_run (read_segment_step A ap) t (log_frames A s es)
           \<lparr>ss_schema = None, ss_batches = [], ss_next = 1\<rparr> =
         Go \<lparr>ss_schema = Some s, ss_batches = log_batches es, ss_next = 1 + of_nat (length es)\<rparr>"
  using assms run_schema_segment [of A s ap] run_segment [of A es 1 ap t "Some s" "[]"]
  by (simp add: log_ok_def log_frames_def)

lemma log_run_from:
  assumes "log_ok A s es"
  shows "frame_run (read_from_step A lo ap) t (log_frames A s es) (None, []) =
         Go (Some s, filter (\<lambda>b. lo \<le> wfb_sequence b) (log_framed 1 es))"
  using assms run_schema_from [of A s lo ap] run_from [of A es 1 lo ap t s "[]"]
  by (simp add: log_ok_def log_frames_def)

lemma log_run_tail:
  assumes "log_ok A s es"
  shows "frame_run (scan_tail_step A) t (log_frames A s es) tail_init = Go (tail_of A es)"
proof -
  have "scan_tail_step A tail_init (fst (schema_frame A s)) (snd (schema_frame A s)) r =
      Go (tail_init\<lparr>ts_frames_written := 1\<rparr>)" for r
    by (simp add: scan_tail_step_def schema_frame_def tail_init_def Let_def)
  then show ?thesis
    using assms run_tail [of A es 1 t 0 0 1]
    by (simp add: log_ok_def log_frames_def tail_init_def tail_of_def)
qed

lemma read_segment_batches_log:
  assumes "log_ok A s es" and "torn A t"
  shows "read_segment_batches A (Some (seg_bytes A now mid s es @ t)) True = Inr (log_batches es)"
  using log_loop [OF assms log_run_segment [OF assms(1)], where stop = "read_segment_stop True"]
  by (simp add: read_segment_batches_def seg_bytes_def read_segment_stop_def)

lemma scan_segment_tail_log:
  assumes "log_ok A s es" and "torn A t"
  shows "scan_segment_tail A (Some (seg_bytes A now mid s es @ t)) = Inr (tail_of A es)"
  using log_loop [OF assms log_run_tail [OF assms(1)], where stop = "\<lambda>st _. Inr st"]
  by (simp add: scan_segment_tail_def seg_bytes_def)

lemma new_v1_mid [simp]: "sh_memtable_id (new_v1 now mid) = mid"
  by (simp add: new_v1_def)

lemma read_from_log:
  assumes "log_ok A s es" and "torn A t"
  shows "read_wal_batches_from_sequence A (Some (seg_bytes A now mid s es @ t)) mid lo True =
         Inr (filter (\<lambda>b. lo \<le> wfb_sequence b) (log_framed 1 es))"
  using log_loop [OF assms log_run_from [OF assms(1)], where stop = "read_from_stop True"]
  by (simp add: read_wal_batches_from_sequence_def seg_bytes_def read_from_stop_def)

text \<open>Replay of a cut-off segment.\<close>

lemma read_segment_batches_take:
  assumes "log_ok A s es" and "n \<le> length (seg_bytes A now mid s es)"
  shows "read_segment_batches A (Some (take n (seg_bytes A now mid s es))) True =
         Inr (log_batches (take (survived A s es n) es))"
  using assms
proof (cases rule: seg_bytes_take)
  case short
  then show ?thesis by (simp add: read_segment_batches_def bail_def)
next
  case (bare t)
  then show ?thesis
    by (simp add: read_segment_batches_def frame_loop_torn read_segment_stop_def)
next
  case (log t)
  then show ?thesis
    using read_segment_batches_log [OF log_ok_take [OF assms(1)]] by simp
qed

section \<open>The writer refines appending to the log\<close>

definition seg_repr ::
  "('s, 'b) arrow \<Rightarrow> u64 \<Rightarrow> u64 \<Rightarrow> 's \<Rightarrow> 'b log_entry list \<Rightarrow> segment_writer \<Rightarrow> seg_file \<Rightarrow> bool" where
  "seg_repr A now mid s es w f \<longleftrightarrow>
     log_ok A s es \<and> file_data f = seg_bytes A now mid s es \<and>
     file_durable f \<le> length (file_data f) \<and>
     FRAME_HEADER_SIZE \<le> fw_block_max_bytes w \<and>
     fw_block_max_bytes w \<le> DEFAULT_WAL_BLOCK_MAX_BYTES \<and>
     fw_batches_written w = length (log_batches es) \<and>
     fw_next_batch_sequence w = 1 + of_nat (length es) \<and>
     fw_frames_written w = 1 + of_nat (length es) \<and>
     fw_bytes_written w = log_mem A es"

text \<open>One append, of either kind, with its outcome.\<close>

datatype 'b seg_op = SBatch wal_io 'b u64 bool | SEnd wal_io u64 u64 u64

fun op_entry :: "'b seg_op \<Rightarrow> 'b log_entry" where
  "op_entry (SBatch io b l sync) = LBatch l b"
| "op_entry (SEnd io l c n) = LEnd l c n"

fun op_sync :: "'b seg_op \<Rightarrow> bool" where
  "op_sync (SBatch io b l sync) = sync"
| "op_sync (SEnd io l c n) = True"

fun is_ok :: "'a res \<Rightarrow> bool" where
  "is_ok (Inl e) = False"
| "is_ok (Inr x) = True"

fun seg_exec ::
  "('s, 'b) arrow \<Rightarrow> 'b seg_op \<Rightarrow> segment_writer \<Rightarrow> seg_file \<Rightarrow> bool \<times> segment_writer \<times> seg_file" where
  "seg_exec A (SBatch io b l sync) w f = apfst is_ok (append_batch A io b l sync w f)"
| "seg_exec A (SEnd io l c n) w f = apfst is_ok (append_memtable_end A io l c n w f)"

text \<open>
  A series of appends up to the first failure, with the acknowledged entries and whether they were
  acknowledged as synced.
\<close>

fun seg_run ::
  "('s, 'b) arrow \<Rightarrow> 'b seg_op list \<Rightarrow> segment_writer \<Rightarrow> seg_file
     \<Rightarrow> ('b log_entry \<times> bool) list \<times> segment_writer \<times> seg_file" where
  "seg_run A [] w f = ([], w, f)"
| "seg_run A (x # xs) w f =
     (case seg_exec A x w f of
        (True, w', f') \<Rightarrow> apfst (\<lambda>acked. (op_entry x, op_sync x) # acked) (seg_run A xs w' f')
      | (False, w', f') \<Rightarrow> ([], w', f'))"

text \<open>The acknowledged entries up to the last synced one.\<close>

fun synced_count :: "('e \<times> bool) list \<Rightarrow> nat" where
  "synced_count [] = 0"
| "synced_count ((e, s) # xs) =
     (if 0 < synced_count xs then Suc (synced_count xs) else if s then 1 else 0)"

text \<open>Payloads whose length survives the conversion to 32 bits.\<close>

fun op_small :: "('s, 'b) arrow \<Rightarrow> 'b seg_op \<Rightarrow> bool" where
  "op_small A (SBatch io b l sync) =
     (case ipc_write_batch A b of None \<Rightarrow> True | Some p \<Rightarrow> length p < 2 ^ 32)"
| "op_small A (SEnd io l c n) = True"

lemma write_frame_err:
  assumes "write_frame A io rt fmt s l p m out = (Inl e, out')" and "length p < 2 ^ 32"
  shows "out' = out \<or>
    FRAME_HEADER_SIZE + length p \<le> m \<and>
    (\<exists>k. out' = out @ take k (frame_bytes (frame_of A rt fmt s l p, p)))"
proof -
  have "unat (of_nat (length p) :: u32) = length p"
    using assms(2) by (simp add: unat_of_nat)
  then show ?thesis
    using assms(1)
    by (auto simp: write_frame_def Let_def frame_bytes_def split: if_splits option.splits
        intro: exI [of _ "the (write_fail io)"])
qed

lemma seg_bytes_snoc:
  "seg_bytes A now mid s (es @ [e]) =
     seg_bytes A now mid s es @ frame_bytes (entry_frame A (1 + of_nat (length es)) e)"
  by (simp add: seg_bytes_def log_frames_def entry_frames_append)

lemma log_ok_snoc:
  "log_ok A s es \<Longrightarrow> entry_ok A e \<Longrightarrow> Suc (length es) < 2 ^ 64 - 1 \<Longrightarrow> log_ok A s (es @ [e])"
  by (simp add: log_ok_def)

text \<open>Both appends write the frame of their entry; what remains is the synchronisation.\<close>

definition written ::
  "('s, 'b) arrow \<Rightarrow> u64 \<Rightarrow> u64 \<Rightarrow> 's \<Rightarrow> 'b log_entry list \<Rightarrow> 'b log_entry \<Rightarrow> seg_file \<Rightarrow> seg_file \<Rightarrow> bool" where
  "written A now mid s es e f f' \<longleftrightarrow>
     (\<exists>es' N. log_ok A s es' \<and> prefix es es' \<and> prefix es' (es @ [e]) \<and>
        file_data f' = take N (seg_bytes A now mid s es')) \<and>
     file_durable f \<le> file_durable f' \<and> file_durable f' \<le> length (file_data f')"

lemma written_same: "seg_repr A now mid s es w f \<Longrightarrow> written A now mid s es e f f"
  unfolding written_def seg_repr_def by (metis order_refl prefixI prefix_order.refl take_all)

lemma written_part:
  assumes "seg_repr A now mid s es w f" and "log_ok A s (es @ [e])"
    and "file_data f' = seg_bytes A now mid s es @
           take k (frame_bytes (entry_frame A (1 + of_nat (length es)) e))"
    and "file_durable f \<le> file_durable f'" and "file_durable f' \<le> length (file_data f')"
  shows "written A now mid s es e f f'"
proof -
  have "file_data f' = take (length (seg_bytes A now mid s es) + k) (seg_bytes A now mid s (es @ [e]))"
    using assms(3) by (simp add: seg_bytes_snoc)
  then show ?thesis
    using assms unfolding written_def by (metis prefixI prefix_order.refl)
qed

lemma seg_sync_cases:
  "seg_sync io f = (r, f') \<Longrightarrow> file_data f' = file_data f \<and>
     (r = Inr () \<and> file_durable f' = length (file_data f) \<or> (\<exists>e. r = Inl e) \<and> f' = f)"
  by (auto simp: seg_sync_def split: if_splits)

lemma append_batch_ok:
  assumes repr: "seg_repr A now mid s es w f"
    and run: "append_batch A io b l sync w f = (Inr k, w', f')"
    and small: "op_small A (SBatch io b l sync)" and len: "Suc (length es) < 2 ^ 64 - 1"
  shows "seg_repr A now mid s (es @ [LBatch l b]) w' f' \<and> k = 1 + of_nat (length es) \<and>
     file_durable f \<le> file_durable f' \<and> (sync \<longrightarrow> file_durable f' = length (file_data f'))"
proof -
  let ?k = "1 + of_nat (length es) :: u64"
  obtain p where p: "ipc_write_batch A b = Some p" and sp: "length p < 2 ^ 32"
    using run small by (auto simp: append_batch_def encode_batch_ipc_def ok_or_def split: option.splits)
  obtain d where wf: "write_frame A io RBatch PAYLOAD_FORMAT_ARROW_IPC ?k l p
      (fw_block_max_bytes w) (file_data f) = (Inr (), d)"
    using run repr p
    by (auto simp: append_batch_def encode_batch_ipc_def seg_repr_def Let_def
        split: prod.splits sum.splits)
  note wr = write_frame_ok [OF wf sp]
  have "entry_ok A (LBatch l b)"
    using wr(3) repr p by (simp add: seg_repr_def)
  then have ok: "log_ok A s (es @ [LBatch l b])"
    using repr len by (intro log_ok_snoc) (auto simp: seg_repr_def)
  have d: "d = seg_bytes A now mid s (es @ [LBatch l b])"
    using wr(1) repr p by (simp add: seg_bytes_snoc seg_repr_def)
  have "length (seg_bytes A now mid s es) \<le> length d"
    using d by (simp add: seg_bytes_snoc)
  then show ?thesis
    using run repr p wf ok d
    by (auto simp: append_batch_def encode_batch_ipc_def Let_def seg_repr_def seg_sync_def
        and_then_eq_Inr split: if_splits)
qed

lemma append_batch_err:
  assumes repr: "seg_repr A now mid s es w f"
    and run: "append_batch A io b l sync w f = (Inl e, w', f')"
    and small: "op_small A (SBatch io b l sync)" and len: "Suc (length es) < 2 ^ 64 - 1"
  shows "written A now mid s es (LBatch l b) f f'"
proof (cases "ipc_write_batch A b")
  case None
  then show ?thesis
    using run written_same [OF repr] by (simp add: append_batch_def encode_batch_ipc_def)
next
  case (Some p)
  let ?k = "1 + of_nat (length es) :: u64"
  let ?h = "frame_of A RBatch PAYLOAD_FORMAT_ARROW_IPC ?k l p"
  have sp: "length p < 2 ^ 32" using small Some by simp
  obtain r d where wf: "write_frame A io RBatch PAYLOAD_FORMAT_ARROW_IPC ?k l p
      (fw_block_max_bytes w) (file_data f) = (r, d)" by fastforce
  have f': "file_data f' = d" "file_durable f' = file_durable f"
    using run repr wf Some
    by (auto simp: append_batch_def encode_batch_ipc_def seg_repr_def Let_def seg_sync_def
        split: sum.splits if_splits)
  have part: "d = file_data f \<or> FRAME_HEADER_SIZE + length p \<le> fw_block_max_bytes w \<and>
      (\<exists>j. d = file_data f @ take j (frame_bytes (?h, p)))"
  proof (cases r)
    case (Inl e')
    then show ?thesis using write_frame_err [OF _ sp] wf by blast
  next
    case (Inr u)
    then have "write_frame A io RBatch PAYLOAD_FORMAT_ARROW_IPC ?k l p
        (fw_block_max_bytes w) (file_data f) = (Inr (), d)" using wf by simp
    note wr = write_frame_ok [OF this sp]
    have "d = file_data f @ take (length (frame_bytes (?h, p))) (frame_bytes (?h, p))"
      using wr(1) by simp
    then show ?thesis using wr(3) by blast
  qed
  then show ?thesis
  proof
    assume "d = file_data f"
    then have "f' = f" using f' by simp
    then show ?thesis using written_same [OF repr] by simp
  next
    assume a: "FRAME_HEADER_SIZE + length p \<le> fw_block_max_bytes w \<and>
      (\<exists>j. d = file_data f @ take j (frame_bytes (?h, p)))"
    then have "log_ok A s (es @ [LBatch l b])"
      using repr len Some by (intro log_ok_snoc) (auto simp: seg_repr_def)
    with a show ?thesis
      using repr f' Some by (auto intro!: written_part [OF repr] simp: seg_repr_def)
  qed
qed

lemma append_memtable_end_ok:
  assumes repr: "seg_repr A now mid s es w f"
    and run: "append_memtable_end A io l c n w f = (Inr (), w', f')"
    and len: "Suc (length es) < 2 ^ 64 - 1"
  shows "seg_repr A now mid s (es @ [LEnd l c n]) w' f' \<and> file_durable f' = length (file_data f')
     \<and> fw_memtable_id w' = n"
proof -
  let ?k = "1 + of_nat (length es) :: u64" and ?p = "encode_memtable_end_payload c n"
  obtain d where wf: "write_frame A io RMemTableEnd 0 ?k l ?p
      (fw_block_max_bytes w) (file_data f) = (Inr (), d)"
    using run repr
    by (auto simp: append_memtable_end_def seg_repr_def Let_def split: prod.splits sum.splits)
  have d: "d = seg_bytes A now mid s (es @ [LEnd l c n])"
    using write_frame_ok(1) [OF wf] repr by (simp add: seg_bytes_snoc seg_repr_def)
  have "log_ok A s (es @ [LEnd l c n])"
    using repr len by (intro log_ok_snoc) (auto simp: seg_repr_def)
  then show ?thesis
    using run repr wf d
    by (auto simp: append_memtable_end_def Let_def seg_repr_def seg_sync_def split: if_splits)
qed

lemma append_memtable_end_err:
  assumes repr: "seg_repr A now mid s es w f"
    and run: "append_memtable_end A io l c n w f = (Inl e, w', f')"
    and len: "Suc (length es) < 2 ^ 64 - 1"
  shows "written A now mid s es (LEnd l c n) f f'"
proof -
  let ?k = "1 + of_nat (length es) :: u64" and ?p = "encode_memtable_end_payload c n"
  let ?h = "frame_of A RMemTableEnd 0 ?k l ?p"
  have small: "length ?p < 2 ^ 32" by simp
  obtain r d where wf: "write_frame A io RMemTableEnd 0 ?k l ?p
      (fw_block_max_bytes w) (file_data f) = (r, d)" by fastforce
  have f': "file_data f' = d" "file_durable f' = file_durable f"
    using run repr wf
    by (auto simp: append_memtable_end_def seg_repr_def Let_def seg_sync_def
        split: sum.splits if_splits)
  have "\<exists>j. d = file_data f @ take j (frame_bytes (?h, ?p))"
  proof (cases r)
    case (Inl e')
    then show ?thesis
      using write_frame_err [OF wf [unfolded Inl] small] by (metis append_Nil2 take_0)
  next
    case (Inr u)
    then have "d = file_data f @ take (length (frame_bytes (?h, ?p))) (frame_bytes (?h, ?p))"
      using write_frame_ok(1) [of A io RMemTableEnd 0 ?k l ?p _ "file_data f" d] wf by simp
    then show ?thesis by blast
  qed
  moreover have "log_ok A s (es @ [LEnd l c n])"
    using repr len by (intro log_ok_snoc) (auto simp: seg_repr_def)
  ultimately show ?thesis
    using repr f' by (auto intro!: written_part [OF repr] simp: seg_repr_def)
qed

lemma seg_exec_ok:
  assumes "seg_repr A now mid s es w f" and "seg_exec A x w f = (True, w', f')"
    and "op_small A x" and "Suc (length es) < 2 ^ 64 - 1"
  shows "seg_repr A now mid s (es @ [op_entry x]) w' f' \<and> file_durable f \<le> file_durable f' \<and>
     (op_sync x \<longrightarrow> file_durable f' = length (file_data f'))"
proof (cases x)
  case (SBatch io b l sync)
  then obtain k where "append_batch A io b l sync w f = (Inr k, w', f')"
    using assms(2) by (cases "fst (append_batch A io b l sync w f)") (auto simp: apfst_def prod_eq_iff)
  then show ?thesis
    using append_batch_ok [OF assms(1)] assms(3,4) SBatch by simp
next
  case (SEnd io l c n)
  then have run: "append_memtable_end A io l c n w f = (Inr (), w', f')"
    using assms(2)
    by (cases "fst (append_memtable_end A io l c n w f)") (auto simp: apfst_def prod_eq_iff)
  have "length (file_data f) \<le> length (file_data f')"
    using append_memtable_end_ok [OF assms(1) run assms(4)] assms(1)
    by (simp add: seg_repr_def seg_bytes_snoc)
  then show ?thesis
    using append_memtable_end_ok [OF assms(1) run assms(4)] assms(1) SEnd
    by (auto simp: seg_repr_def)
qed

lemma seg_exec_err:
  assumes "seg_repr A now mid s es w f" and "seg_exec A x w f = (False, w', f')"
    and "op_small A x" and "Suc (length es) < 2 ^ 64 - 1"
  shows "written A now mid s es (op_entry x) f f'"
proof (cases x)
  case (SBatch io b l sync)
  then obtain e where "append_batch A io b l sync w f = (Inl e, w', f')"
    using assms(2) by (cases "fst (append_batch A io b l sync w f)") (auto simp: apfst_def prod_eq_iff)
  then show ?thesis
    using append_batch_err [OF assms(1)] assms(3,4) SBatch by simp
next
  case (SEnd io l c n)
  then obtain e where "append_memtable_end A io l c n w f = (Inl e, w', f')"
    using assms(2)
    by (cases "fst (append_memtable_end A io l c n w f)") (auto simp: apfst_def prod_eq_iff)
  then show ?thesis
    using append_memtable_end_err [OF assms(1)] assms(4) SEnd by simp
qed

definition holds ::
  "('s, 'b) arrow \<Rightarrow> u64 \<Rightarrow> u64 \<Rightarrow> 's \<Rightarrow> 'b log_entry list \<Rightarrow> 'b seg_op list \<Rightarrow>
   ('b log_entry \<times> bool) list \<Rightarrow> seg_file \<Rightarrow> seg_file \<Rightarrow> bool" where
  "holds A now mid s es ops acked f f' \<longleftrightarrow>
     (\<exists>es' N. log_ok A s es' \<and> prefix (es @ map fst acked) es' \<and>
        prefix es' (es @ map op_entry (take (Suc (length acked)) ops)) \<and>
        file_data f' = take N (seg_bytes A now mid s es')) \<and>
     file_durable f \<le> file_durable f' \<and> file_durable f' \<le> length (file_data f') \<and>
     (0 < synced_count acked \<longrightarrow>
        length (seg_bytes A now mid s (es @ take (synced_count acked) (map fst acked)))
          \<le> file_durable f')"

lemma holds_cons:
  assumes "seg_repr A now mid s (es @ [op_entry x]) w1 f1"
    and "file_durable f \<le> file_durable f1"
    and "op_sync x \<longrightarrow> file_durable f1 = length (file_data f1)"
    and "holds A now mid s (es @ [op_entry x]) ops acked f1 f'"
  shows "holds A now mid s es (x # ops) ((op_entry x, op_sync x) # acked) f f'"
  using assms by (auto simp: holds_def seg_repr_def)

lemma seg_run_holds:
  "seg_repr A now mid s es w f \<Longrightarrow> list_all (op_small A) ops \<Longrightarrow>
   length es + length ops < 2 ^ 64 - 1 \<Longrightarrow> seg_run A ops w f = (acked, w', f') \<Longrightarrow>
   holds A now mid s es ops acked f f'"
proof (induction ops arbitrary: es w f acked)
  case Nil
  then show ?case
    by (auto simp: holds_def seg_repr_def intro!: exI [of _ es] exI [of _ "length (file_data f)"])
next
  case (Cons x ops)
  obtain b w1 f1 where x: "seg_exec A x w f = (b, w1, f1)" by (metis surj_pair)
  show ?case
  proof (cases b)
    case True
    then obtain acked' where acked: "acked = (op_entry x, op_sync x) # acked'"
      and run: "seg_run A ops w1 f1 = (acked', w', f')"
      using Cons.prems(4) x by (cases "seg_run A ops w1 f1") auto
    have step: "seg_repr A now mid s (es @ [op_entry x]) w1 f1 \<and> file_durable f \<le> file_durable f1 \<and>
        (op_sync x \<longrightarrow> file_durable f1 = length (file_data f1))"
      using seg_exec_ok [OF Cons.prems(1)] x True Cons.prems(2,3) by simp
    then have "holds A now mid s (es @ [op_entry x]) ops acked' f1 f'"
      using Cons.IH [OF _ _ _ run] Cons.prems(2,3) by auto
    then show ?thesis
      unfolding acked using step by (intro holds_cons) auto
  next
    case False
    then have "written A now mid s es (op_entry x) f f'" and "acked = []"
      using seg_exec_err [OF Cons.prems(1)] x Cons.prems by auto
    then show ?thesis by (auto simp: holds_def written_def)
  qed
qed

lemma create_ok:
  assumes "create_with_block_max A io now file mid s bm = (Inr w, Some f)" and "arrow_ok A"
    and "case ipc_write_schema A s of None \<Rightarrow> True | Some p \<Rightarrow> length p < 2 ^ 32"
  shows "seg_repr A now mid s [] w f \<and> file = None \<and> fw_memtable_id w = mid"
proof -
  have cl: "FRAME_HEADER_SIZE \<le> clamp_block_max bm" "clamp_block_max bm \<le> DEFAULT_WAL_BLOCK_MAX_BYTES"
    using clamp_bounds [of FRAME_HEADER_SIZE DEFAULT_WAL_BLOCK_MAX_BYTES bm]
    by (auto simp: clamp_block_max_def size_consts)
  obtain p where p: "ipc_write_schema A s = Some p" and sp: "length p < 2 ^ 32"
    using assms
    by (auto simp: create_with_block_max_def encode_schema_ipc_def ok_or_def Let_def
        split: if_splits option.splits)
  obtain io' d where wf: "write_frame A io' RSchema PAYLOAD_FORMAT_ARROW_IPC SCHEMA_FRAME_SEQUENCE 0 p
      (clamp_block_max bm) (segment_header_encode (new_v1 now mid)) = (Inr (), d)"
    and d: "file_data f = d" "file_durable f = 0"
    and w: "w = \<lparr>fw_memtable_id = mid, fw_batches_written = 0,
                     fw_frames_written = 1, fw_bytes_written = 0, fw_next_batch_sequence = 1,
                     fw_block_max_bytes = clamp_block_max bm\<rparr>"
    and none: "file = None"
    using assms(1) p
    by (auto simp: create_with_block_max_def encode_schema_ipc_def Let_def and_then_eq_Inr
        split: if_splits prod.splits)
  note wr = write_frame_ok [OF wf sp]
  have "log_ok A s []"
    using assms(2) p wr(3) cl by (simp add: log_ok_def schema_ok_def)
  moreover have "d = seg_bytes A now mid s []"
    using wr(1) p by (simp add: seg_bytes_def log_frames_def schema_frame_def)
  ultimately show ?thesis
    using cl w d none by (simp add: seg_repr_def)
qed

lemma prefix_take_mono: "j \<le> m \<Longrightarrow> prefix (take j xs) (take m xs)"
  by (metis min.absorb1 take_is_prefix take_take)

lemma log_batches_prefix: "prefix es es' \<Longrightarrow> prefix (log_batches es) (log_batches es')"
  by (auto simp: prefix_def)

lemma holds_replay:
  assumes "holds A now mid s [] ops acked f0 f"
    and "file_durable f \<le> n" and "n \<le> length (file_data f)"
  shows "\<exists>bs. read_segment_batches A (Some (take n (file_data f))) True = Inr bs \<and>
     prefix (log_batches (take (synced_count acked) (map fst acked))) bs \<and>
     prefix bs (log_batches (map op_entry (take (Suc (length acked)) ops)))"
proof -
  obtain es N where es: "log_ok A s es" "prefix (map fst acked) es"
      "prefix es (map op_entry (take (Suc (length acked)) ops))"
    and data: "file_data f = take N (seg_bytes A now mid s es)"
    using assms(1) by (auto simp: holds_def)
  have take: "take n (file_data f) = take n (seg_bytes A now mid s es)"
    and n: "n \<le> length (seg_bytes A now mid s es)"
    using data assms(3) by (simp_all add: min_def split: if_splits)
  let ?m = "survived A s es n" and ?j = "min (synced_count acked) (length acked)"
  have acked_take: "take (synced_count acked) (map fst acked) = take ?j es"
    using es(2) by (auto simp: prefix_def min_def)
  have "?j \<le> ?m"
  proof (cases "0 < synced_count acked")
    case True
    have "length (seg_bytes A now mid s (take (synced_count acked) (map fst acked))) \<le> n"
      using assms(1,2) True by (auto simp: holds_def)
    moreover have "?j \<le> length es" using prefix_length_le [OF es(2)] by simp
    ultimately show ?thesis using le_survived [of ?j es A now mid s n] acked_take by simp
  qed simp
  then have "prefix (take (synced_count acked) (map fst acked)) (take ?m es)"
    using prefix_take_mono [of ?j ?m es] acked_take by simp
  moreover have "prefix (take ?m es) (map op_entry (take (Suc (length acked)) ops))"
    using es(3) take_is_prefix prefix_order.trans by blast
  ultimately show ?thesis
    using read_segment_batches_take [OF es(1) n] take log_batches_prefix by auto
qed

end
