(* ===== verification/Wal_Tail.thy ===== *)
theory Wal_Tail
  imports Wal_Log
begin

text \<open>
  Further behaviour of segments: closed segments and strict reading, the tailing cursor over a
  growing file, and reopening a segment, cleanly and after a crash that left part of a frame behind
  (\<^verbatim>\<open>src/src/storage/src/wal/format.rs\<close>).
\<close>

section \<open>Closed segments\<close>

definition footer_frame ::
  "('s, 'b) arrow \<Rightarrow> u64 \<Rightarrow> 'b log_entry list \<Rightarrow> frame_header \<times> bytes" where
  "footer_frame A now es =
     (let p = footer_encode \<lparr>sf_batch_count = of_nat (length (log_batches es)),
                sf_frame_count = 1 + of_nat (length es) + 1, sf_closed_unix_ms = now\<rparr>
      in (frame_of A RFooter 0 (1 + of_nat (length es)) 0 p, p))"

definition closed_bytes ::
  "('s, 'b) arrow \<Rightarrow> u64 \<Rightarrow> u64 \<Rightarrow> u64 \<Rightarrow> 's \<Rightarrow> 'b log_entry list \<Rightarrow> bytes" where
  "closed_bytes A now closed mid s es =
     seg_bytes A now mid s es @ frame_bytes (footer_frame A closed es)"

lemma footer_frame_wf: "frame_wf A (footer_frame A now es)"
  by (auto simp: footer_frame_def Let_def size_consts simp del: record_type_as_u16.simps
      intro!: frame_of_wf)

lemma finish_closes:
  assumes "seg_repr A now mid s es w f" and "finish A io closed w f = (Inr (), f')"
  shows "file_data f' = closed_bytes A now closed mid s es \<and> file_durable f' = length (file_data f')"
proof -
  let ?p = "snd (footer_frame A closed es)" and ?k = "1 + of_nat (length es) :: u64"
  obtain d where wf: "write_frame A io RFooter 0 ?k 0 ?p (fw_block_max_bytes w) (file_data f) = (Inr (), d)"
    and f': "file_data f' = d" "file_durable f' = length d"
    using assms
    by (auto simp: finish_def seg_repr_def footer_frame_def Let_def seg_sync_def
        split: prod.splits sum.splits if_splits)
  have "length ?p < 2 ^ 32" by (simp add: footer_frame_def Let_def)
  then have "d = file_data f @ frame_bytes (footer_frame A closed es)"
    using write_frame_ok(1) [OF wf] by (simp add: footer_frame_def Let_def)
  then show ?thesis
    using f' assms(1) by (simp add: closed_bytes_def seg_repr_def)
qed

lemma read_closed:
  assumes "log_ok A s es"
  shows "read_segment_batches A (Some (closed_bytes A now closed mid s es)) ap = Inr (log_batches es)"
proof -
  let ?fs = "log_frames A s es" and ?g = "footer_frame A closed es"
  have "frame_run (read_segment_step A ap) [] [?g]
      \<lparr>ss_schema = Some s, ss_batches = log_batches es, ss_next = 1 + of_nat (length es)\<rparr> =
      Done (Inr (log_batches es, True))"
    by (simp add: read_segment_step_def footer_frame_def Let_def)
  then have "frame_loop A (read_segment_step A ap) (read_segment_stop ap)
      \<lparr>ss_schema = Some s, ss_batches = log_batches es, ss_next = 1 + of_nat (length es)\<rparr>
      (frame_bytes ?g) = Inr (log_batches es, True)"
    using frame_loop_frames [of A "[?g]" "read_segment_step A ap" "read_segment_stop ap" _ "[]"]
    by (simp add: footer_frame_wf)
  then show ?thesis
    using frame_loop_frames [OF log_frames_wf [OF assms], of "read_segment_step A ap"
        "read_segment_stop ap" _ "frame_bytes ?g"] log_run_segment [OF assms]
    by (simp add: read_segment_batches_def closed_bytes_def seg_bytes_def)
qed

lemma strict_stop: "\<exists>e. and_then (stop_bail False (x, False) r) (\<lambda>(bs, foot).
    if \<not> False \<and> \<not> foot then Inl (Storage m) else Inr bs) = Inl e"
  by (cases r) (auto simp: stop_bail_def bail_def)

text \<open>Without the footer, strict reading reports an error, wherever the segment is cut.\<close>

lemma strict_open:
  assumes "log_ok A s es" and "torn A t"
  shows "\<exists>e. read_segment_batches A (Some (seg_bytes A now mid s es @ t)) False = Inl e"
  using log_loop [OF assms log_run_segment [OF assms(1)], where stop = "read_segment_stop False"]
    strict_stop [of "log_batches es"]
  by (simp add: read_segment_batches_def seg_bytes_def read_segment_stop_def)

lemma strict_cut:
  assumes "log_ok A s es" and "n < length (closed_bytes A now closed mid s es)"
  shows "\<exists>e. read_segment_batches A (Some (take n (closed_bytes A now closed mid s es))) False = Inl e"
proof (cases "n \<le> length (seg_bytes A now mid s es)")
  case True
  then have eq: "take n (closed_bytes A now closed mid s es) = take n (seg_bytes A now mid s es)"
    by (simp add: closed_bytes_def)
  from assms(1) True show ?thesis
  proof (cases rule: seg_bytes_take)
    case short
    then show ?thesis by (simp add: eq read_segment_batches_def bail_def)
  next
    case (bare t)
    then show ?thesis
      using strict_stop [of "[]"]
      by (simp add: eq read_segment_batches_def frame_loop_torn read_segment_stop_def)
  next
    case (log t)
    then show ?thesis
      using strict_open [OF log_ok_take [OF assms(1)]] by (simp add: eq)
  qed
next
  case False
  then have "take n (closed_bytes A now closed mid s es) = seg_bytes A now mid s es @
      take (n - length (seg_bytes A now mid s es)) (frame_bytes (footer_frame A closed es))"
    by (simp add: closed_bytes_def)
  moreover have "torn A (take (n - length (seg_bytes A now mid s es))
      (frame_bytes (footer_frame A closed es)))"
    unfolding torn_def using assms(2) False
    by (intro read_frame_torn [OF footer_frame_wf, simplified not_ex, rule_format]
        allI) (auto simp: closed_bytes_def)
  ultimately show ?thesis
    using strict_open [OF assms(1)] by simp
qed

section \<open>Tailing\<close>

definition frame_event :: "('s, 'b) arrow \<Rightarrow> frame_header \<times> bytes \<Rightarrow> 'b wal_frame_event option" where
  "frame_event A f = (case fh_record_type (fst f) of
       RBatch \<Rightarrow> (case decode_batch_ipc A (snd f) of
           Inr b \<Rightarrow> Some \<lparr>ev_lsn = fh_lsn (fst f), ev_sequence = fh_sequence (fst f), ev_batch = b\<rparr>
         | Inl _ \<Rightarrow> None)
     | _ \<Rightarrow> None)"

definition plain :: "('s, 'b) arrow \<Rightarrow> frame_header \<times> bytes \<Rightarrow> bool" where
  "plain A f \<longleftrightarrow> frame_wf A f \<and> fh_record_type (fst f) \<noteq> RFooter \<and>
     (fh_record_type (fst f) = RBatch \<longrightarrow> frame_event A f \<noteq> None)"

fun log_events :: "u64 \<Rightarrow> 'b log_entry list \<Rightarrow> 'b wal_frame_event list" where
  "log_events k [] = []"
| "log_events k (LBatch l b # es) =
     \<lparr>ev_lsn = l, ev_sequence = k, ev_batch = b\<rparr> # log_events (k + 1) es"
| "log_events k (LEnd l c n # es) = log_events (k + 1) es"

lemma drain_eof:
  assumes "torn A (drop (safe_pos c) d)" and "\<not> cur_finished c"
  shows "cursor_drain A d c = ([], c)"
proof -
  have "read_one_frame A d c = (Inr StEof, c)"
    using assms(1) by (auto simp: read_one_frame_def torn_def split: frame_read.splits)
  then show ?thesis
    using assms(2) by (simp add: cursor_drain.simps [of A d c] next_batch_def next_batch_loop.simps [of A d c])
qed

lemma drain_frame:
  assumes "plain A f" and "drop (safe_pos c) d = frame_bytes f @ r" and "\<not> cur_finished c"
  obtains c' where "\<not> cur_finished c'" and "safe_pos c' = safe_pos c + length (frame_bytes f)"
    and "cursor_drain A d c = apfst ((@) (case frame_event A f of None \<Rightarrow> [] | Some ev \<Rightarrow> [ev]))
           (cursor_drain A d c')"
proof -
  have rf: "read_frame A (drop (safe_pos c) d) = FFrame (fst f) (snd f) r"
    using assms(1,2) read_frame_frame_bytes [of A f r] by (simp add: plain_def)
  have "length (drop (safe_pos c) d) = length (frame_bytes f) + length r"
    using assms(2) by simp
  moreover have "0 < length (frame_bytes f)" by (simp add: FRAME_HEADER_SIZE_def)
  ultimately have pos: "length d - length r = safe_pos c + length (frame_bytes f)"
    unfolding length_drop by linarith
  obtain st c' where one: "read_one_frame A d c = (Inr st, c')"
    and st: "st = (case frame_event A f of None \<Rightarrow> StSchema | Some ev \<Rightarrow> StBatch ev)"
    and c': "\<not> cur_finished c'" "safe_pos c' = safe_pos c + length (frame_bytes f)"
  proof (cases "fh_record_type (fst f)")
    case RBatch
    then obtain b where "decode_batch_ipc A (snd f) = Inr b"
      using assms(1) by (auto simp: plain_def frame_event_def split: sum.splits)
    then show ?thesis
      using that [of _ "c\<lparr>safe_pos := safe_pos c + length (frame_bytes f)\<rparr>"] RBatch rf pos assms(3)
      by (simp add: read_one_frame_def Let_def frame_event_def)
  next
    case RSchema
    then show ?thesis
      using that rf pos assms(3)
      by (simp add: read_one_frame_def Let_def frame_event_def split: sum.splits)
  qed (use that rf pos assms(1,3) in \<open>auto simp: read_one_frame_def Let_def frame_event_def plain_def\<close>)
  have "next_batch A d c = (case frame_event A f of None \<Rightarrow> next_batch A d c' | Some ev \<Rightarrow> (Inr (Some ev), c'))"
    using one st c'(1) assms(3)
    by (simp add: next_batch_def next_batch_loop.simps [of A d c] split: option.splits)
  then have "cursor_drain A d c = apfst ((@) (case frame_event A f of None \<Rightarrow> [] | Some ev \<Rightarrow> [ev]))
      (cursor_drain A d c')"
  proof (cases "frame_event A f")
    case None
    then have "cursor_drain A d c = cursor_drain A d c'"
      using \<open>next_batch A d c = _\<close> by (simp add: cursor_drain.simps [of A d c] cursor_drain.simps [of A d c'])
    then show ?thesis using None by (cases "cursor_drain A d c'") simp
  next
    case (Some ev)
    then show ?thesis
      using \<open>next_batch A d c = _\<close>
      by (cases "cursor_drain A d c'") (simp add: cursor_drain.simps [of A d c])
  qed
  then show ?thesis using that c' by blast
qed

lemma drain_frames:
  "list_all (plain A) gs \<Longrightarrow> torn A t \<Longrightarrow> drop (safe_pos c) d = frames_bytes gs @ t \<Longrightarrow>
   \<not> cur_finished c \<Longrightarrow>
   \<exists>c'. cursor_drain A d c = (List.map_filter (frame_event A) gs, c') \<and> \<not> cur_finished c' \<and>
        safe_pos c' = safe_pos c + length (frames_bytes gs)"
proof (induction gs arbitrary: c)
  case Nil
  then show ?case using drain_eof by (auto simp: map_filter_simps)
next
  case (Cons f gs)
  obtain c1 where c1: "\<not> cur_finished c1" "safe_pos c1 = safe_pos c + length (frame_bytes f)"
    "cursor_drain A d c = apfst ((@) (case frame_event A f of None \<Rightarrow> [] | Some ev \<Rightarrow> [ev]))
       (cursor_drain A d c1)"
    using drain_frame [of A f c d "frames_bytes gs @ t"] Cons.prems by auto
  have "drop (safe_pos c1) d = frames_bytes gs @ t"
    using Cons.prems(3) c1(2) by (metis append_assoc append_eq_conv_conj drop_drop add.commute frames_bytes_simps(2))
  then obtain c2 where "cursor_drain A d c1 = (List.map_filter (frame_event A) gs, c2)"
    "\<not> cur_finished c2" "safe_pos c2 = safe_pos c1 + length (frames_bytes gs)"
    using Cons.IH [of c1] Cons.prems c1(1) by auto
  then show ?case
    using c1 by (auto simp: map_filter_simps split: option.splits)
qed

lemma log_frames_plain: "log_ok A s es \<Longrightarrow> list_all (plain A) (log_frames A s es)"
proof -
  assume ok: "log_ok A s es"
  have "list_all (plain A) (entry_frames A k es)" for k
    using ok unfolding log_ok_def
  proof (induction es arbitrary: k)
    case (Cons e es)
    then have "entry_ok A e" "arrow_ok A" by simp_all
    then have "plain A (entry_frame A k e)"
      using entry_frame_wf [of A e k] decode_entry [of A]
      by (cases e) (auto simp: plain_def frame_event_def)
    then show ?case using Cons by simp
  qed simp
  moreover have "plain A (schema_frame A s)"
    using ok schema_frame_wf [of A s] by (simp add: plain_def log_ok_def schema_frame_def)
  ultimately show ?thesis by (simp add: log_frames_def)
qed

lemma log_frames_events:
  "log_ok A s es \<Longrightarrow> List.map_filter (frame_event A) (log_frames A s es) = log_events 1 es"
proof -
  assume ok: "log_ok A s es"
  have "List.map_filter (frame_event A) (entry_frames A k es) = log_events k es" for k
    using ok unfolding log_ok_def
  proof (induction es arbitrary: k)
    case (Cons e es)
    then have "entry_ok A e" "arrow_ok A" by simp_all
    then show ?case
      using Cons decode_entry [of A]
      by (cases e) (auto simp: frame_event_def map_filter_simps)
  qed (simp add: map_filter_simps)
  then show ?thesis
    by (simp add: log_frames_def map_filter_simps frame_event_def schema_frame_def)
qed

lemma fits_mono: "n \<le> m \<Longrightarrow> fits n fs \<le> fits m fs"
  by (meson fits_iff fits_le_length order_refl order_trans)

lemma drop_take_split:
  "p \<le> q \<Longrightarrow> q \<le> r \<Longrightarrow> drop p (take q xs) @ drop q (take r xs) = drop p (take r xs)"
  using take_add [of "q - p" "r - q" "drop p xs"] by (simp add: drop_take)

lemma map_filter_append: "List.map_filter g (xs @ ys) = List.map_filter g xs @ List.map_filter g ys"
  by (simp add: List.map_filter_def)

text \<open>One poll on a view of \<open>n\<close> bytes, from the position after the first \<open>p\<close> frames.\<close>

lemma drain_view:
  assumes "list_all (plain A) fs" and "p \<le> fits (n - length hdr) fs" and "length hdr \<le> n"
    and "safe_pos c = length hdr + length (frames_bytes (take p fs))" and "\<not> cur_finished c"
  shows "\<exists>c'. cursor_drain A (take n (hdr @ frames_bytes fs)) c =
      (List.map_filter (frame_event A) (drop p (take (fits (n - length hdr) fs) fs)), c') \<and>
      \<not> cur_finished c' \<and>
      safe_pos c' = length hdr + length (frames_bytes (take (fits (n - length hdr) fs) fs))"
proof -
  let ?q = "fits (n - length hdr) fs"
  have wf: "list_all (frame_wf A) fs"
    using assms(1) by (auto simp: list_all_iff plain_def)
  obtain t where t: "take (n - length hdr) (frames_bytes fs) = frames_bytes (take ?q fs) @ t" "torn A t"
    using take_frames_bytes [OF wf] by blast
  have split: "take ?q fs = take p fs @ drop p (take ?q fs)"
    using assms(2) by (metis append_take_drop_id min.absorb1 take_take)
  have len: "length (frames_bytes (take ?q fs)) =
      length (frames_bytes (take p fs)) + length (frames_bytes (drop p (take ?q fs)))"
    by (subst split) simp
  have "drop (safe_pos c) (take n (hdr @ frames_bytes fs)) = frames_bytes (drop p (take ?q fs)) @ t"
  proof -
    have "drop (safe_pos c) (take n (hdr @ frames_bytes fs)) =
        drop (length (frames_bytes (take p fs))) (frames_bytes (take ?q fs) @ t)"
      using assms(3,4) t(1) by simp
    also have "\<dots> = frames_bytes (drop p (take ?q fs)) @ t"
      by (subst split) simp
    finally show ?thesis .
  qed
  moreover have "list_all (plain A) (drop p (take ?q fs))"
    using assms(1) by (auto simp: list_all_iff dest!: in_set_dropD in_set_takeD)
  ultimately show ?thesis
    using drain_frames [of A "drop p (take ?q fs)" t c "take n (hdr @ frames_bytes fs)"] t(2) assms(4,5) len
    by auto
qed

lemma tail_views:
  assumes "list_all (plain A) fs"
  shows "\<lbrakk>sorted ns; ns \<noteq> []; \<forall>n \<in> set ns. length hdr \<le> n; p \<le> fits (hd ns - length hdr) fs;
    safe_pos c = length hdr + length (frames_bytes (take p fs)); \<not> cur_finished c\<rbrakk> \<Longrightarrow>
    cursor_tail A (map (\<lambda>n. take n (hdr @ frames_bytes fs)) ns) c =
      List.map_filter (frame_event A) (drop p (take (fits (last ns - length hdr) fs) fs))"
proof (induction ns arbitrary: p c)
  case (Cons n ns)
  let ?q = "fits (n - length hdr) fs"
  obtain c' where c': "cursor_drain A (take n (hdr @ frames_bytes fs)) c =
      (List.map_filter (frame_event A) (drop p (take ?q fs)), c')" "\<not> cur_finished c'"
      "safe_pos c' = length hdr + length (frames_bytes (take ?q fs))"
    using drain_view [OF assms, of p n hdr c] Cons.prems by auto
  show ?case
  proof (cases "ns = []")
    case True
    then show ?thesis using c'(1) by simp
  next
    case False
    let ?r = "fits (last ns - length hdr) fs"
    have hd: "n \<le> hd ns" and la: "n \<le> last ns"
      using Cons.prems(1) False by auto
    have pq: "p \<le> ?q" and qr: "?q \<le> ?r"
      using Cons.prems(4) la by (auto intro: fits_mono diff_le_mono)
    have "cursor_tail A (map (\<lambda>n. take n (hdr @ frames_bytes fs)) ns) c' =
        List.map_filter (frame_event A) (drop ?q (take ?r fs))"
      using Cons.prems(1,3)
      by (intro Cons.IH [OF _ False _ fits_mono [OF diff_le_mono [OF hd]] c'(3,2)]) auto
    moreover have "drop p (take ?q fs) @ drop ?q (take ?r fs) = drop p (take ?r fs)"
      using pq qr by (rule drop_take_split)
    ultimately show ?thesis
      using c'(1) False by (simp flip: map_filter_append)
  qed
qed simp

section \<open>Reopening\<close>

lemma clamp_block_max_bounds:
  "FRAME_HEADER_SIZE \<le> clamp_block_max m" "clamp_block_max m \<le> DEFAULT_WAL_BLOCK_MAX_BYTES"
  using clamp_bounds [of FRAME_HEADER_SIZE DEFAULT_WAL_BLOCK_MAX_BYTES m]
  by (auto simp: clamp_block_max_def size_consts)

lemma resume_repr:
  assumes "seg_repr A now mid s es w f" and "open_ok io"
  shows "\<exists>w'. resume_with_block_max A io (Some f) mid' bm = Inr w' \<and> seg_repr A now mid s es w' f \<and>
     fw_memtable_id w' = mid'"
  using assms scan_segment_tail_log [of A s es "[]" now mid] clamp_block_max_bounds
  by (auto simp: resume_with_block_max_def seg_repr_def tail_of_def)

lemma resume_any_repr:
  assumes "seg_repr A now mid s es w f" and "open_ok io"
  shows "\<exists>w'. resume_any A io (Some f) = Inr w' \<and> seg_repr A now mid s es w' f \<and> fw_memtable_id w' = mid"
proof -
  have "segment_header_decode (file_data f) = Inr (new_v1 now mid, frames_bytes (log_frames A s es))"
    using assms(1) by (simp add: seg_repr_def seg_bytes_def)
  then show ?thesis
    using resume_repr [OF assms] by (simp add: resume_any_def)
qed

text \<open>
  The first bytes of a frame followed by another frame do not read as a frame: the second magic
  number is out of place.
\<close>

lemma frame_bytes_magic:
  "\<exists>r. frame_bytes f = [0x31, 0x4C, 0x57, 0x46] @ r"
  by (simp add: frame_bytes_def frame_header_encode_def put_u32_le_def FRAME_MAGIC_def
      nat_to_le_numeral)

lemma torn_frame:
  assumes "0 < k" and "k < 4"
  shows "torn A (take k (frame_bytes f) @ frame_bytes g @ r)"
proof -
  obtain f' where f': "frame_bytes f = [0x31, 0x4C, 0x57, 0x46] @ f'"
    using frame_bytes_magic by blast
  obtain g' where g': "frame_bytes g = [0x31, 0x4C, 0x57, 0x46] @ g'"
    using frame_bytes_magic by blast
  have k: "k = 1 \<or> k = 2 \<or> k = 3" using assms by auto
  have "read_frame A (take k (frame_bytes f) @ frame_bytes g @ r) =
      FBadHeader (Storage ''invalid WAL frame magic'')"
    using k unfolding f' g'
    by (elim disjE) (simp_all add: read_frame_def frame_header_decode_def read_exact_def
        get_u32_le_def FRAME_MAGIC_def)
  then show ?thesis by (simp add: torn_def)
qed

text \<open>When no append failed, the writer and its file represent the acknowledged log.\<close>

lemma seg_run_repr:
  "seg_repr A now mid s es w f \<Longrightarrow> list_all (op_small A) ops \<Longrightarrow>
   length es + length ops < 2 ^ 64 - 1 \<Longrightarrow> seg_run A ops w f = (acked, w', f') \<Longrightarrow>
   length acked = length ops \<Longrightarrow> seg_repr A now mid s (es @ map fst acked) w' f'"
proof (induction ops arbitrary: es w f acked)
  case (Cons x ops)
  obtain b w1 f1 where x: "seg_exec A x w f = (b, w1, f1)" by (metis surj_pair)
  have b using Cons.prems(4,5) x by (cases b) auto
  then obtain acked' where acked: "acked = (op_entry x, op_sync x) # acked'"
    and run: "seg_run A ops w1 f1 = (acked', w', f')"
    using Cons.prems(4) x by (cases "seg_run A ops w1 f1") auto
  have "seg_repr A now mid s (es @ [op_entry x]) w1 f1"
    using seg_exec_ok [OF Cons.prems(1)] x \<open>b\<close> Cons.prems(2,3) by simp
  then show ?case
    using Cons.IH [of "es @ [op_entry x]", OF _ _ _ run] Cons.prems(2,3,5) acked by simp
qed simp

lemma created_run_repr:
  assumes "arrow_ok A" and "create_with_block_max A io now None mid s bm = (Inr w0, Some f0)"
    and "case ipc_write_schema A s of None \<Rightarrow> True | Some p \<Rightarrow> length p < 2 ^ 32"
    and "list_all (op_small A) ops" and "length ops < 2 ^ 64 - 1"
    and "seg_run A ops w0 f0 = (acked, w, f)" and "length acked = length ops"
  shows "seg_repr A now mid s (map fst acked) w f"
  using create_ok [OF assms(2,1,3)] seg_run_repr [OF _ assms(4) _ assms(6,7), of now mid s "[]"] assms(5)
  by simp

section \<open>Properties\<close>

text \<open>An instance of the other packages for concrete runs: payloads are stored as they are.\<close>

definition raw_arrow :: "(bytes, bytes) arrow" where
  "raw_arrow = \<lparr>ipc_write_schema = Some, ipc_write_batch = Some, ipc_read_schema = Some,
     ipc_read_batch = (\<lambda>p. Some (Some p)), array_memory_size = length,
     batch_schema = (\<lambda>_. []), crc32_hash = (\<lambda>p. of_nat (length p))\<rparr>"

definition demo_writer :: segment_writer where
  "demo_writer = \<lparr>fw_memtable_id = 7, fw_batches_written = 0, fw_frames_written = 1,
     fw_bytes_written = 0, fw_next_batch_sequence = 1, fw_block_max_bytes = 1000\<rparr>"

definition demo_file :: seg_file where
  "demo_file = \<lparr>file_data = seg_bytes raw_arrow 0 7 [] [], file_durable = 0\<rparr>"

lemma raw_arrow_sel [simp]:
  "ipc_write_schema raw_arrow = Some" "ipc_write_batch raw_arrow = Some"
  "ipc_read_schema raw_arrow = Some" "ipc_read_batch raw_arrow p = Some (Some p)"
  "array_memory_size raw_arrow = length" "batch_schema raw_arrow b = []"
  by (simp_all add: raw_arrow_def)

lemma raw_arrow_ok [simp]: "arrow_ok raw_arrow"
  by (simp add: arrow_ok_def)

lemma raw_log_ok [simp]:
  "log_ok raw_arrow [] []"
  "log_ok raw_arrow [] [LBatch 5 [1], LEnd 5 7 8, LBatch 6 [2]]"
  by (simp_all add: log_ok_def schema_ok_def size_consts)

lemma raw_repr [simp]: "seg_repr raw_arrow 0 7 [] [] demo_writer demo_file"
  by (simp add: seg_repr_def demo_file_def demo_writer_def size_consts)

lemmas demo_defs = demo_writer_def demo_file_def io_good_def size_consts Let_def
  append_batch_def append_memtable_end_def encode_batch_ipc_def write_frame_def seg_sync_def

lemma demo_create:
  "create_with_block_max raw_arrow io_good 0 None 7 [] 1000 = (Inr demo_writer, Some demo_file)"
  by (simp add: create_with_block_max_def fails_before_def clamp_block_max_def clamp_def
      encode_schema_ipc_def seg_bytes_def log_frames_def schema_frame_def frame_bytes_def demo_defs)

text \<open>
  C3. A crash loses no synced write and invents none. A segment is created and appends (batches and
  memtable-end markers, some synced, with arbitrary I/O outcomes) run until the first one fails.
  After a crash that keeps any prefix of the file not shorter than its durable part, replaying the
  segment succeeds and returns a prefix of the batches in append order: it contains every
  acknowledged batch up to the last synced acknowledgement, and nothing beyond the acknowledged
  appends and the one that failed.
\<close>
theorem segment_crash_recovery:
  assumes "arrow_ok A"
    and "create_with_block_max A io now None mid s bm = (Inr w0, Some f0)"
    and "case ipc_write_schema A s of None \<Rightarrow> True | Some p \<Rightarrow> length p < 2 ^ 32"
    and "list_all (op_small A) ops" and "length ops < 2 ^ 64 - 1"
    and "seg_run A ops w0 f0 = (acked, w, f)"
    and "file_durable f \<le> n" and "n \<le> length (file_data f)"
  shows "\<exists>bs. read_segment_batches A (Some (take n (file_data f))) True = Inr bs \<and>
     prefix (log_batches (take (synced_count acked) (map fst acked))) bs \<and>
     prefix bs (log_batches (map op_entry (take (Suc (length acked)) ops)))"
proof -
  have "holds A now mid s [] ops acked f0 f"
    using create_ok [OF assms(2,1,3)] assms(5)
    by (intro seg_run_holds [OF _ assms(4) _ assms(6)]) auto
  then show ?thesis using assms(7,8) by (rule holds_replay)
qed

text \<open>Two batches and a marker; the write of the third batch stops after ten bytes.\<close>

definition demo_ops :: "bytes seg_op list" where
  "demo_ops = [SBatch io_good [1] 5 True, SBatch (io_good\<lparr>write_fail := Some 10\<rparr>) [2] 6 False]"

theorem segment_crash_recovery_witness:
  "\<exists>bs. read_segment_batches raw_arrow
       (Some (take 115 (file_data (snd (snd (seg_run raw_arrow demo_ops demo_writer demo_file))))))
       True = Inr bs \<and> prefix [[1]] bs \<and> prefix bs [[1], [2]]"
proof -
  obtain acked w f where r: "seg_run raw_arrow demo_ops demo_writer demo_file = (acked, w, f)"
    by (metis surj_pair)
  then have "acked = [(LBatch 5 [1], True)]" "file_durable f = 113" "length (file_data f) = 123"
    by (auto simp: demo_ops_def demo_defs seg_bytes_def log_frames_def schema_frame_def)
  moreover have "list_all (op_small raw_arrow) demo_ops" "length demo_ops = 2"
    "log_batches (map op_entry (take (Suc (Suc 0)) demo_ops)) = [[1], [2]]"
    by (simp_all add: demo_ops_def)
  ultimately show ?thesis
    using segment_crash_recovery [OF raw_arrow_ok demo_create _ _ _ r, of 115] r
    by simp
qed

text \<open>
  C4. Reopening a segment recovers exactly the writer's state: after any series of successful
  appends, scanning the file yields the batch, frame, byte and sequence counters the writer had,
  and the header's memtable id.
\<close>
theorem segment_resume_state:
  assumes "arrow_ok A" and "create_with_block_max A io now None mid s bm = (Inr w0, Some f0)"
    and "case ipc_write_schema A s of None \<Rightarrow> True | Some p \<Rightarrow> length p < 2 ^ 32"
    and "list_all (op_small A) ops" and "length ops < 2 ^ 64 - 1"
    and "seg_run A ops w0 f0 = (acked, w, f)" and "length acked = length ops"
    and "open_ok io'"
  shows "\<exists>w'. resume_any A io' (Some f) = Inr w' \<and> fw_memtable_id w' = mid \<and>
     fw_batches_written w' = fw_batches_written w \<and> fw_frames_written w' = fw_frames_written w \<and>
     fw_bytes_written w' = fw_bytes_written w \<and>
     fw_next_batch_sequence w' = fw_next_batch_sequence w"
proof -
  have repr: "seg_repr A now mid s (map fst acked) w f"
    using assms by (intro created_run_repr)
  then show ?thesis
    using resume_any_repr [OF repr assms(8)] by (auto simp: seg_repr_def)
qed

definition demo_ops_ok :: "bytes seg_op list" where
  "demo_ops_ok = [SBatch io_good [1] 5 True, SEnd io_good 5 7 8]"

lemma demo_run_ok:
  obtains w f where "seg_run raw_arrow demo_ops_ok demo_writer demo_file =
      ([(LBatch 5 [1], True), (LEnd 5 7 8, True)], w, f)"
    "fw_next_batch_sequence w = 3" "fw_block_max_bytes w = 1000" "fw_batches_written w = 1"
  by (auto simp: demo_ops_ok_def demo_defs)

lemma demo_ops_ok_small: "list_all (op_small raw_arrow) demo_ops_ok" "length demo_ops_ok = 2"
  by (simp_all add: demo_ops_ok_def)

theorem segment_resume_state_witness:
  "\<exists>w'. resume_any raw_arrow io_good
       (Some (snd (snd (seg_run raw_arrow demo_ops_ok demo_writer demo_file)))) = Inr w' \<and>
     fw_memtable_id w' = 7 \<and> fw_batches_written w' = 1 \<and> fw_next_batch_sequence w' = 3"
proof -
  obtain w f where r: "seg_run raw_arrow demo_ops_ok demo_writer demo_file =
      ([(LBatch 5 [1], True), (LEnd 5 7 8, True)], w, f)"
    "fw_next_batch_sequence w = 3" "fw_batches_written w = 1"
    using demo_run_ok by metis
  show ?thesis
    using segment_resume_state [OF raw_arrow_ok demo_create _ _ _ r(1), of io_good] r demo_ops_ok_small
    by (auto simp: io_good_def)
qed

text \<open>
  C5. Closing a segment makes truncation detectable: strict reading of a finished segment returns
  all its batches, and strict reading of any proper prefix of it reports an error.
\<close>
theorem segment_strict_read:
  assumes "arrow_ok A" and "create_with_block_max A io now None mid s bm = (Inr w0, Some f0)"
    and "case ipc_write_schema A s of None \<Rightarrow> True | Some p \<Rightarrow> length p < 2 ^ 32"
    and "list_all (op_small A) ops" and "length ops < 2 ^ 64 - 1"
    and "seg_run A ops w0 f0 = (acked, w, f)" and "length acked = length ops"
    and "finish A io' closed w f = (Inr (), f')"
  shows "read_segment_batches A (Some (file_data f')) False = Inr (log_batches (map fst acked)) \<and>
     (\<forall>n < length (file_data f').
        \<exists>e. read_segment_batches A (Some (take n (file_data f'))) False = Inl e)"
proof -
  have repr: "seg_repr A now mid s (map fst acked) w f"
    using assms by (intro created_run_repr)
  then have ok: "log_ok A s (map fst acked)" by (simp add: seg_repr_def)
  have f': "file_data f' = closed_bytes A now closed mid s (map fst acked)"
    using finish_closes [OF repr assms(8)] by simp
  show ?thesis
    using read_closed [OF ok] strict_cut [OF ok] by (auto simp: f')
qed

theorem segment_strict_read_witness:
  "\<exists>f' :: seg_file. read_segment_batches raw_arrow (Some (file_data f')) False = Inr [[1]] \<and>
     (\<exists>e. read_segment_batches raw_arrow (Some (take 120 (file_data f'))) False = Inl e)"
proof -
  obtain w f where r: "seg_run raw_arrow demo_ops_ok demo_writer demo_file =
      ([(LBatch 5 [1], True), (LEnd 5 7 8, True)], w, f)" "fw_block_max_bytes w = 1000"
    using demo_run_ok by metis
  then have len: "length (file_data f) = 165"
    by (auto simp: demo_ops_ok_def demo_defs seg_bytes_def log_frames_def schema_frame_def)
  obtain f' where f': "finish raw_arrow io_good 0 w f = (Inr (), f')" "length (file_data f') = 225"
    using r(2) len by (auto simp: finish_def demo_defs)
  note t = segment_strict_read [OF raw_arrow_ok demo_create _ _ _ r(1) _ f'(1)]
  have "read_segment_batches raw_arrow (Some (file_data f')) False = Inr [[1]]"
    using t demo_ops_ok_small by simp
  moreover have "\<exists>e. read_segment_batches raw_arrow (Some (take 120 (file_data f'))) False = Inl e"
    using t demo_ops_ok_small f'(2) by simp
  ultimately show ?thesis by blast
qed

text \<open>
  C6. Tailing delivers every batch exactly once. A consumer polls a growing segment through any
  increasing series of views, each cut off at an arbitrary byte; the events it receives over all
  polls are, in order, precisely the batches whose frames lie completely in the last view.
\<close>
theorem cursor_exactly_once:
  assumes "log_ok A s es" and "sorted ns" and "ns \<noteq> []"
    and "\<forall>n \<in> set ns. SEGMENT_HEADER_SIZE \<le> n"
    and "cursor_open (Some (take (hd ns) (seg_bytes A now mid s es))) lid = Inr (Some c)"
  shows "cursor_tail A (map (\<lambda>n. take n (seg_bytes A now mid s es)) ns) c =
    log_events 1 (take (survived A s es (last ns)) es)"
proof -
  let ?hdr = "segment_header_encode (new_v1 now mid)" and ?fs = "log_frames A s es"
  let ?m = "fits (last ns - SEGMENT_HEADER_SIZE) ?fs"
  have "SEGMENT_HEADER_SIZE \<le> hd ns" using assms(3,4) by simp
  then have c: "safe_pos c = SEGMENT_HEADER_SIZE" "\<not> cur_finished c"
    using assms(5) by (auto simp: cursor_open_def seg_bytes_def)
  have "cursor_tail A (map (\<lambda>n. take n (seg_bytes A now mid s es)) ns) c =
      List.map_filter (frame_event A) (take ?m ?fs)"
    using tail_views [OF log_frames_plain [OF assms(1)] assms(2,3), of ?hdr 0 c] assms(4) c
    by (simp add: seg_bytes_def)
  also have "\<dots> = log_events 1 (take (survived A s es (last ns)) es)"
    using log_frames_events [OF log_ok_take [OF assms(1)]]
    by (cases ?m) (simp_all add: survived_def take_log_frames map_filter_simps)
  finally show ?thesis .
qed

theorem cursor_exactly_once_witness:
  "cursor_tail raw_arrow
     (map (\<lambda>n. take n (seg_bytes raw_arrow 0 7 [] [LBatch 5 [1], LEnd 5 7 8, LBatch 6 [2]])) [50, 120, 202])
     \<lparr>cur_memtable_id = 7, cur_schema = None, safe_pos = 40, cur_finished = False\<rparr> =
   [\<lparr>ev_lsn = 5, ev_sequence = 1, ev_batch = [1]\<rparr>, \<lparr>ev_lsn = 6, ev_sequence = 3, ev_batch = [2]\<rparr>]"
proof -
  let ?es = "[LBatch 5 [1], LEnd 5 7 8, LBatch 6 [2]] :: bytes log_entry list"
  have o: "cursor_open (Some (take 50 (seg_bytes raw_arrow 0 7 [] ?es))) 7 =
      Inr (Some \<lparr>cur_memtable_id = 7, cur_schema = None, safe_pos = 40, cur_finished = False\<rparr>)"
    by (simp add: cursor_open_def seg_bytes_def log_frames_def schema_frame_def SEGMENT_HEADER_SIZE_def
        FRAME_HEADER_SIZE_def)
  have "survived raw_arrow [] ?es 202 = 3"
    by (simp add: survived_def log_frames_def schema_frame_def size_consts)
  then show ?thesis
    using cursor_exactly_once [of raw_arrow "[]" ?es "[50, 120, 202]" 0 7 7] o
    by (simp add: SEGMENT_HEADER_SIZE_def)
qed

text \<open>
  C7. Reading a segment from a sequence number on returns exactly the surviving batches with that
  or a later sequence number, with their LSNs, wherever the segment is cut off.
\<close>
theorem read_from_sequence_exact:
  assumes "log_ok A s es" and "n \<le> length (seg_bytes A now mid s es)"
  shows "read_wal_batches_from_sequence A (Some (take n (seg_bytes A now mid s es))) mid lo True =
    Inr (filter (\<lambda>b. lo \<le> wfb_sequence b) (log_framed 1 (take (survived A s es n) es)))"
  using assms
proof (cases rule: seg_bytes_take)
  case short
  then show ?thesis by (simp add: read_wal_batches_from_sequence_def bail_def)
next
  case (bare t)
  then show ?thesis
    by (simp add: read_wal_batches_from_sequence_def frame_loop_torn read_from_stop_def)
next
  case (log t)
  then show ?thesis
    using read_from_log [OF log_ok_take [OF assms(1)]] by simp
qed

theorem read_from_sequence_exact_witness:
  "read_wal_batches_from_sequence raw_arrow
     (Some (take 202 (seg_bytes raw_arrow 0 7 [] [LBatch 5 [1], LEnd 5 7 8, LBatch 6 [2]]))) 7 2 True =
   Inr [\<lparr>wfb_sequence = 3, wfb_lsn = 6, wfb_batch = [2]\<rparr>]"
proof -
  let ?es = "[LBatch 5 [1], LEnd 5 7 8, LBatch 6 [2]] :: bytes log_entry list"
  have "survived raw_arrow [] ?es 202 = 3" "202 \<le> length (seg_bytes raw_arrow 0 7 [] ?es)"
    by (simp_all add: survived_def seg_bytes_def log_frames_def schema_frame_def size_consts)
  then show ?thesis
    using read_from_sequence_exact [of raw_arrow "[]" ?es 202 0 7 2] by (simp add: word_le_nat_alt)
qed

text \<open>
  C10. Reopening does not repair a torn tail. When a crash left the first one to three bytes of a
  frame at the end of a segment, reopening it succeeds and a further batch can be appended, synced
  and acknowledged; replay then returns only the batches before the torn bytes.
\<close>
theorem resume_torn_tail_loses_synced:
  assumes "log_ok A s es" and "0 < k" and "k < 4"
    and "file_data f = seg_bytes A now mid s es @ take k (frame_bytes g)"
    and "ipc_write_batch A b = Some p" and "length p < 2 ^ 32"
    and "resume_any A io (Some f) = Inr w"
    and "append_batch A io' b l True w f = (Inr q, w', f')"
  shows "file_durable f' = length (file_data f') \<and>
    read_segment_batches A (Some (file_data f')) True = Inr (log_batches es)"
proof -
  obtain q where wf: "write_frame A io' RBatch PAYLOAD_FORMAT_ARROW_IPC q l p
      (fw_block_max_bytes w) (file_data f) = (Inr (), file_data f')"
    and dur: "file_durable f' = length (file_data f')"
    using assms(5,8)
    by (auto simp: append_batch_def encode_batch_ipc_def Let_def seg_sync_def
        split: prod.splits sum.splits if_splits)
  have "file_data f' = seg_bytes A now mid s es @ take k (frame_bytes g) @
      frame_bytes (frame_of A RBatch PAYLOAD_FORMAT_ARROW_IPC q l p, p) @ []"
    using write_frame_ok(1) [OF wf assms(6)] assms(4) by simp
  then show ?thesis
    using dur read_segment_batches_log [OF assms(1) torn_frame [OF assms(2,3)]] by metis
qed

definition demo_torn_file :: seg_file where
  "demo_torn_file = \<lparr>file_data = seg_bytes raw_arrow 0 7 [] [LBatch 5 [1]] @
     take 2 (frame_bytes (entry_frame raw_arrow 2 (LBatch 6 [2]))), file_durable = 113\<rparr>"

definition demo_resumed :: segment_writer where
  "demo_resumed = \<lparr>fw_memtable_id = 7, fw_batches_written = 1, fw_frames_written = 2,
     fw_bytes_written = 1, fw_next_batch_sequence = 2, fw_block_max_bytes = 5242880\<rparr>"

lemma demo_log_ok [simp]: "log_ok raw_arrow [] [LBatch 5 [1]]"
  by (simp add: log_ok_def schema_ok_def size_consts)

lemma demo_torn_resume: "resume_any raw_arrow io_good (Some demo_torn_file) = Inr demo_resumed"
proof -
  have "torn raw_arrow (take 2 (frame_bytes (entry_frame raw_arrow 2 (LBatch 6 [2]))))"
    unfolding torn_def
    by (intro allI read_frame_torn [OF entry_frame_wf, simplified not_ex, rule_format])
      (simp_all add: size_consts)
  then have "scan_segment_tail raw_arrow (Some (file_data demo_torn_file)) = Inr (tail_of raw_arrow [LBatch 5 [1]])"
    unfolding demo_torn_file_def by (simp add: scan_segment_tail_log)
  moreover have "segment_header_decode (file_data demo_torn_file) = Inr (new_v1 0 7, drop 40 (file_data demo_torn_file))"
    by (simp add: demo_torn_file_def seg_bytes_def SEGMENT_HEADER_SIZE_def)
  ultimately show ?thesis
    by (simp add: resume_any_def resume_with_block_max_def tail_of_def demo_resumed_def io_good_def
        clamp_block_max_def clamp_def size_consts)
qed

theorem resume_torn_tail_loses_synced_witness:
  "\<exists>w f' w'. resume_any raw_arrow io_good (Some demo_torn_file) = Inr w \<and>
     append_batch raw_arrow io_good [2] 6 True w demo_torn_file = (Inr 2, w', f') \<and>
     file_durable f' = length (file_data f') \<and>
     read_segment_batches raw_arrow (Some (file_data f')) True = Inr [[1]]"
proof -
  obtain w' f' where a: "append_batch raw_arrow io_good [2] 6 True demo_resumed demo_torn_file = (Inr 2, w', f')"
    by (simp add: demo_resumed_def demo_defs)
  have "file_durable f' = length (file_data f') \<and>
     read_segment_batches raw_arrow (Some (file_data f')) True = Inr [[1]]"
    using resume_torn_tail_loses_synced [OF demo_log_ok _ _ _ _ _ demo_torn_resume a, of 2 0 7
        "entry_frame raw_arrow 2 (LBatch 6 [2])" "[2]"]
    by (simp add: demo_torn_file_def)
  then show ?thesis using a demo_torn_resume by blast
qed

text \<open>
  C11. The length check of a frame sees the payload length modulo four GiB, because the length is
  converted to 32 bits before it is checked. A frame is accepted exactly when the header and this remainder
  fit the block cap, and its length field covers the remainder only. So a payload of a multiple of four GiB
  plus a remainder within the cap is written although it exceeds the cap; every other payload above the
  cap is refused and nothing is written.
\<close>
theorem write_frame_length_truncated:
  assumes "m \<le> DEFAULT_WAL_BLOCK_MAX_BYTES"
  shows "if FRAME_HEADER_SIZE + length p mod 2 ^ 32 \<le> m
    then write_frame A io_good rt fmt q l p m out = (Inr (), out @ frame_bytes (frame_of A rt fmt q l p, p)) \<and>
      unat (fh_block_len (frame_of A rt fmt q l p)) = FRAME_HEADER_SIZE + length p mod 2 ^ 32 \<and>
      (2 ^ 32 \<le> length p \<longrightarrow> m < FRAME_HEADER_SIZE + length p)
    else \<exists>e. write_frame A io_good rt fmt q l p m out = (Inl e, out)"
proof -
  let ?k = "length p mod 2 ^ 32"
  have u: "unat (of_nat (length p) :: u32) = ?k" by (simp add: unat_of_nat)
  show ?thesis
  proof (cases "FRAME_HEADER_SIZE + ?k \<le> m")
    case True
    then have k: "FRAME_HEADER_SIZE + ?k < 2 ^ 32" using assms by (simp add: size_consts)
    have "(of_nat (length p) :: u32) = of_nat ?k" by (simp add: word_unat_eq_iff unat_of_nat)
    then have "fh_block_len (frame_of A rt fmt q l p) = of_nat (FRAME_HEADER_SIZE + ?k)"
      unfolding frame_of_def by simp
    then have "unat (fh_block_len (frame_of A rt fmt q l p)) = FRAME_HEADER_SIZE + ?k"
      using k by (simp add: unat_of_nat del: of_nat_add)
    moreover have "2 ^ 32 \<le> length p \<longrightarrow> m < FRAME_HEADER_SIZE + length p" using assms by (simp add: size_consts)
    moreover have "write_frame A io_good rt fmt q l p m out = (Inr (), out @ frame_bytes (frame_of A rt fmt q l p, p))"
      unfolding write_frame_def Let_def u using True k by (simp add: io_good_def frame_bytes_def)
    ultimately show ?thesis using True by simp
  next
    case False
    then show ?thesis unfolding write_frame_def Let_def u by simp
  qed
qed

theorem write_frame_length_truncated_witness:
  "write_frame raw_arrow io_good RBatch 1 1 9 (replicate (2 ^ 32) 0) 1000 [] =
      (Inr (), frame_bytes (frame_of raw_arrow RBatch 1 1 9 (replicate (2 ^ 32) 0), replicate (2 ^ 32) 0)) \<and>
   unat (fh_block_len (frame_of raw_arrow RBatch 1 1 9 (replicate (2 ^ 32) 0))) = 36"
  using write_frame_length_truncated [of 1000 "replicate (2 ^ 32) 0" raw_arrow RBatch 1 1 9 "[]"]
  by (simp add: size_consts)

end
