(* ===== verification/Budget.thy ===== *)
theory Budget
  imports Prelude
begin

text \<open>
  Memory and backlog accounting.
  \<^item> \<^verbatim>\<open>src/src/storage/src/memory.rs\<close>: the global memory controller. The reclaim handler is a
    parameter (it is installed by the engine), and so is the thread's \<^verbatim>\<open>IN_RECLAIM\<close> flag.
  \<^item> \<^verbatim>\<open>src/src/storage/src/wal/backlog.rs\<close>: the WAL backlog, a global and a per-table semaphore. The
    blocking \<^verbatim>\<open>reserve\<close> is a step relation over waiting writers.

  The locale \<open>budget\<close> is the contract both share, over a relation \<open>account\<close> between the outstanding
  reservations and the state: a granted reservation is accounted for, a refused one changes nothing,
  and giving back an outstanding one removes it. Its consequence (\<open>ledger_exact\<close>): the accounting
  stays exact over any series of calls.
\<close>

section \<open>Memory controller\<close>

record memory_controller =
  limit_bytes :: nat
  soft_threshold_bytes :: nat
  used_bytes :: nat

text \<open>The handler sees the table being written and the controller; it reports whether it freed
  memory. \<open>None\<close> is a handler that was never installed.\<close>

type_synonym reclaim_handler = "string option \<Rightarrow> memory_controller \<Rightarrow> bool \<times> memory_controller"

definition MAX_HARD_RECLAIM_ATTEMPTS :: nat where
  "MAX_HARD_RECLAIM_ATTEMPTS = 3"

definition reserve_unchecked :: "nat \<Rightarrow> memory_controller \<Rightarrow> memory_controller" where
  "reserve_unchecked bytes m =
     (if bytes = 0 then m else m\<lparr>used_bytes := usize_wrap (used_bytes m + bytes)\<rparr>)"

definition try_reserve :: "nat \<Rightarrow> memory_controller \<Rightarrow> bool \<times> memory_controller" where
  "try_reserve bytes m =
     (if bytes = 0 then (True, m)
      else if usize_add_sat (used_bytes m) bytes > limit_bytes m then (False, m)
      else (True, m\<lparr>used_bytes := usize_wrap (used_bytes m + bytes)\<rparr>))"

definition mem_release :: "nat \<Rightarrow> memory_controller \<Rightarrow> memory_controller" where
  "mem_release bytes m = (if bytes = 0 then m else m\<lparr>used_bytes := used_bytes m - bytes\<rparr>)"

definition at_or_over_soft_threshold :: "memory_controller \<Rightarrow> bool" where
  "at_or_over_soft_threshold m \<longleftrightarrow>
     soft_threshold_bytes m > 0 \<and> used_bytes m \<ge> soft_threshold_bytes m"

definition at_or_over_limit :: "memory_controller \<Rightarrow> bool" where
  "at_or_over_limit m \<longleftrightarrow> used_bytes m \<ge> limit_bytes m"

definition ensure_write_allowed :: "memory_controller \<Rightarrow> unit res" where
  "ensure_write_allowed m =
     (if at_or_over_limit m then Inl (MemoryLimitExceeded (used_bytes m) (limit_bytes m)) else Inr ())"

definition invoke_reclaim ::
  "reclaim_handler option \<Rightarrow> bool \<Rightarrow> string option \<Rightarrow> memory_controller \<Rightarrow> bool \<times> memory_controller" where
  "invoke_reclaim handler in_reclaim table m =
     (case handler of None \<Rightarrow> (False, m)
      | Some h \<Rightarrow> if in_reclaim then (False, m) else h table m)"

definition maybe_reclaim_at_soft_threshold ::
  "reclaim_handler option \<Rightarrow> bool \<Rightarrow> string option \<Rightarrow> memory_controller \<Rightarrow> memory_controller" where
  "maybe_reclaim_at_soft_threshold handler in_reclaim table m =
     (if at_or_over_soft_threshold m then snd (invoke_reclaim handler in_reclaim table m) else m)"

definition maybe_reclaim_under_pressure ::
  "reclaim_handler option \<Rightarrow> bool \<Rightarrow> string option \<Rightarrow> memory_controller \<Rightarrow> memory_controller" where
  "maybe_reclaim_under_pressure handler in_reclaim table m =
     (if at_or_over_soft_threshold m \<or> at_or_over_limit m
      then snd (invoke_reclaim handler in_reclaim table m) else m)"

text \<open>The attempts of the hard-limit loop.\<close>

fun hard_reclaim ::
  "nat \<Rightarrow> reclaim_handler option \<Rightarrow> bool \<Rightarrow> nat \<Rightarrow> string option \<Rightarrow> memory_controller
     \<Rightarrow> bool \<times> memory_controller" where
  "hard_reclaim 0 handler in_reclaim bytes table m = (False, m)"
| "hard_reclaim (Suc n) handler in_reclaim bytes table m =
     (let used_before = used_bytes m;
          (freed, m1) = invoke_reclaim handler in_reclaim table m
      in if \<not> freed then (False, m1)
         else case try_reserve bytes m1 of
             (True, m2) \<Rightarrow> (True, m2)
           | (False, m2) \<Rightarrow>
               if used_bytes m2 \<ge> used_before then (False, m2)
               else hard_reclaim n handler in_reclaim bytes table m2)"

definition try_reserve_with_reclaim ::
  "reclaim_handler option \<Rightarrow> bool \<Rightarrow> nat \<Rightarrow> string option \<Rightarrow> memory_controller
     \<Rightarrow> bool \<times> memory_controller" where
  "try_reserve_with_reclaim handler in_reclaim bytes table m =
     (if at_or_over_limit m then (False, m)
      else
        let m1 = (if soft_threshold_bytes m > 0 \<and> at_or_over_soft_threshold m
                  then snd (invoke_reclaim handler in_reclaim table m) else m)
        in case try_reserve bytes m1 of
             (True, m2) \<Rightarrow> (True, m2)
           | (False, m2) \<Rightarrow>
               if at_or_over_limit m2 \<or> in_reclaim then (False, m2)
               else hard_reclaim MAX_HARD_RECLAIM_ATTEMPTS handler in_reclaim bytes table m2)"

section \<open>WAL backlog\<close>

text \<open>A semaphore is the number of its available permits.\<close>

record table_backlog =
  tb_sem :: nat
  tb_limit :: nat

record wal_backlog_budget =
  wb_global :: nat
  wb_global_limit :: nat
  wb_table_limit :: nat

definition MAX_PERMITS :: nat where
  "MAX_PERMITS = 2 ^ 61 - 1"

definition permits :: "nat \<Rightarrow> nat \<Rightarrow> nat" where
  "permits limit bytes = min (min bytes limit) (2 ^ 32 - 1)"

definition table_backlog_new :: "nat \<Rightarrow> table_backlog" where
  "table_backlog_new limit =
     (let l = min (max limit 1) MAX_PERMITS in \<lparr>tb_sem = l, tb_limit = l\<rparr>)"

definition tb_used_bytes :: "table_backlog \<Rightarrow> nat" where
  "tb_used_bytes t = tb_limit t - tb_sem t"

definition wal_backlog_new :: "nat \<Rightarrow> nat \<Rightarrow> wal_backlog_budget" where
  "wal_backlog_new global_limit table_limit =
     (let g = min (max global_limit 1) MAX_PERMITS
      in \<lparr>wb_global = g, wb_global_limit = g, wb_table_limit = max table_limit 1\<rparr>)"

definition global_used :: "wal_backlog_budget \<Rightarrow> nat" where
  "global_used b = wb_global_limit b - wb_global b"

definition new_table_backlog :: "wal_backlog_budget \<Rightarrow> table_backlog" where
  "new_table_backlog b = table_backlog_new (wb_table_limit b)"

definition backlog_try_reserve ::
  "nat \<Rightarrow> wal_backlog_budget \<times> table_backlog \<Rightarrow> bool \<times> wal_backlog_budget \<times> table_backlog" where
  "backlog_try_reserve bytes bt =
     (let (b, t) = bt in
      if bytes = 0 then (True, b, t)
      else
        let table_n = permits (wb_table_limit b) bytes; global_n = permits (wb_global_limit b) bytes
        in if table_n \<le> tb_sem t
           then if global_n \<le> wb_global b
                then (True, b\<lparr>wb_global := wb_global b - global_n\<rparr>, t\<lparr>tb_sem := tb_sem t - table_n\<rparr>)
                else (False, b, t)
           else (False, b, t))"

definition backlog_release ::
  "nat \<Rightarrow> wal_backlog_budget \<times> table_backlog \<Rightarrow> wal_backlog_budget \<times> table_backlog" where
  "backlog_release bytes bt =
     (let (b, t) = bt in
      if bytes = 0 then (b, t)
      else (b\<lparr>wb_global := wb_global b + permits (wb_global_limit b) bytes\<rparr>,
            t\<lparr>tb_sem := tb_sem t + permits (wb_table_limit b) bytes\<rparr>))"

subsection \<open>Blocking reservation\<close>

text \<open>
  Many writers on many tables (identified by numbers). A pair \<open>(t, n)\<close> is a request of \<open>n\<close> bytes
  for table \<open>t\<close>: waiting for the table semaphore, waiting for the global one while holding the
  table's permits, or reserved and handed to the WAL worker, which releases it.
\<close>

record backlog_sys =
  bs_table :: "nat \<Rightarrow> nat"
  bs_global :: nat
  want_table :: "(nat \<times> nat) multiset"
  want_global :: "(nat \<times> nat) multiset"
  handed :: "(nat \<times> nat) multiset"

definition backlog_init :: "nat \<Rightarrow> nat \<Rightarrow> backlog_sys" where
  "backlog_init glim tlim = \<lparr>bs_table = (\<lambda>_. tlim), bs_global = glim,
     want_table = {#}, want_global = {#}, handed = {#}\<rparr>"

inductive backlog_step :: "nat \<Rightarrow> nat \<Rightarrow> backlog_sys \<Rightarrow> backlog_sys \<Rightarrow> bool" for glim tlim where
  request: "n \<noteq> 0 \<Longrightarrow>
     backlog_step glim tlim s (s\<lparr>want_table := add_mset (t, n) (want_table s)\<rparr>)"
| acquire_table: "(t, n) \<in># want_table s \<Longrightarrow> permits tlim n \<le> bs_table s t \<Longrightarrow>
     backlog_step glim tlim s
       (s\<lparr>bs_table := (bs_table s)(t := bs_table s t - permits tlim n),
          want_table := want_table s - {#(t, n)#}, want_global := add_mset (t, n) (want_global s)\<rparr>)"
| acquire_global: "(t, n) \<in># want_global s \<Longrightarrow> permits glim n \<le> bs_global s \<Longrightarrow>
     backlog_step glim tlim s
       (s\<lparr>bs_global := bs_global s - permits glim n,
          want_global := want_global s - {#(t, n)#}, handed := add_mset (t, n) (handed s)\<rparr>)"
| release: "(t, n) \<in># handed s \<Longrightarrow>
     backlog_step glim tlim s
       (s\<lparr>bs_global := bs_global s + permits glim n,
          bs_table := (bs_table s)(t := bs_table s t + permits tlim n),
          handed := handed s - {#(t, n)#}\<rparr>)"

inductive_cases backlog_stepE: "backlog_step glim tlim s s'"

text \<open>The permits held by a collection of requests, in all and for one table.\<close>

definition held :: "nat \<Rightarrow> (nat \<times> nat) multiset \<Rightarrow> nat" where
  "held l r = (\<Sum>(t, n) \<in># r. permits l n)"

definition held_by :: "nat \<Rightarrow> nat \<Rightarrow> (nat \<times> nat) multiset \<Rightarrow> nat" where
  "held_by l t r = held l (filter_mset (\<lambda>x. fst x = t) r)"

definition backlog_inv :: "nat \<Rightarrow> nat \<Rightarrow> backlog_sys \<Rightarrow> bool" where
  "backlog_inv glim tlim s \<longleftrightarrow>
     bs_global s + held glim (handed s) = glim \<and>
     (\<forall>t. bs_table s t + held_by tlim t (want_global s) + held_by tlim t (handed s) = tlim)"

section \<open>The contract\<close>

datatype ledger_op = Reserve nat | GiveBack nat

text \<open>A series of calls with the outstanding reservations; only what is outstanding is given back.\<close>

fun ledger_run ::
  "(nat \<Rightarrow> 's \<Rightarrow> bool \<times> 's) \<Rightarrow> (nat \<Rightarrow> 's \<Rightarrow> 's) \<Rightarrow> ledger_op list \<Rightarrow> 's \<times> nat multiset
     \<Rightarrow> 's \<times> nat multiset" where
  "ledger_run reserve give_back [] st = st"
| "ledger_run reserve give_back (Reserve n # ops) (s, out) =
     (case reserve n s of
        (True, s') \<Rightarrow> ledger_run reserve give_back ops (s', add_mset n out)
      | (False, s') \<Rightarrow> ledger_run reserve give_back ops (s', out))"
| "ledger_run reserve give_back (GiveBack n # ops) (s, out) =
     (if n \<in># out then ledger_run reserve give_back ops (give_back n s, out - {#n#})
      else ledger_run reserve give_back ops (s, out))"

locale budget =
  fixes account :: "nat multiset \<Rightarrow> 's \<Rightarrow> bool"
    and reserve :: "nat \<Rightarrow> 's \<Rightarrow> bool \<times> 's"
    and give_back :: "nat \<Rightarrow> 's \<Rightarrow> 's"
  assumes granted: "account out s \<Longrightarrow> reserve n s = (True, s') \<Longrightarrow> account (add_mset n out) s'"
    and refused: "account out s \<Longrightarrow> reserve n s = (False, s') \<Longrightarrow> s' = s"
    and returned: "account (add_mset n out) s \<Longrightarrow> account out (give_back n s)"
begin

lemma ledger_exact:
  "account out s \<Longrightarrow> ledger_run reserve give_back ops (s, out) = (s', out') \<Longrightarrow> account out' s'"
proof (induction ops arbitrary: s out)
  case (Cons x ops)
  show ?case
  proof (cases x)
    case (Reserve n)
    obtain ok s1 where r: "reserve n s = (ok, s1)" by fastforce
    show ?thesis
      using Cons r Reserve granted [OF Cons.prems(1), of n s1] refused [OF Cons.prems(1), of n s1]
      by (cases ok) auto
  next
    case (GiveBack n)
    show ?thesis
    proof (cases "n \<in># out")
      case True
      then have "account (out - {#n#}) (give_back n s)"
        using returned Cons.prems(1) by (metis insert_DiffM)
      then show ?thesis using Cons GiveBack True by simp
    qed (use Cons GiveBack in auto)
  qed
qed simp

end

section \<open>Both components keep the contract\<close>

text \<open>
  The memory controller also takes charges that are not checked against the limit; \<open>free\<close> are those that
  are outstanding. The contract holds for the checked reservations \<open>out\<close> beside them.
\<close>

definition mem_account :: "nat \<Rightarrow> nat multiset \<Rightarrow> nat multiset \<Rightarrow> memory_controller \<Rightarrow> bool" where
  "mem_account lim free out m \<longleftrightarrow> used_bytes m = sum_mset out + sum_mset free \<and> sum_mset out \<le> lim \<and>
     limit_bytes m = lim \<and> lim + sum_mset free < usize_max"

definition backlog_account ::
  "nat \<Rightarrow> nat \<Rightarrow> nat multiset \<Rightarrow> wal_backlog_budget \<times> table_backlog \<Rightarrow> bool" where
  "backlog_account glim tlim out bt \<longleftrightarrow>
     wb_global_limit (fst bt) = glim \<and> wb_table_limit (fst bt) = tlim \<and> tb_limit (snd bt) = tlim \<and>
     wb_global (fst bt) + (\<Sum>n \<in># out. permits glim n) = glim \<and>
     tb_sem (snd bt) + (\<Sum>n \<in># out. permits tlim n) = tlim"

lemma try_reserve_True:
  assumes "limit_bytes m < usize_max" and "try_reserve n m = (True, m')"
  shows "m' = m\<lparr>used_bytes := used_bytes m + n\<rparr> \<and> (n \<noteq> 0 \<longrightarrow> used_bytes m + n \<le> limit_bytes m)"
proof (cases "n = 0")
  case False
  then have le: "usize_add_sat (used_bytes m) n \<le> limit_bytes m"
    and m': "m' = m\<lparr>used_bytes := usize_wrap (used_bytes m + n)\<rparr>"
    using assms(2) by (auto simp: try_reserve_def split: if_splits)
  then have "used_bytes m + n < usize_max" "used_bytes m + n \<le> limit_bytes m"
    using assms(1) by (auto simp: usize_add_sat_def min_def split: if_splits)
  then show ?thesis using m' by (simp add: usize_wrap_def usize_max_def)
qed (use assms(2) in \<open>auto simp: try_reserve_def\<close>)

lemma try_reserve_False: "try_reserve n m = (False, m') \<Longrightarrow> m' = m"
  by (auto simp: try_reserve_def split: if_splits)

interpretation mem: budget "mem_account lim free" try_reserve mem_release
proof unfold_locales
  fix out s n s'
  assume "mem_account lim free out s" "try_reserve n s = (True, s')"
  then show "mem_account lim free (add_mset n out) s'"
    using try_reserve_True [of s n s'] by (cases "n = 0") (auto simp: mem_account_def)
qed (auto simp: mem_account_def mem_release_def dest: try_reserve_False)

text \<open>The unchecked charges as a history with the checked calls; each charge is released at most once.\<close>

datatype memory_op = Checked ledger_op | Charge nat | Uncharge nat

fun memory_run ::
  "memory_op list \<Rightarrow> memory_controller \<times> nat multiset \<times> nat multiset \<Rightarrow> memory_controller \<times> nat multiset \<times> nat multiset" where
  "memory_run [] st = st"
| "memory_run (Checked x # ops) (m, out, free) =
     (let (m', out') = ledger_run try_reserve mem_release [x] (m, out) in memory_run ops (m', out', free))"
| "memory_run (Charge n # ops) (m, out, free) = memory_run ops (reserve_unchecked n m, out, add_mset n free)"
| "memory_run (Uncharge n # ops) (m, out, free) =
     (if n \<in># free then memory_run ops (mem_release n m, out, free - {#n#}) else memory_run ops (m, out, free))"

fun charged :: "memory_op list \<Rightarrow> nat" where
  "charged [] = 0"
| "charged (Charge n # ops) = n + charged ops"
| "charged (_ # ops) = charged ops"

lemma mem_account_charge:
  "mem_account lim free out m \<Longrightarrow> lim + (sum_mset free + n) < usize_max \<Longrightarrow> mem_account lim (add_mset n free) out (reserve_unchecked n m)"
  by (auto simp: mem_account_def reserve_unchecked_def usize_wrap_def usize_max_def)

lemma mem_account_uncharge: "mem_account lim (add_mset n free) out m \<Longrightarrow> mem_account lim free out (mem_release n m)"
  by (auto simp: mem_account_def mem_release_def)

lemma memory_run_exact:
  "\<lbrakk>mem_account lim free out m; lim + sum_mset free + charged ops < usize_max; memory_run ops (m, out, free) = (m', out', free')\<rbrakk> \<Longrightarrow>
   mem_account lim free' out' m'"
proof (induction ops arbitrary: m out free)
  case (Cons x ops)
  show ?case
  proof (cases x)
    case (Checked y)
    obtain m1 out1 where r: "ledger_run try_reserve mem_release [y] (m, out) = (m1, out1)" by fastforce
    then show ?thesis using Cons Checked mem.ledger_exact [OF Cons.prems(1) r] by simp
  next
    case (Charge n)
    then show ?thesis using Cons mem_account_charge [OF Cons.prems(1), of n] by (simp add: add_ac)
  next
    case (Uncharge n)
    show ?thesis
    proof (cases "n \<in># free")
      case True
      then obtain rest where f: "free = add_mset n rest" by (metis insert_DiffM)
      then show ?thesis using Cons Uncharge mem_account_uncharge [of lim n rest out m] by simp
    qed (use Cons Uncharge in simp)
  qed
qed simp

lemma permits_le: "permits l n \<le> l"
  by (simp add: permits_def)

lemma permits_0 [simp]: "permits l 0 = 0"
  by (simp add: permits_def)

interpretation backlog: budget "backlog_account glim tlim" backlog_try_reserve backlog_release
proof unfold_locales
  fix out s n s'
  assume "backlog_account glim tlim out s" "backlog_try_reserve n s = (True, s')"
  then show "backlog_account glim tlim (add_mset n out) s'"
    by (auto simp: backlog_account_def backlog_try_reserve_def Let_def split: prod.splits if_splits)
next
  fix out s n s'
  assume "backlog_try_reserve n s = (False, s')"
  then show "s' = s"
    by (auto simp: backlog_try_reserve_def Let_def split: prod.splits if_splits)
next
  fix n out s
  assume "backlog_account glim tlim (add_mset n out) s"
  then show "backlog_account glim tlim out (backlog_release n s)"
    by (cases "n = 0") (auto simp: backlog_account_def backlog_release_def split: prod.splits)
qed

section \<open>Reclaim\<close>

text \<open>What the code relies on: the handler only gives memory back.\<close>

definition reclaim_frees :: "reclaim_handler \<Rightarrow> bool" where
  "reclaim_frees h \<longleftrightarrow> (\<forall>t m. used_bytes (snd (h t m)) \<le> used_bytes m \<and>
     limit_bytes (snd (h t m)) = limit_bytes m)"

lemma invoke_reclaim_frees:
  assumes "\<forall>h. handler = Some h \<longrightarrow> reclaim_frees h"
  shows "used_bytes (snd (invoke_reclaim handler ir t m)) \<le> used_bytes m"
    "limit_bytes (snd (invoke_reclaim handler ir t m)) = limit_bytes m"
  using assms by (auto simp: invoke_reclaim_def reclaim_frees_def split: option.splits)

lemma hard_reclaim_bounds:
  assumes "\<forall>h. handler = Some h \<longrightarrow> reclaim_frees h"
  shows "hard_reclaim k handler ir n t m = (ok, m') \<Longrightarrow> limit_bytes m < usize_max \<Longrightarrow>
    limit_bytes m' = limit_bytes m \<and>
    (if ok then n \<le> used_bytes m' \<and> (n \<noteq> 0 \<longrightarrow> used_bytes m' \<le> limit_bytes m) \<and> used_bytes m' \<le> used_bytes m + n
     else used_bytes m' \<le> used_bytes m)"
proof (induction k arbitrary: m)
  case (Suc k)
  obtain f m1 where r: "invoke_reclaim handler ir t m = (f, m1)" by fastforce
  have m1: "used_bytes m1 \<le> used_bytes m" "limit_bytes m1 = limit_bytes m"
    using invoke_reclaim_frees [OF assms, of ir t m] r by auto
  obtain ok1 m2 where t: "try_reserve n m1 = (ok1, m2)" by fastforce
  show ?case
  proof (cases ok1)
    case True
    then show ?thesis
      using Suc.prems r t m1 try_reserve_True [of m1 n m2] by (auto split: if_splits)
  next
    case False
    then have "m2 = m1" using t try_reserve_False [of n m1 m2] by simp
    then show ?thesis
      using Suc.prems Suc.IH [of m1] r t m1 False by (auto split: if_splits)
  qed
qed auto

section \<open>The blocking reservation cannot get stuck\<close>

lemma held_simps [simp]:
  "held l {#} = 0"
  "held l (add_mset (t, n) r) = permits l n + held l r"
  "held_by l t' {#} = 0"
  "held_by l t' (add_mset (t, n) r) = (if t = t' then permits l n else 0) + held_by l t' r"
  by (simp_all add: held_def held_by_def)

lemma backlog_invD:
  "backlog_inv glim tlim s \<Longrightarrow>
   bs_table s t + held_by tlim t (want_global s) + held_by tlim t (handed s) = tlim"
  by (simp add: backlog_inv_def)

lemma backlog_inv_step:
  "backlog_step glim tlim s s' \<Longrightarrow> backlog_inv glim tlim s \<Longrightarrow> backlog_inv glim tlim s'"
proof (induction rule: backlog_step.induct)
  case (acquire_table t n s)
  then show ?case by (auto simp: backlog_inv_def)
next
  case (acquire_global t n s)
  then obtain r where "want_global s = add_mset (t, n) r" by (metis insert_DiffM)
  with acquire_global show ?case by (simp add: backlog_inv_def ac_simps)
next
  case (release t n s)
  then obtain r where r: "handed s = add_mset (t, n) r" by (metis insert_DiffM)
  have "((bs_table s)(t := bs_table s t + permits tlim n)) t' + held_by tlim t' (want_global s) +
      held_by tlim t' r = tlim" for t'
    using backlog_invD [OF release(2), of t'] r by (cases "t = t'") auto
  then show ?case using release r by (simp add: backlog_inv_def ac_simps)
qed (simp add: backlog_inv_def)

lemma backlog_reachable_inv:
  "(backlog_step glim tlim)\<^sup>*\<^sup>* (backlog_init glim tlim) s \<Longrightarrow> backlog_inv glim tlim s"
proof (induction rule: rtranclp_induct)
  case base
  show ?case by (simp add: backlog_init_def backlog_inv_def)
qed (rule backlog_inv_step)

definition backlog_work :: "backlog_sys \<Rightarrow> nat" where
  "backlog_work s = 3 * size (want_table s) + 2 * size (want_global s) + size (handed s)"

lemma backlog_progress:
  assumes inv: "backlog_inv glim tlim s" and work: "backlog_work s \<noteq> 0"
  shows "\<exists>s'. backlog_step glim tlim s s' \<and> backlog_work s' < backlog_work s"
proof (cases "handed s = {#}")
  case False
  then obtain t n where "(t, n) \<in># handed s" by (metis multiset_nonemptyE surj_pair)
  then show ?thesis
    using backlog_step.release [of t n s glim tlim] size_Suc_Diff1 [of "(t, n)" "handed s"]
    by (intro exI conjI) (assumption, simp add: backlog_work_def)
next
  case handed: True
  show ?thesis
  proof (cases "want_global s = {#}")
    case False
    then obtain t n where tn: "(t, n) \<in># want_global s" by (metis multiset_nonemptyE surj_pair)
    have "permits glim n \<le> bs_global s"
      using inv handed permits_le by (simp add: backlog_inv_def)
    then show ?thesis
      using backlog_step.acquire_global [of t n s glim tlim] tn size_Suc_Diff1 [OF tn]
      by (intro exI conjI) (assumption, simp add: backlog_work_def)
  next
    case True
    then have "want_table s \<noteq> {#}" using work handed by (simp add: backlog_work_def)
    then obtain t n where tn: "(t, n) \<in># want_table s" by (metis multiset_nonemptyE surj_pair)
    have "permits tlim n \<le> bs_table s t"
      using backlog_invD [OF inv, of t] handed True permits_le by simp
    then show ?thesis
      using backlog_step.acquire_table [of t n s tlim glim] tn size_Suc_Diff1 [OF tn]
      by (intro exI conjI) (assumption, simp add: backlog_work_def)
  qed
qed

section \<open>Properties\<close>

text \<open>
  C15. The memory accounting is exact. After any history of checked reservations, unchecked charges and
  releases of what is outstanding, the bytes in use are the sum of the outstanding reservations and
  charges, and the outstanding checked reservations alone stay within the limit: the counter passes the
  limit by at most the outstanding unchecked charges.
\<close>
theorem memory_budget_exact:
  assumes "limit_bytes m + charged ops < usize_max" and "used_bytes m = 0"
    and "memory_run ops (m, {#}, {#}) = (m', out, free)"
  shows "used_bytes m' = sum_mset out + sum_mset free \<and> sum_mset out \<le> limit_bytes m"
proof -
  have "mem_account (limit_bytes m) {#} {#} m" using assms(1,2) by (simp add: mem_account_def)
  then show ?thesis using memory_run_exact [OF _ _ assms(3)] assms(1) by (auto simp: mem_account_def)
qed

theorem memory_budget_exact_witness:
  "let r = memory_run [Checked (Reserve 60), Charge 70, Checked (Reserve 40), Uncharge 70, Checked (Reserve 40), Charge 30]
       (\<lparr>limit_bytes = 100, soft_threshold_bytes = 80, used_bytes = 0\<rparr>, {#}, {#})
   in snd r = ({#40, 60#}, {#30#}) \<and> used_bytes (fst r) = 130 \<and> sum_mset (fst (snd r)) \<le> 100"
proof -
  let ?m = "\<lparr>limit_bytes = 100, soft_threshold_bytes = 80, used_bytes = 0\<rparr>"
  let ?ops = "[Checked (Reserve 60), Charge 70, Checked (Reserve 40), Uncharge 70, Checked (Reserve 40), Charge 30]"
  have r: "memory_run ?ops (?m, {#}, {#}) = (?m\<lparr>used_bytes := 130\<rparr>, {#40, 60#}, {#30#})"
    by (simp add: try_reserve_def reserve_unchecked_def mem_release_def usize_add_sat_def usize_max_def usize_wrap_def)
  show ?thesis
    using memory_budget_exact [of ?m ?ops "?m\<lparr>used_bytes := 130\<rparr>" "{#40, 60#}" "{#30#}"] r
    by (simp only: Let_def) (simp add: usize_max_def)
qed

text \<open>
  C17. Reservation with reclaim respects the limit. Provided the installed handler only gives memory
  back, a successful reservation ends within the limit with the requested bytes charged, and a
  refused one leaves at most the bytes that were in use before.
\<close>
theorem reserve_with_reclaim_bounded:
  assumes "\<forall>h. handler = Some h \<longrightarrow> reclaim_frees h" and "limit_bytes m < usize_max"
    and "try_reserve_with_reclaim handler ir n t m = (ok, m')"
  shows "limit_bytes m' = limit_bytes m \<and>
    (if ok then n \<le> used_bytes m' \<and> used_bytes m' \<le> limit_bytes m \<and> used_bytes m' \<le> used_bytes m + n
     else used_bytes m' \<le> used_bytes m)"
proof (cases "at_or_over_limit m")
  case True
  then show ?thesis using assms(3) by (auto simp: try_reserve_with_reclaim_def)
next
  case False
  let ?m1 = "if soft_threshold_bytes m > 0 \<and> at_or_over_soft_threshold m
                  then snd (invoke_reclaim handler ir t m) else m"
  have m1: "used_bytes ?m1 \<le> used_bytes m" "limit_bytes ?m1 = limit_bytes m"
    using invoke_reclaim_frees [OF assms(1), of ir t m] by auto
  have lt: "used_bytes m < limit_bytes m" using False by (simp add: at_or_over_limit_def)
  obtain ok1 m2 where t: "try_reserve n ?m1 = (ok1, m2)" by fastforce
  show ?thesis
  proof (cases ok1)
    case True
    have "m2 = ?m1\<lparr>used_bytes := used_bytes ?m1 + n\<rparr> \<and>
        (n \<noteq> 0 \<longrightarrow> used_bytes ?m1 + n \<le> limit_bytes ?m1)"
      using try_reserve_True [of ?m1 n m2] t True m1(2) assms(2) by simp
    moreover have "ok" "m' = m2"
      using assms(3) False t True by (auto simp: try_reserve_with_reclaim_def Let_def)
    ultimately show ?thesis
      using m1 lt by (cases "n = 0") auto
  next
    case no: False
    then have m2: "m2 = ?m1" using t try_reserve_False [of n ?m1 m2] by simp
    have nz: "n \<noteq> 0" using t no by (auto simp: try_reserve_def split: if_splits)
    have "(if at_or_over_limit ?m1 \<or> ir then (False, ?m1)
        else hard_reclaim MAX_HARD_RECLAIM_ATTEMPTS handler ir n t ?m1) = (ok, m')"
      using assms(3) False t no m2 by (auto simp: try_reserve_with_reclaim_def Let_def)
    then show ?thesis
      using hard_reclaim_bounds [OF assms(1), of MAX_HARD_RECLAIM_ATTEMPTS ir n t ?m1 ok m'] m1 assms(2) nz
      by (auto split: if_splits)
  qed
qed

theorem reserve_with_reclaim_bounded_witness:
  "let m = \<lparr>limit_bytes = 100, soft_threshold_bytes = 0, used_bytes = 90\<rparr>;
       r = try_reserve_with_reclaim (Some (\<lambda>_ m. (True, mem_release 30 m))) False 35 None m
   in fst r \<and> used_bytes (snd r) = 95 \<and> used_bytes (snd r) \<le> limit_bytes m"
proof -
  let ?m = "\<lparr>limit_bytes = 100, soft_threshold_bytes = 0, used_bytes = 90\<rparr>"
  let ?h = "\<lambda>_ m. (True, mem_release 30 m)"
  have r: "try_reserve_with_reclaim (Some ?h) False 35 None ?m = (True, ?m\<lparr>used_bytes := 95\<rparr>)"
    by (simp add: try_reserve_with_reclaim_def at_or_over_limit_def MAX_HARD_RECLAIM_ATTEMPTS_def
        try_reserve_def mem_release_def usize_add_sat_def usize_max_def usize_wrap_def
        invoke_reclaim_def Let_def numeral_3_eq_3)
  show ?thesis
    using reserve_with_reclaim_bounded [of "Some ?h" ?m False 35 None True "?m\<lparr>used_bytes := 95\<rparr>"] r
    by (simp only: Let_def) (simp add: reclaim_frees_def mem_release_def usize_max_def)
qed

text \<open>
  C16. Writers waiting for WAL backlog permits never deadlock. In every reachable state of any number
  of writers on any number of tables that share one global budget, as long as a request is waiting
  or handed to the worker, some acquisition or release can take place, and it brings the requests
  closer to completion.
\<close>
theorem backlog_never_stuck:
  assumes "(backlog_step glim tlim)\<^sup>*\<^sup>* (backlog_init glim tlim) s" and "backlog_work s \<noteq> 0"
  shows "\<exists>s'. backlog_step glim tlim s s' \<and> backlog_work s' < backlog_work s"
  using backlog_progress [OF backlog_reachable_inv [OF assms(1)] assms(2)] .

theorem backlog_never_stuck_witness:
  "\<exists>s s'. (backlog_step 10 4)\<^sup>*\<^sup>* (backlog_init 10 4) s \<and> want_table s = {#(0, 7)#} \<and>
     backlog_step 10 4 s s' \<and> backlog_work s' < backlog_work s"
proof -
  let ?s = "(backlog_init 10 4)\<lparr>want_table := add_mset (0, 7) (want_table (backlog_init 10 4))\<rparr>"
  have r: "(backlog_step 10 4)\<^sup>*\<^sup>* (backlog_init 10 4) ?s"
    by (rule r_into_rtranclp, rule backlog_step.request) simp
  have w: "want_table ?s = {#(0, 7)#}" by (simp add: backlog_init_def)
  then have "backlog_work ?s \<noteq> 0" by (simp add: backlog_work_def)
  then show ?thesis using r w backlog_never_stuck [OF r] by blast
qed

end
