(* ===== verification/Wal_Writer.thy ===== *)
theory Wal_Writer
  imports Wal_Tail Budget "HOL-Library.AList"
begin

text \<open>
  The WAL writer, \<^verbatim>\<open>src/src/storage/src/wal/writer.rs\<close>: the numbered segment files of a table
  (\<open>table_fs\<close>), the segment writer with size-based rotation, the micro-batch, the per-writer worker
  with its circuit breaker, and the command loop of a worker thread with its dirty queue. The
  outcome of every file operation and the clock come from the table's environment, read in order
  (\<open>tf_tick\<close>). Channel plumbing (\<^verbatim>\<open>mpsc\<close>, \<^verbatim>\<open>oneshot\<close>, \<^verbatim>\<open>run_wal_blocking\<close>) is not modelled: a command and
  its acknowledgement are an argument and a result.
\<close>

section \<open>The files of a table\<close>

record table_fs =
  tf_dir :: "(u64 \<times> seg_file) list"
  tf_tick :: nat
  tf_io :: "nat \<Rightarrow> wal_io"
  tf_now :: "nat \<Rightarrow> u64"

definition io_now :: "table_fs \<Rightarrow> wal_io" where
  "io_now fs = tf_io fs (tf_tick fs)"

definition clock_now :: "table_fs \<Rightarrow> u64" where
  "clock_now fs = tf_now fs (tf_tick fs)"

definition tick :: "table_fs \<Rightarrow> table_fs" where
  "tick fs = fs\<lparr>tf_tick := Suc (tf_tick fs)\<rparr>"

definition get_file :: "u64 \<Rightarrow> table_fs \<Rightarrow> seg_file option" where
  "get_file i fs = map_of (tf_dir fs) i"

definition put_file :: "u64 \<Rightarrow> seg_file option \<Rightarrow> table_fs \<Rightarrow> table_fs" where
  "put_file i f fs = (case f of None \<Rightarrow> fs | Some x \<Rightarrow> fs\<lparr>tf_dir := AList.update i x (tf_dir fs)\<rparr>)"

definition list_wal_file_ids :: "table_fs \<Rightarrow> u64 list" where
  "list_wal_file_ids fs = sort (map fst (tf_dir fs))"

text \<open>\<^verbatim>\<open>MemTableWal::replay\<close>: unreadable segments are skipped.\<close>

definition replay :: "('s, 'b) arrow \<Rightarrow> table_fs \<Rightarrow> 'b list" where
  "replay A fs = concat (map (\<lambda>i.
     case read_segment_batches A (map_option file_data (get_file i fs)) True of
       Inr part \<Rightarrow> part | Inl _ \<Rightarrow> []) (list_wal_file_ids fs))"

definition destroy_wal_file :: "u64 \<Rightarrow> table_fs \<Rightarrow> table_fs" where
  "destroy_wal_file i fs = fs\<lparr>tf_dir := AList.delete i (tf_dir fs)\<rparr>"

section \<open>Segment writer\<close>

record wal_segment_writer =
  sg_file_id :: u64
  sg_memtable_id :: u64
  sg_active :: "segment_writer option"
  sg_sync_writes :: bool
  sg_segment_max_bytes :: u64
  sg_block_max_bytes :: nat

definition segment_open ::
  "('s, 'b) arrow \<Rightarrow> u64 \<Rightarrow> bool \<Rightarrow> u64 \<Rightarrow> nat \<Rightarrow> table_fs \<Rightarrow> wal_segment_writer res \<times> table_fs" where
  "segment_open A mid sync_writes segment_max block_max fs0 =
     (let fs = tick fs0; io = io_now fs0 in
      if \<not> open_ok io then (Inl (Io ''create_dir''), fs)
      else
        let bm = max (clamp block_max 1 DEFAULT_WAL_BLOCK_MAX_BYTES) 1;
            ids = list_wal_file_ids fs;
            (file_id, active) =
              (if ids = [] then (0, None)
               else case resume_any A io (get_file (last ids) fs) of
                   Inr w \<Rightarrow> (last ids, Some (set_block_max_bytes bm (set_memtable_id mid w)))
                 | Inl _ \<Rightarrow> (last ids, None))
        in (Inr \<lparr>sg_file_id = file_id, sg_memtable_id = mid, sg_active = active,
               sg_sync_writes = sync_writes, sg_segment_max_bytes = max segment_max 1,
               sg_block_max_bytes = bm\<rparr>, fs))"

text \<open>Create the file of a new segment and make it the active one.\<close>

definition open_segment ::
  "('s, 'b) arrow \<Rightarrow> u64 \<Rightarrow> 's \<Rightarrow> wal_segment_writer \<Rightarrow> table_fs
     \<Rightarrow> unit res \<times> wal_segment_writer \<times> table_fs" where
  "open_segment A next schema sw fs =
     (let sw' = sw\<lparr>sg_file_id := next\<rparr>;
          (r, f) = create_with_block_max A (io_now fs) (clock_now fs) (get_file next fs)
                     (sg_memtable_id sw) schema (sg_block_max_bytes sw);
          fs' = put_file next f (tick fs)
      in (case r of Inl e \<Rightarrow> (Inl e, sw', fs') | Inr w \<Rightarrow> (Inr (), sw'\<lparr>sg_active := Some w\<rparr>, fs')))"

definition start_segment ::
  "('s, 'b) arrow \<Rightarrow> 's \<Rightarrow> wal_segment_writer \<Rightarrow> table_fs
     \<Rightarrow> unit res \<times> wal_segment_writer \<times> table_fs" where
  "start_segment A schema sw fs =
     (if sg_active sw \<noteq> None then (Inr (), sw, fs)
      else open_segment A (max (sat_add (sg_file_id sw) 1) 1) schema sw fs)"

definition finish_active_segment ::
  "('s, 'b) arrow \<Rightarrow> wal_segment_writer \<Rightarrow> table_fs \<Rightarrow> unit res \<times> wal_segment_writer \<times> table_fs" where
  "finish_active_segment A sw fs =
     (case (sg_active sw, get_file (sg_file_id sw) fs) of
        (Some w, Some f) \<Rightarrow>
          let (r, f') = finish A (io_now fs) (clock_now fs) w f
          in (r, sw\<lparr>sg_active := None\<rparr>, put_file (sg_file_id sw) (Some f') (tick fs))
      | _ \<Rightarrow> (Inr (), sw\<lparr>sg_active := None\<rparr>, fs))"

definition segment_flush ::
  "wal_segment_writer \<Rightarrow> table_fs \<Rightarrow> unit res \<times> table_fs" where
  "segment_flush sw fs =
     (case (sg_active sw, get_file (sg_file_id sw) fs) of
        (Some w, Some f) \<Rightarrow>
          let (r, f') = seg_sync (io_now fs) f in (r, put_file (sg_file_id sw) (Some f') (tick fs))
      | _ \<Rightarrow> (Inr (), fs))"

definition hard_rotate_segment ::
  "('s, 'b) arrow \<Rightarrow> 's \<Rightarrow> wal_segment_writer \<Rightarrow> table_fs
     \<Rightarrow> unit res \<times> wal_segment_writer \<times> table_fs" where
  "hard_rotate_segment A schema sw fs =
     (case finish_active_segment A sw fs of
        (Inl e, sw', fs') \<Rightarrow> (Inl e, sw', fs')
      | (Inr _, sw', fs') \<Rightarrow> open_segment A (sat_add (sg_file_id sw') 1) schema sw' fs')"

definition active_on_disk_bytes :: "wal_segment_writer \<Rightarrow> table_fs \<Rightarrow> u64 res \<times> table_fs" where
  "active_on_disk_bytes sw fs =
     (case (sg_active sw, get_file (sg_file_id sw) fs) of
        (Some w, Some f) \<Rightarrow> (on_disk_bytes (io_now fs) f, tick fs)
      | _ \<Rightarrow> (Inr 0, fs))"

text \<open>The append to the segment that is open after the preceding steps.\<close>

definition append_to_active ::
  "('s, 'b) arrow \<Rightarrow> 'b \<Rightarrow> u64 \<Rightarrow> wal_segment_writer \<Rightarrow> table_fs
     \<Rightarrow> u64 option res \<times> wal_segment_writer \<times> table_fs" where
  "append_to_active A batch lsn sw fs =
     (case (sg_active sw, get_file (sg_file_id sw) fs) of
        (Some w, Some f) \<Rightarrow>
          let (r, w', f') = append_batch A (io_now fs) batch lsn (sg_sync_writes sw) w f
          in (and_then r (\<lambda>q. Inr (Some q)), sw\<lparr>sg_active := Some w'\<rparr>,
              put_file (sg_file_id sw) (Some f') (tick fs))
      | _ \<Rightarrow> (Inl (Storage ''segment just opened''), sw, fs))"

definition segment_append ::
  "('s, 'b) arrow \<Rightarrow> 'b \<Rightarrow> u64 \<Rightarrow> wal_segment_writer \<Rightarrow> table_fs
     \<Rightarrow> u64 option res \<times> wal_segment_writer \<times> table_fs" where
  "segment_append A batch lsn sw fs =
     (case start_segment A (batch_schema A batch) sw fs of
        (Inl e, sw1, fs1) \<Rightarrow> (Inl e, sw1, fs1)
      | (Inr _, sw1, fs1) \<Rightarrow>
        (case active_on_disk_bytes sw1 fs1 of
           (Inl e, fs2) \<Rightarrow> (Inl e, sw1, fs2)
         | (Inr n, fs2) \<Rightarrow>
           if n \<ge> sg_segment_max_bytes sw1
           then (case hard_rotate_segment A (batch_schema A batch) sw1 fs2 of
                   (Inl e, sw3, fs3) \<Rightarrow> (Inl e, sw3, fs3)
                 | (Inr _, sw3, fs3) \<Rightarrow> append_to_active A batch lsn sw3 fs3)
           else append_to_active A batch lsn sw1 fs2))"

definition rotate_memtable :: "u64 \<Rightarrow> wal_segment_writer \<Rightarrow> wal_segment_writer" where
  "rotate_memtable new_mid sw =
     (if new_mid = sg_memtable_id sw then sw
      else sw\<lparr>sg_active := map_option (set_memtable_id new_mid) (sg_active sw), sg_memtable_id := new_mid\<rparr>)"

section \<open>Micro-batch\<close>

record 'b wal_micro_batch =
  mb_pending :: "('b \<times> u64) list"
  mb_pending_bytes :: nat
  mb_max_bytes :: nat

definition wal_batch_bytes :: "('s, 'b) arrow \<Rightarrow> 'b \<Rightarrow> nat" where
  "wal_batch_bytes A b = max (array_memory_size A b) 1"

definition micro_batch_new :: "nat \<Rightarrow> 'b wal_micro_batch" where
  "micro_batch_new max_bytes = \<lparr>mb_pending = [], mb_pending_bytes = 0, mb_max_bytes = max max_bytes 1\<rparr>"

definition micro_batch_push ::
  "('s, 'b) arrow \<Rightarrow> 'b \<Rightarrow> u64 \<Rightarrow> 'b wal_micro_batch \<Rightarrow> 'b wal_micro_batch" where
  "micro_batch_push A b lsn mb = mb\<lparr>mb_pending_bytes := mb_pending_bytes mb + wal_batch_bytes A b,
     mb_pending := mb_pending mb @ [(b, lsn)]\<rparr>"

definition should_flush :: "'b wal_micro_batch \<Rightarrow> bool" where
  "should_flush mb \<longleftrightarrow> mb_pending_bytes mb \<ge> mb_max_bytes mb"

definition drain :: "'b wal_micro_batch \<Rightarrow> ('b \<times> u64) list \<times> 'b wal_micro_batch" where
  "drain mb = (mb_pending mb, mb\<lparr>mb_pending := [], mb_pending_bytes := 0\<rparr>)"

section \<open>Worker\<close>

text \<open>\<open>wk_notify\<close>: a table name and a notification hub are attached; \<open>wk_notified\<close> lists the
  notifications sent (memtable id and sequence number).\<close>

record 'b wal_worker =
  wk_segment :: wal_segment_writer
  wk_fs :: table_fs
  wk_micro_batch :: "'b wal_micro_batch"
  wk_micro_batch_max_bytes :: nat
  wk_table_backlog :: table_backlog
  wk_is_dirty :: bool
  wk_faulted :: bool
  wk_notify :: bool
  wk_notified :: "(u64 \<times> u64) list"

definition health_check :: "'b wal_worker \<Rightarrow> unit res" where
  "health_check wk =
     (if wk_faulted wk then Inl (Storage ''WAL worker faulted after I/O error'') else Inr ())"

definition trip_fault :: "'b wal_worker \<Rightarrow> 'b wal_worker" where
  "trip_fault wk = wk\<lparr>wk_faulted := True, wk_is_dirty := False\<rparr>"

text \<open>The loop over the drained batches.\<close>

fun append_all ::
  "('s, 'b) arrow \<Rightarrow> ('b \<times> u64) list \<Rightarrow> 'b wal_worker \<Rightarrow> unit res \<times> 'b wal_worker" where
  "append_all A [] wk = (Inr (), wk)"
| "append_all A ((b, lsn) # ps) wk =
     (case segment_append A b lsn (wk_segment wk) (wk_fs wk) of
        (Inl e, sw, fs) \<Rightarrow> (Inl e, wk\<lparr>wk_segment := sw, wk_fs := fs\<rparr>)
      | (Inr None, sw, fs) \<Rightarrow> append_all A ps (wk\<lparr>wk_segment := sw, wk_fs := fs\<rparr>)
      | (Inr (Some sequence), sw, fs) \<Rightarrow>
          append_all A ps
            (wk\<lparr>wk_segment := sw, wk_fs := fs,
                wk_notified := (if wk_notify wk then wk_notified wk @ [(sg_memtable_id sw, sequence)]
                                else wk_notified wk)\<rparr>))"

definition flush_segment :: "'b wal_worker \<Rightarrow> unit res \<times> 'b wal_worker" where
  "flush_segment wk =
     (let (r, fs) = segment_flush (wk_segment wk) (wk_fs wk) in (r, wk\<lparr>wk_fs := fs\<rparr>))"

definition flush_micro_batch :: "('s, 'b) arrow \<Rightarrow> 'b wal_worker \<Rightarrow> unit res \<times> 'b wal_worker" where
  "flush_micro_batch A wk =
     (case health_check wk of
        Inl e \<Rightarrow> (Inl e, wk)
      | Inr _ \<Rightarrow>
        if \<not> wk_is_dirty wk \<or> mb_pending (wk_micro_batch wk) = []
        then (Inr (), wk\<lparr>wk_is_dirty := False\<rparr>)
        else
          let (pending, mb) = drain (wk_micro_batch wk);
              (r, wk1) = append_all A pending (wk\<lparr>wk_micro_batch := mb\<rparr>);
              (r2, wk2) = (case r of Inl e \<Rightarrow> (Inl e, wk1) | Inr _ \<Rightarrow> flush_segment wk1)
          in (case r2 of
                Inr _ \<Rightarrow> (Inr (), wk2\<lparr>wk_is_dirty := False\<rparr>)
              | Inl e \<Rightarrow> (Inl e, trip_fault wk2)))"

definition worker_append ::
  "('s, 'b) arrow \<Rightarrow> 'b \<Rightarrow> u64 \<Rightarrow> bool \<Rightarrow> 'b wal_worker \<Rightarrow> wal_backlog_budget
     \<Rightarrow> unit res \<times> 'b wal_worker \<times> wal_backlog_budget" where
  "worker_append A batch lsn force wk gb =
     (let (gb', tb) = backlog_release (wal_batch_bytes A batch) (gb, wk_table_backlog wk);
          wk1 = wk\<lparr>wk_table_backlog := tb\<rparr>
      in (case health_check wk1 of
            Inl e \<Rightarrow> (Inl e, wk1, gb')
          | Inr _ \<Rightarrow>
            let wk2 = wk1\<lparr>wk_micro_batch := micro_batch_push A batch lsn (wk_micro_batch wk1),
                          wk_is_dirty := True\<rparr>
            in if force \<or> should_flush (wk_micro_batch wk2)
               then let (r, wk3) = flush_micro_batch A wk2 in (r, wk3, gb')
               else (Inr (), wk2, gb')))"

definition flush_all :: "('s, 'b) arrow \<Rightarrow> 'b wal_worker \<Rightarrow> unit res \<times> 'b wal_worker" where
  "flush_all A wk =
     (case flush_micro_batch A wk of
        (Inl e, wk1) \<Rightarrow> (Inl e, wk1)
      | (Inr _, wk1) \<Rightarrow>
        (case flush_segment wk1 of
           (Inr _, wk2) \<Rightarrow> (Inr (), wk2)
         | (Inl e, wk2) \<Rightarrow> (Inl e, trip_fault wk2)))"

definition worker_rotate :: "('s, 'b) arrow \<Rightarrow> u64 \<Rightarrow> 'b wal_worker \<Rightarrow> unit res \<times> 'b wal_worker" where
  "worker_rotate A new_mid wk =
     (case flush_micro_batch A wk of
        (Inl e, wk1) \<Rightarrow> (Inl e, wk1)
      | (Inr _, wk1) \<Rightarrow>
        (Inr (), wk1\<lparr>wk_segment := rotate_memtable new_mid (wk_segment wk1),
            wk_micro_batch := micro_batch_new (wk_micro_batch_max_bytes wk1), wk_is_dirty := False\<rparr>))"

definition worker_memtable_end ::
  "('s, 'b) arrow \<Rightarrow> u64 \<Rightarrow> u64 \<Rightarrow> u64 \<Rightarrow> 'b wal_worker \<Rightarrow> unit res \<times> 'b wal_worker" where
  "worker_memtable_end A end_lsn closed_mid new_mid wk =
     (case flush_micro_batch A wk of
        (Inl e, wk1) \<Rightarrow> (Inl e, wk1)
      | (Inr _, wk1) \<Rightarrow>
        let sw = wk_segment wk1; fs = wk_fs wk1 in
        (case (sg_active sw, get_file (sg_file_id sw) fs) of
           (Some w, Some f) \<Rightarrow>
             let (r, w', f') = append_memtable_end A (io_now fs) end_lsn closed_mid new_mid w f;
                 wk2 = wk1\<lparr>wk_segment := sw\<lparr>sg_active := Some w'\<rparr>,
                           wk_fs := put_file (sg_file_id sw) (Some f') (tick fs)\<rparr>
             in (case r of
                   Inl e \<Rightarrow> (Inl e, wk2)
                 | Inr _ \<Rightarrow>
                   (Inr (), wk2\<lparr>wk_segment := rotate_memtable new_mid (wk_segment wk2),
                       wk_micro_batch := micro_batch_new (wk_micro_batch_max_bytes wk2),
                       wk_is_dirty := False\<rparr>))
         | _ \<Rightarrow> (Inl (Storage ''wal memtable_end: no active segment''), wk1)))"

section \<open>Command loop of a worker thread\<close>

text \<open>The parameters of a registration, with the table's files and the health flag of its handle.\<close>

record wal_writer_params =
  wp_fs :: table_fs
  wp_memtable_id :: u64
  wp_micro_batch_max_bytes :: nat
  wp_segment_max_bytes :: u64
  wp_block_max_bytes :: nat
  wp_table_backlog :: table_backlog
  wp_sync_writes :: bool
  wp_notify :: bool

definition worker_new ::
  "('s, 'b) arrow \<Rightarrow> wal_writer_params \<Rightarrow> 'b wal_worker res" where
  "worker_new A p =
     (let (r, fs) = segment_open A (wp_memtable_id p) (wp_sync_writes p) (wp_segment_max_bytes p)
                      (wp_block_max_bytes p) (wp_fs p)
      in and_then r (\<lambda>sw. Inr \<lparr>wk_segment = sw, wk_fs = fs,
           wk_micro_batch = micro_batch_new (wp_micro_batch_max_bytes p),
           wk_micro_batch_max_bytes = wp_micro_batch_max_bytes p,
           wk_table_backlog = wp_table_backlog p, wk_is_dirty = False, wk_faulted = False,
           wk_notify = wp_notify p, wk_notified = []\<rparr>))"

text \<open>The flag of \<open>CAppend\<close> tells whether the sender waits for an acknowledgement.\<close>

datatype 'b wal_command =
    CRegister u64 wal_writer_params
  | CAppend u64 'b u64 bool
  | CRotate u64 u64
  | CMemTableEnd u64 u64 u64 u64
  | CFlush u64
  | CDeregister u64

text \<open>\<open>wt_closed\<close> keeps the files of writers that were deregistered.\<close>

record 'b wal_thread =
  wt_workers :: "(u64 \<times> 'b wal_worker) list"
  wt_dirty_queue :: "u64 list"
  wt_backlog :: wal_backlog_budget
  wt_closed :: "(u64 \<times> table_fs) list"

definition not_registered :: "unit res" where
  "not_registered = Inl (Storage ''wal writer not registered'')"

definition set_worker :: "u64 \<Rightarrow> 'b wal_worker \<Rightarrow> 'b wal_thread \<Rightarrow> 'b wal_thread" where
  "set_worker i wk t = t\<lparr>wt_workers := AList.update i wk (wt_workers t)\<rparr>"

fun handle_command ::
  "('s, 'b) arrow \<Rightarrow> 'b wal_command \<Rightarrow> 'b wal_thread \<Rightarrow> unit res \<times> 'b wal_thread" where
  "handle_command A (CRegister i p) t =
     (case worker_new A p of
        Inl e \<Rightarrow> (Inl e, t)
      | Inr wk \<Rightarrow> (Inr (), set_worker i wk t))"
| "handle_command A (CAppend i batch lsn ack) t =
     (case map_of (wt_workers t) i of
        None \<Rightarrow> (not_registered, t)
      | Some wk \<Rightarrow>
        let was_dirty = wk_is_dirty wk;
            (r, wk', gb) = worker_append A batch lsn ack wk (wt_backlog t);
            t' = set_worker i wk' (t\<lparr>wt_backlog := gb\<rparr>)
        in (r, if \<not> was_dirty \<and> wk_is_dirty wk'
               then t'\<lparr>wt_dirty_queue := wt_dirty_queue t' @ [i]\<rparr> else t'))"
| "handle_command A (CRotate i new_mid) t =
     (case map_of (wt_workers t) i of
        None \<Rightarrow> (not_registered, t)
      | Some wk \<Rightarrow> let (r, wk') = worker_rotate A new_mid wk in (r, set_worker i wk' t))"
| "handle_command A (CMemTableEnd i end_lsn closed_mid new_mid) t =
     (case map_of (wt_workers t) i of
        None \<Rightarrow> (not_registered, t)
      | Some wk \<Rightarrow>
        let (r, wk') = worker_memtable_end A end_lsn closed_mid new_mid wk in (r, set_worker i wk' t))"
| "handle_command A (CFlush i) t =
     (case map_of (wt_workers t) i of
        None \<Rightarrow> (Inr (), t)
      | Some wk \<Rightarrow> let (r, wk') = flush_all A wk in (r, set_worker i wk' t))"
| "handle_command A (CDeregister i) t =
     (case map_of (wt_workers t) i of
        None \<Rightarrow> (Inr (), t)
      | Some wk \<Rightarrow>
        let (r, wk') = flush_all A wk
        in (r, t\<lparr>wt_workers := AList.delete i (wt_workers t),
                 wt_closed := (i, wk_fs wk') # wt_closed t\<rparr>))"

text \<open>The timed flush: as many rounds as the queue has entries at the start.\<close>

fun flush_dirty_rounds :: "('s, 'b) arrow \<Rightarrow> nat \<Rightarrow> 'b wal_thread \<Rightarrow> 'b wal_thread" where
  "flush_dirty_rounds A 0 t = t"
| "flush_dirty_rounds A (Suc n) t =
     (case wt_dirty_queue t of
        [] \<Rightarrow> t
      | i # q \<Rightarrow>
        let t1 = t\<lparr>wt_dirty_queue := q\<rparr> in
        (case map_of (wt_workers t1) i of
           None \<Rightarrow> flush_dirty_rounds A n t1
         | Some wk \<Rightarrow>
           if \<not> wk_is_dirty wk then flush_dirty_rounds A n t1
           else
             let wk' = snd (flush_micro_batch A wk);
                 t2 = set_worker i wk' t1
             in flush_dirty_rounds A n
                  (if wk_is_dirty wk' then t2\<lparr>wt_dirty_queue := wt_dirty_queue t2 @ [i]\<rparr> else t2)))"

definition flush_dirty_queue :: "('s, 'b) arrow \<Rightarrow> 'b wal_thread \<Rightarrow> 'b wal_thread" where
  "flush_dirty_queue A t = flush_dirty_rounds A (length (wt_dirty_queue t)) t"

text \<open>One turn of the loop: a command or a tick. When the channel closes, every worker is flushed.\<close>

datatype 'b loop_event = Command "'b wal_command" | Tick

fun worker_loop_turn :: "('s, 'b) arrow \<Rightarrow> 'b loop_event \<Rightarrow> 'b wal_thread \<Rightarrow> 'b wal_thread" where
  "worker_loop_turn A (Command c) t = snd (handle_command A c t)"
| "worker_loop_turn A Tick t = flush_dirty_queue A t"

definition worker_loop_exit :: "('s, 'b) arrow \<Rightarrow> 'b wal_thread \<Rightarrow> 'b wal_thread" where
  "worker_loop_exit A t =
     t\<lparr>wt_workers := map (\<lambda>(i, wk). (i, snd (flush_all A wk))) (wt_workers t)\<rparr>"

definition worker_loop :: "('s, 'b) arrow \<Rightarrow> 'b loop_event list \<Rightarrow> 'b wal_thread \<Rightarrow> 'b wal_thread" where
  "worker_loop A evs t = worker_loop_exit A (fold (worker_loop_turn A) evs t)"

end
