(* ===== verification/Wal_Durable.thy ===== *)
theory Wal_Durable
  imports Wal_Writer
begin

text \<open>
  Durability of the WAL of a table, across segment rotation, micro-batching and I/O failures. The
  files of a table are described by a list of segment specifications (\<open>seg_spec\<close>); the log of the
  table is the concatenation of the logs of its segments. \<open>wal_inv\<close> is the invariant of a healthy
  segment writer and its files, \<open>dir_part\<close> the weaker one that remains after a failed operation.
  Both say how many entries of the log are durable; \<open>crash_replay\<close> turns that into what a replay
  returns after a crash.
\<close>

section \<open>Segments of a table\<close>

datatype ('s, 'b) seg_spec =
  Seg (seg_id: u64) (seg_now: u64) (seg_mid: u64) (seg_schema: 's)
    (seg_log: "'b log_entry list") (seg_closed: "u64 option")

definition open_bytes :: "('s, 'b) arrow \<Rightarrow> ('s, 'b) seg_spec \<Rightarrow> nat \<Rightarrow> bytes" where
  "open_bytes A g j = seg_bytes A (seg_now g) (seg_mid g) (seg_schema g) (take j (seg_log g))"

definition spec_bytes :: "('s, 'b) arrow \<Rightarrow> ('s, 'b) seg_spec \<Rightarrow> bytes" where
  "spec_bytes A g = (case seg_closed g of
       None \<Rightarrow> seg_bytes A (seg_now g) (seg_mid g) (seg_schema g) (seg_log g)
     | Some c \<Rightarrow> closed_bytes A (seg_now g) c (seg_mid g) (seg_schema g) (seg_log g))"

definition spec_ok :: "('s, 'b) arrow \<Rightarrow> ('s, 'b) seg_spec \<Rightarrow> bool" where
  "spec_ok A g \<longleftrightarrow> log_ok A (seg_schema g) (seg_log g)"

definition full_log :: "('s, 'b) seg_spec list \<Rightarrow> 'b log_entry list" where
  "full_log gs = concat (map seg_log gs)"

text \<open>A segment that is finished and durable.\<close>

definition sealed_file :: "('s, 'b) arrow \<Rightarrow> ('s, 'b) seg_spec \<Rightarrow> u64 \<times> seg_file \<Rightarrow> bool" where
  "sealed_file A g e \<longleftrightarrow> fst e = seg_id g \<and> spec_ok A g \<and> seg_closed g \<noteq> None \<and>
     file_data (snd e) = spec_bytes A g \<and> file_durable (snd e) = length (file_data (snd e))"

text \<open>A segment of which a first part is in the file; a file may also hold only part of a segment
  header.\<close>

definition part_file :: "('s, 'b) arrow \<Rightarrow> ('s, 'b) seg_spec \<Rightarrow> u64 \<times> seg_file \<Rightarrow> bool" where
  "part_file A g e \<longleftrightarrow> fst e = seg_id g \<and> file_durable (snd e) \<le> length (file_data (snd e)) \<and>
     (spec_ok A g \<and> (\<exists>N. file_data (snd e) = take N (spec_bytes A g)) \<or>
      seg_log g = [] \<and>
        (\<exists>N. file_data (snd e) = take N (segment_header_encode (new_v1 (seg_now g) (seg_mid g)))))"

text \<open>The first \<open>D\<close> entries of the log are durable.\<close>

definition durable_upto :: "('s, 'b) arrow \<Rightarrow> ('s, 'b) seg_spec list \<Rightarrow> ('s, 'b) seg_spec \<Rightarrow>
   seg_file \<Rightarrow> nat \<Rightarrow> bool" where
  "durable_upto A gs g f D \<longleftrightarrow>
     (\<exists>j \<le> length (seg_log g). D \<le> length (full_log gs) + j \<and>
        (j = 0 \<or> length (open_bytes A g j) \<le> file_durable f))"

definition dir_part :: "('s, 'b) arrow \<Rightarrow> ('s, 'b) seg_spec list \<Rightarrow> nat \<Rightarrow> (u64 \<times> seg_file) list \<Rightarrow> bool" where
  "dir_part A gs D dir \<longleftrightarrow> sorted_wrt (<) (map seg_id gs) \<and>
     (gs = [] \<and> dir = [] \<and> D = 0 \<or>
      (\<exists>gs0 g dir0 e. gs = gs0 @ [g] \<and> dir = dir0 @ [e] \<and> list_all2 (sealed_file A) gs0 dir0 \<and>
         part_file A g e \<and> durable_upto A gs0 g (snd e) D))"

definition wal_inv ::
  "('s, 'b) arrow \<Rightarrow> ('s, 'b) seg_spec list \<Rightarrow> nat \<Rightarrow> wal_segment_writer \<Rightarrow> table_fs \<Rightarrow> bool" where
  "wal_inv A gs D sw fs \<longleftrightarrow> sorted_wrt (<) (map seg_id gs) \<and>
     (case sg_active sw of
        None \<Rightarrow> list_all2 (sealed_file A) gs (tf_dir fs) \<and> D \<le> length (full_log gs) \<and>
          sg_file_id sw = (if gs = [] then 0 else seg_id (last gs))
      | Some w \<Rightarrow>
          \<exists>gs0 g dir0 f. gs = gs0 @ [g] \<and> tf_dir fs = dir0 @ [(sg_file_id sw, f)] \<and>
            list_all2 (sealed_file A) gs0 dir0 \<and> seg_id g = sg_file_id sw \<and> seg_closed g = None \<and>
            seg_repr A (seg_now g) (seg_mid g) (seg_schema g) (seg_log g) w f \<and>
            durable_upto A gs0 g f D)"

text \<open>A crash keeps of every file some prefix that contains its durable part.\<close>

definition crashed :: "(u64 \<times> seg_file) list \<Rightarrow> (u64 \<times> seg_file) list \<Rightarrow> bool" where
  "crashed dir dir' \<longleftrightarrow> list_all2 (\<lambda>(i, f) (i', f'). i' = i \<and>
     (\<exists>n. file_durable f \<le> n \<and> n \<le> length (file_data f) \<and> file_data f' = take n (file_data f))) dir dir'"

section \<open>Replay after a crash\<close>

lemma full_log_simps [simp]:
  "full_log [] = []" "full_log (g # gs) = seg_log g @ full_log gs" "full_log (gs @ hs) = full_log gs @ full_log hs"
  by (simp_all add: full_log_def)

lemma read_spec_take:
  assumes "spec_ok A g" and "n \<le> length (spec_bytes A g)"
  shows "\<exists>m \<le> length (seg_log g).
     read_segment_batches A (Some (take n (spec_bytes A g))) True = Inr (log_batches (take m (seg_log g))) \<and>
     (\<forall>j \<le> length (seg_log g). length (open_bytes A g j) \<le> n \<longrightarrow> j \<le> m)"
proof -
  let ?s = "seg_schema g" and ?es = "seg_log g"
  let ?b = "seg_bytes A (seg_now g) (seg_mid g) ?s ?es"
  have ok: "log_ok A ?s ?es" using assms(1) by (simp add: spec_ok_def)
  show ?thesis
  proof (cases "n \<le> length ?b")
    case True
    have "take n (spec_bytes A g) = take n ?b"
      using True by (auto simp: spec_bytes_def closed_bytes_def split: option.splits)
    then show ?thesis
      using read_segment_batches_take [OF ok True] survived_le [of A ?s ?es n] le_survived [of _ ?es A _ _ ?s n]
      by (intro exI [of _ "survived A ?s ?es n"]) (auto simp: open_bytes_def)
  next
    case False
    then obtain c where c: "seg_closed g = Some c"
      using assms(2) by (auto simp: spec_bytes_def split: option.splits)
    let ?t = "take (n - length ?b) (frame_bytes (footer_frame A c ?es))"
    have eq: "take n (spec_bytes A g) = ?b @ ?t"
      using False c by (simp add: spec_bytes_def closed_bytes_def)
    have "read_segment_batches A (Some (?b @ ?t)) True = Inr (log_batches ?es)"
    proof (cases "n - length ?b < length (frame_bytes (footer_frame A c ?es))")
      case True
      then have "torn A ?t"
        unfolding torn_def using read_frame_torn [OF footer_frame_wf True] by blast
      then show ?thesis by (rule read_segment_batches_log [OF ok])
    next
      case False
      then have "?b @ ?t = closed_bytes A (seg_now g) c (seg_mid g) ?s ?es"
        by (simp add: closed_bytes_def)
      then show ?thesis using read_closed [OF ok] by simp
    qed
    then show ?thesis using eq by (intro exI [of _ "length ?es"]) auto
  qed
qed

lemma read_bare_take:
  "read_segment_batches A (Some (take n (segment_header_encode (new_v1 now mid)))) True = Inr []"
proof (cases "n < SEGMENT_HEADER_SIZE")
  case True
  then show ?thesis by (simp add: read_segment_batches_def bail_def)
next
  case False
  then have "take n (segment_header_encode (new_v1 now mid)) = segment_header_encode (new_v1 now mid) @ []"
    by simp
  then show ?thesis
    by (simp only: read_segment_batches_def new_v1_decode option.case sum.case prod.case)
      (simp add: frame_loop_torn read_segment_stop_def)
qed

lemma part_replay:
  assumes "part_file A g (i, f)" and "file_durable f \<le> n" and "n \<le> length (file_data f)"
  shows "\<exists>m \<le> length (seg_log g).
     read_segment_batches A (Some (take n (file_data f))) True = Inr (log_batches (take m (seg_log g))) \<and>
     (\<forall>j \<le> length (seg_log g). length (open_bytes A g j) \<le> n \<longrightarrow> j \<le> m)"
  using assms(1) unfolding part_file_def
proof (elim conjE disjE exE)
  fix N
  assume ok: "spec_ok A g" and d: "file_data (snd (i, f)) = take N (spec_bytes A g)"
  then have "take n (file_data f) = take n (spec_bytes A g)" "n \<le> length (spec_bytes A g)"
    using assms(3) by (auto simp: min_def split: if_splits)
  then show ?thesis using read_spec_take [OF ok, of n] by simp
next
  fix N
  assume "seg_log g = []"
    and "file_data (snd (i, f)) = take N (segment_header_encode (new_v1 (seg_now g) (seg_mid g)))"
  then show ?thesis by (simp add: read_bare_take)
qed

lemma sealed_part: "sealed_file A g e \<Longrightarrow> part_file A g e"
  by (auto simp: sealed_file_def part_file_def intro!: exI [of _ "length (spec_bytes A g)"])

lemma sealed_replay:
  assumes "sealed_file A g (i, f)"
  shows "read_segment_batches A (Some (file_data f)) True = Inr (log_batches (seg_log g))"
  using assms read_closed [of A "seg_schema g" "seg_log g"]
  by (auto simp: sealed_file_def spec_ok_def spec_bytes_def)

text \<open>Replay over a directory whose ids are in order.\<close>

lemma replay_dir:
  assumes "sorted_wrt (<) (map fst (tf_dir fs))"
  shows "replay A fs = concat (map (\<lambda>(i, f).
     case read_segment_batches A (Some (file_data f)) True of Inr part \<Rightarrow> part | Inl _ \<Rightarrow> []) (tf_dir fs))"
proof -
  have "sorted (map fst (tf_dir fs))" "distinct (map fst (tf_dir fs))"
    using assms by (auto simp: strict_sorted_iff)
  then have "list_wal_file_ids fs = map fst (tf_dir fs)" "\<And>i f. (i, f) \<in> set (tf_dir fs) \<Longrightarrow>
      get_file i fs = Some f"
    by (auto simp: list_wal_file_ids_def sorted_sort_id get_file_def)
  then show ?thesis
    by (auto simp: replay_def comp_def split_beta intro!: arg_cong [of _ _ concat])
qed

lemma crashed_ids: "crashed dir dir' \<Longrightarrow> map fst dir' = map fst dir"
  unfolding crashed_def by (induction rule: list_all2_induct) auto

lemma sealed_ids: "list_all2 (sealed_file A) gs dir \<Longrightarrow> map fst dir = map seg_id gs"
  by (induction rule: list_all2_induct) (auto simp: sealed_file_def)

lemma sealed_crash_replay:
  "list_all2 (sealed_file A) gs dir \<Longrightarrow> crashed dir dir' \<Longrightarrow>
   concat (map (\<lambda>(i, f). case read_segment_batches A (Some (file_data f)) True of
      Inr part \<Rightarrow> part | Inl _ \<Rightarrow> []) dir') = log_batches (full_log gs)"
proof (induction gs arbitrary: dir dir')
  case Nil
  then show ?case by (simp add: crashed_def)
next
  case (Cons g gs)
  then obtain i f dir1 where dir: "dir = (i, f) # dir1" and g: "sealed_file A g (i, f)"
    and gs: "list_all2 (sealed_file A) gs dir1"
    by (auto simp: list_all2_Cons1)
  then obtain f' dir1' where dir': "dir' = (i, f') # dir1'" and c: "crashed dir1 dir1'"
    and f': "file_data f' = file_data f"
    using Cons.prems(2) by (auto simp: crashed_def list_all2_Cons1 sealed_file_def)
  show ?case using Cons.IH [OF gs c] sealed_replay [OF g] f' by (simp add: dir')
qed

text \<open>What replay returns after a crash.\<close>

lemma crash_replay:
  assumes "dir_part A gs D (tf_dir fs)" and "crashed (tf_dir fs) (tf_dir fs')"
  shows "\<exists>m. replay A fs' = log_batches (take m (full_log gs)) \<and> D \<le> m"
proof (cases "gs = []")
  case True
  then show ?thesis
    using assms by (auto simp: dir_part_def crashed_def replay_def list_wal_file_ids_def)
next
  case False
  then obtain gs0 g dir0 e where gs: "gs = gs0 @ [g]" and dir0: "tf_dir fs = dir0 @ [e]"
    and s: "list_all2 (sealed_file A) gs0 dir0" and p0: "part_file A g e"
    and dur0: "durable_upto A gs0 g (snd e) D"
    using assms(1) unfolding dir_part_def by blast
  obtain i f where e: "e = (i, f)" by fastforce
  note dir = dir0 [unfolded e] and p = p0 [unfolded e] and dur = dur0 [unfolded e snd_conv]
  obtain dir0' f' n where dir': "tf_dir fs' = dir0' @ [(i, f')]" and c: "crashed dir0 dir0'"
    and n: "file_durable f \<le> n" "n \<le> length (file_data f)" "file_data f' = take n (file_data f)"
    using assms(2) unfolding crashed_def dir by (auto simp: list_all2_append1 list_all2_Cons1)
  have "map fst (tf_dir fs') = map seg_id gs"
    using crashed_ids [OF assms(2)] sealed_ids [OF s] p by (simp add: gs dir part_file_def)
  then have "sorted_wrt (<) (map fst (tf_dir fs'))"
    using assms(1) by (simp add: dir_part_def)
  moreover obtain m where m: "m \<le> length (seg_log g)"
    "read_segment_batches A (Some (take n (file_data f))) True = Inr (log_batches (take m (seg_log g)))"
    "\<forall>j \<le> length (seg_log g). length (open_bytes A g j) \<le> n \<longrightarrow> j \<le> m"
    using part_replay [OF p n(1,2)] by blast
  ultimately have "replay A fs' = log_batches (take (length (full_log gs0) + m) (full_log gs))"
    using sealed_crash_replay [OF s c] n(3) by (simp add: replay_dir dir' gs)
  moreover have "D \<le> length (full_log gs0) + m"
    using dur m(3) n(1) unfolding durable_upto_def by (metis add_left_mono le0 order_trans)
  ultimately show ?thesis by blast
qed

section \<open>The segment writer keeps the invariant\<close>

lemma update_append: "i \<notin> fst ` set xs \<Longrightarrow> AList.update i v (xs @ ys) = xs @ AList.update i v ys"
  by (induction xs) auto

lemma update_last: "i \<notin> fst ` set xs \<Longrightarrow> AList.update i v (xs @ [(i, f)]) = xs @ [(i, v)]"
  by (simp add: update_append)

lemma update_new: "i \<notin> fst ` set xs \<Longrightarrow> AList.update i v xs = xs @ [(i, v)]"
  using update_append [of i xs v "[]"] by simp

lemma tick_simps [simp]:
  "tf_dir (tick fs) = tf_dir fs" "tf_dir (put_file i (Some f) fs) = AList.update i f (tf_dir fs)"
  "put_file i None fs = fs" "get_file i (tick fs) = get_file i fs"
  by (simp_all add: tick_def put_file_def get_file_def)

lemma last_id_fresh:
  assumes "sorted_wrt (<) (map seg_id (gs0 @ [g]))" and "list_all2 (sealed_file A) gs0 dir0"
  shows "seg_id g \<notin> fst ` set dir0"
proof -
  have "fst ` set dir0 = seg_id ` set gs0"
    using sealed_ids [OF assms(2)] by (metis image_set)
  then show ?thesis using assms(1) by (auto simp: sorted_wrt_append)
qed

text \<open>The active segment of a healthy writer.\<close>

lemma wal_inv_active:
  assumes "wal_inv A gs D sw fs" and "sg_active sw = Some w"
  obtains gs0 g dir0 f where "gs = gs0 @ [g]" and "tf_dir fs = dir0 @ [(sg_file_id sw, f)]"
    and "get_file (sg_file_id sw) fs = Some f"
    and "\<And>v fs1. tf_dir fs1 = tf_dir fs \<Longrightarrow>
           tf_dir (put_file (sg_file_id sw) (Some v) fs1) = dir0 @ [(sg_file_id sw, v)]"
    and "list_all2 (sealed_file A) gs0 dir0" and "seg_id g = sg_file_id sw" and "seg_closed g = None"
    and "seg_repr A (seg_now g) (seg_mid g) (seg_schema g) (seg_log g) w f"
    and "durable_upto A gs0 g f D" and "sorted_wrt (<) (map seg_id gs)"
proof -
  obtain gs0 g dir0 f where *: "gs = gs0 @ [g]" "tf_dir fs = dir0 @ [(sg_file_id sw, f)]"
    "list_all2 (sealed_file A) gs0 dir0" "seg_id g = sg_file_id sw" "seg_closed g = None"
    "seg_repr A (seg_now g) (seg_mid g) (seg_schema g) (seg_log g) w f" "durable_upto A gs0 g f D"
    "sorted_wrt (<) (map seg_id gs)"
    using assms by (auto simp: wal_inv_def)
  then have fresh: "sg_file_id sw \<notin> fst ` set dir0"
    using last_id_fresh [of gs0 g A dir0] by simp
  then have "map_of dir0 (sg_file_id sw) = None" by (simp add: map_of_eq_None_iff)
  then have "get_file (sg_file_id sw) fs = Some f"
    using *(2) by (simp add: get_file_def map_add_def)
  moreover have "tf_dir (put_file (sg_file_id sw) (Some v) fs1) = dir0 @ [(sg_file_id sw, v)]"
    if "tf_dir fs1 = tf_dir fs" for v fs1
    using that *(2) update_last [OF fresh] by simp
  ultimately show ?thesis using that * by blast
qed

lemma wal_inv_part: "wal_inv A gs D sw fs \<Longrightarrow> dir_part A gs D (tf_dir fs)"
proof (cases "sg_active sw")
  case (Some w)
  assume inv: "wal_inv A gs D sw fs"
  show ?thesis
    using inv Some
  proof (cases rule: wal_inv_active)
    case (1 gs0 g dir0 f)
    have "part_file A g (sg_file_id sw, f)"
      using 1 by (auto simp: part_file_def seg_repr_def spec_ok_def spec_bytes_def
          intro!: exI [of _ "length (file_data f)"])
    then show ?thesis using 1 by (auto simp: dir_part_def)
  qed
next
  case None
  assume inv: "wal_inv A gs D sw fs"
  show ?thesis
  proof (cases gs rule: rev_cases)
    case Nil
    then show ?thesis using inv None by (simp add: wal_inv_def dir_part_def)
  next
    case (snoc gs0 g)
    then obtain dir0 e where d: "tf_dir fs = dir0 @ [e]" "list_all2 (sealed_file A) gs0 dir0" "sealed_file A g e"
      using inv None by (auto simp: wal_inv_def list_all2_append1 list_all2_Cons1)
    have "length (open_bytes A g (length (seg_log g))) \<le> file_durable (snd e)"
      using d(3) by (auto simp: sealed_file_def open_bytes_def spec_bytes_def closed_bytes_def)
    then have "durable_upto A gs0 g (snd e) D"
      using inv None snoc by (auto simp: wal_inv_def durable_upto_def intro!: exI [of _ "length (seg_log g)"])
    then show ?thesis using inv None snoc d sealed_part [OF d(3)] by (auto simp: wal_inv_def dir_part_def)
  qed
qed

lemma durable_upto_extend:
  assumes "durable_upto A gs g f D" and "file_durable f \<le> file_durable f'"
    and "g' = Seg (seg_id g) (seg_now g) (seg_mid g) (seg_schema g) (seg_log g @ es) c"
  shows "durable_upto A gs g' f' D"
proof -
  obtain j where "j \<le> length (seg_log g)" "D \<le> length (full_log gs) + j"
    "j = 0 \<or> length (open_bytes A g j) \<le> file_durable f"
    using assms(1) by (auto simp: durable_upto_def)
  then show ?thesis
    unfolding durable_upto_def assms(3) using assms(2)
    by (intro exI [of _ j]) (auto simp: open_bytes_def)
qed

text \<open>Batches and schemas whose payload length survives the conversion to 32 bits.\<close>

definition batch_small :: "('s, 'b) arrow \<Rightarrow> 'b \<Rightarrow> bool" where
  "batch_small A b \<longleftrightarrow>
     (case ipc_write_batch A b of None \<Rightarrow> True | Some p \<Rightarrow> length p < 2 ^ 32) \<and>
     (case ipc_write_schema A (batch_schema A b) of None \<Rightarrow> True | Some p \<Rightarrow> length p < 2 ^ 32)"

text \<open>Replacing the active segment's file and log.\<close>

lemma wal_inv_replace:
  assumes "gs = gs0 @ [g]" and "list_all2 (sealed_file A) gs0 dir0" and "sorted_wrt (<) (map seg_id gs)"
    and "seg_id g = sg_file_id sw" and "seg_closed g = None" and "durable_upto A gs0 g f D"
    and "seg_repr A (seg_now g) (seg_mid g) (seg_schema g) (seg_log g @ es) w' f'"
    and "file_durable f \<le> file_durable f'" and "tf_dir fs' = dir0 @ [(sg_file_id sw, f')]"
    and "sg_active sw' = Some w'" and "sg_file_id sw' = sg_file_id sw"
  shows "\<exists>gs'. wal_inv A gs' D sw' fs' \<and> full_log gs' = full_log gs @ es"
proof -
  let ?g = "Seg (seg_id g) (seg_now g) (seg_mid g) (seg_schema g) (seg_log g @ es) None"
  have "durable_upto A gs0 ?g f' D"
    using durable_upto_extend [OF assms(6,8)] by blast
  then have "wal_inv A (gs0 @ [?g]) D sw' fs'"
    using assms unfolding wal_inv_def by auto
  then show ?thesis using assms(1) by (intro exI [of _ "gs0 @ [?g]"]) simp
qed

lemma dir_part_replace:
  assumes "gs = gs0 @ [g]" and "list_all2 (sealed_file A) gs0 dir0" and "sorted_wrt (<) (map seg_id gs)"
    and "seg_id g = i" and "durable_upto A gs0 g f D"
    and "file_durable f \<le> file_durable f'" and "dir' = dir0 @ [(i, f')]"
    and "g' = Seg (seg_id g) (seg_now g) (seg_mid g) (seg_schema g) (seg_log g @ es) c"
    and "spec_ok A g'" and "file_data f' = take N (spec_bytes A g')"
    and "file_durable f' \<le> length (file_data f')"
  shows "dir_part A (gs0 @ [g']) D dir'"
  using assms durable_upto_extend [OF assms(5,6,8)]
  by (auto simp: dir_part_def part_file_def)

text \<open>The outcome of a failed operation: a directory whose log lies between the old one and the
  attempted one, with nothing durable lost.\<close>

definition failed_between ::
  "('s, 'b) arrow \<Rightarrow> ('s, 'b) seg_spec list \<Rightarrow> nat \<Rightarrow> 'b log_entry list \<Rightarrow> (u64 \<times> seg_file) list \<Rightarrow> bool" where
  "failed_between A gs D es dir \<longleftrightarrow>
     (\<exists>gs'. dir_part A gs' D dir \<and> prefix (full_log gs) (full_log gs') \<and>
        prefix (full_log gs') (full_log gs @ es))"

lemma failed_same: "dir_part A gs D dir \<Longrightarrow> failed_between A gs D es dir"
  by (auto simp: failed_between_def)

lemma written_failed:
  assumes "written A (seg_now g) (seg_mid g) (seg_schema g) (seg_log g) e f f'"
    and "gs = gs0 @ [g]" and "list_all2 (sealed_file A) gs0 dir0" and "sorted_wrt (<) (map seg_id gs)"
    and "seg_id g = i" and "seg_closed g = None" and "durable_upto A gs0 g f D"
    and "dir' = dir0 @ [(i, f')]"
  shows "failed_between A gs D [e] dir'"
proof -
  obtain es' N where w: "log_ok A (seg_schema g) es'" "prefix (seg_log g) es'" "prefix es' (seg_log g @ [e])"
    "file_data f' = take N (seg_bytes A (seg_now g) (seg_mid g) (seg_schema g) es')"
    "file_durable f \<le> file_durable f'" "file_durable f' \<le> length (file_data f')"
    using assms(1) by (auto simp: written_def)
  obtain es where es: "es' = seg_log g @ es" using w(2) by (auto simp: prefix_def)
  let ?g = "Seg (seg_id g) (seg_now g) (seg_mid g) (seg_schema g) (seg_log g @ es) None"
  have "dir_part A (gs0 @ [?g]) D dir'"
    using w es assms by (intro dir_part_replace [of gs gs0 g A dir0 i f D f' dir' ?g es None N])
      (auto simp: spec_ok_def spec_bytes_def)
  then show ?thesis
    using w(3) es assms(2) unfolding failed_between_def
    by (intro exI [of _ "gs0 @ [?g]"]) (auto simp: prefix_def)
qed

lemma append_to_active_ok:
  assumes inv: "wal_inv A gs D sw fs" and active: "sg_active sw = Some w"
    and run: "append_to_active A b l sw fs = (Inr q, sw', fs')"
    and small: "batch_small A b" and len: "Suc (length (full_log gs)) < 2 ^ 64 - 1"
  shows "(\<exists>gs'. wal_inv A gs' D sw' fs' \<and> full_log gs' = full_log gs @ [LBatch l b]) \<and>
     sg_memtable_id sw' = sg_memtable_id sw \<and> sg_segment_max_bytes sw' = sg_segment_max_bytes sw"
  using inv active
proof (cases rule: wal_inv_active)
  case (1 gs0 g dir0 f)
  obtain k w' f' where ab: "append_batch A (io_now fs) b l (sg_sync_writes sw) w f = (Inr k, w', f')"
    and sw': "sw' = sw\<lparr>sg_active := Some w'\<rparr>" and fs': "fs' = put_file (sg_file_id sw) (Some f') (tick fs)"
    using run active 1(3) by (auto simp: append_to_active_def and_then_eq_Inr split: prod.splits)
  have "length (seg_log g) \<le> length (full_log gs)" using 1(1) by simp
  then have r: "seg_repr A (seg_now g) (seg_mid g) (seg_schema g) (seg_log g @ [LBatch l b]) w' f' \<and>
      file_durable f \<le> file_durable f'"
    using append_batch_ok [OF 1(8) ab] small len by (auto simp: batch_small_def)
  then show ?thesis
    using 1 sw' fs' wal_inv_replace [OF 1(1,5,10,6,7,9), of "[LBatch l b]" w' f' fs' sw'] by auto
qed

lemma append_to_active_err:
  assumes inv: "wal_inv A gs D sw fs" and active: "sg_active sw = Some w"
    and run: "append_to_active A b l sw fs = (Inl e, sw', fs')"
    and small: "batch_small A b" and len: "Suc (length (full_log gs)) < 2 ^ 64 - 1"
  shows "failed_between A gs D [LBatch l b] (tf_dir fs')"
  using inv active
proof (cases rule: wal_inv_active)
  case (1 gs0 g dir0 f)
  obtain k w' f' where ab: "append_batch A (io_now fs) b l (sg_sync_writes sw) w f = (Inl k, w', f')"
    and fs': "fs' = put_file (sg_file_id sw) (Some f') (tick fs)"
    using run active 1(3)
    by (auto simp: append_to_active_def and_then_def split: prod.splits sum.splits)
  have "length (seg_log g) \<le> length (full_log gs)" using 1(1) by simp
  then have "written A (seg_now g) (seg_mid g) (seg_schema g) (seg_log g) (LBatch l b) f f'"
    using append_batch_err [OF 1(8) ab] small len by (auto simp: batch_small_def)
  then show ?thesis
    using 1 fs' by (intro written_failed [of A g "LBatch l b" f f' gs gs0 dir0 "sg_file_id sw" D]) auto
qed

subsection \<open>Opening and finishing segments\<close>

lemma create_err:
  assumes "create_with_block_max A io now None mid s bm = (Inl e, fo)" and "arrow_ok A"
    and "case ipc_write_schema A s of None \<Rightarrow> True | Some p \<Rightarrow> length p < 2 ^ 32"
  shows "fo = None \<or> (\<exists>f. fo = Some f \<and> file_durable f = 0 \<and>
     (\<exists>N. file_data f = take N (segment_header_encode (new_v1 now mid)) \<or>
          log_ok A s [] \<and> file_data f = take N (seg_bytes A now mid s [])))"
proof (cases "\<not> open_ok io \<or> fails_before io SEGMENT_HEADER_SIZE \<or> ipc_write_schema A s = None")
  case True
  then show ?thesis
    using assms(1)
    by (auto simp: create_with_block_max_def Let_def encode_schema_ipc_def split: if_splits
        intro!: exI [of _ SEGMENT_HEADER_SIZE])
next
  case False
  then obtain p where p: "ipc_write_schema A s = Some p" and sp: "length p < 2 ^ 32"
    using assms(3) by auto
  let ?hdr = "segment_header_encode (new_v1 now mid)"
  let ?bm = "clamp_block_max bm"
  obtain io' r d where wf: "write_frame A io' RSchema PAYLOAD_FORMAT_ARROW_IPC SCHEMA_FRAME_SEQUENCE 0 p
      ?bm ?hdr = (r, d)" and fo: "fo = Some \<lparr>file_data = d, file_durable = 0\<rparr>" and r: "\<exists>e. r = Inl e"
    using assms(1) False p
    by (auto simp: create_with_block_max_def encode_schema_ipc_def Let_def and_then_def
        split: prod.splits sum.splits)
  obtain e' where "r = Inl e'" using r by blast
  note w = write_frame_err [OF wf [unfolded this] sp]
  show ?thesis
  proof (cases "d = ?hdr")
    case True
    then show ?thesis using fo by (auto intro!: exI [of _ SEGMENT_HEADER_SIZE])
  next
    case False
    then obtain k where k: "FRAME_HEADER_SIZE + length p \<le> ?bm"
      "d = ?hdr @ take k (frame_bytes (schema_frame A s))"
      using w p by (auto simp: schema_frame_def)
    then have "log_ok A s []"
      using assms(2) p clamp_block_max_bounds(2) [of bm] by (simp add: log_ok_def schema_ok_def)
    moreover have "d = take (SEGMENT_HEADER_SIZE + k) (seg_bytes A now mid s [])"
      using k(2) by (simp add: seg_bytes_def log_frames_def)
    ultimately show ?thesis using fo by auto
  qed
qed

lemma update_same: "map_of xs i = Some v \<Longrightarrow> AList.update i v xs = xs"
  by (induction xs) (auto split: if_splits)

lemma wal_inv_idle:
  assumes "wal_inv A gs D sw fs" and "sg_active sw = None"
  shows "sorted_wrt (<) (map seg_id gs)" and "list_all2 (sealed_file A) gs (tf_dir fs)"
    and "D \<le> length (full_log gs)" and "sg_file_id sw = (if gs = [] then 0 else seg_id (last gs))"
    and "map fst (tf_dir fs) = map seg_id gs"
  using assms by (auto simp: wal_inv_def dest: sealed_ids)

text \<open>An id at least as large as the writer's and without a file comes after all segments.\<close>

lemma fresh_last:
  assumes "wal_inv A gs D sw fs" and "sg_active sw = None"
    and "sg_file_id sw \<le> i" and "get_file i fs = None"
  shows "sorted_wrt (<) (map seg_id (gs @ [Seg i n m s es c]))" and "i \<notin> fst ` set (tf_dir fs)"
proof -
  note idle = wal_inv_idle [OF assms(1,2)]
  show new: "i \<notin> fst ` set (tf_dir fs)"
    using assms(4) by (simp add: get_file_def map_of_eq_None_iff)
  have "\<forall>g \<in> set gs. seg_id g < i"
  proof (cases gs rule: rev_cases)
    case (snoc gs0 g)
    have "seg_id g \<le> i" using assms(3) idle(4) snoc by simp
    moreover have "seg_id g \<in> fst ` set (tf_dir fs)"
      using idle(5) snoc by (metis image_set in_set_conv_decomp list.set_map map_append list.simps(9) append_Cons)
    ultimately have "seg_id g < i" using new by force
    then show ?thesis using idle(1) snoc by (auto simp: sorted_wrt_append)
  qed simp
  then show "sorted_wrt (<) (map seg_id (gs @ [Seg i n m s es c]))"
    using idle(1) by (auto simp: sorted_wrt_append)
qed

lemma open_segment_ok:
  assumes inv: "wal_inv A gs D sw fs" and idle: "sg_active sw = None" and le: "sg_file_id sw \<le> i"
    and run: "open_segment A i s sw fs = (Inr u, sw', fs')" and A: "arrow_ok A"
    and small: "case ipc_write_schema A s of None \<Rightarrow> True | Some p \<Rightarrow> length p < 2 ^ 32"
  shows "(\<exists>gs'. wal_inv A gs' D sw' fs' \<and> full_log gs' = full_log gs) \<and> sg_active sw' \<noteq> None \<and>
     sg_memtable_id sw' = sg_memtable_id sw \<and> sg_segment_max_bytes sw' = sg_segment_max_bytes sw"
proof -
  obtain w f where cr: "create_with_block_max A (io_now fs) (clock_now fs) (get_file i fs)
      (sg_memtable_id sw) s (sg_block_max_bytes sw) = (Inr w, Some f)"
    and sw': "sw' = sw\<lparr>sg_file_id := i, sg_active := Some w\<rparr>" and fs': "fs' = put_file i (Some f) (tick fs)"
    using run
    by (auto simp: open_segment_def create_with_block_max_def Let_def
        split: prod.splits sum.splits if_splits)
  have c: "seg_repr A (clock_now fs) (sg_memtable_id sw) s [] w f" "get_file i fs = None"
    using create_ok [OF cr A small] by auto
  let ?g = "Seg i (clock_now fs) (sg_memtable_id sw) s [] None"
  note fresh = fresh_last [OF inv idle le c(2)]
  have "durable_upto A gs ?g f D"
    using wal_inv_idle(3) [OF inv idle] by (auto simp: durable_upto_def)
  then have "wal_inv A (gs @ [?g]) D sw' fs'"
    using fresh(1) wal_inv_idle [OF inv idle] c(1) sw' fs' update_new [OF fresh(2)]
    by (auto simp: wal_inv_def)
  then show ?thesis using sw' by (auto intro!: exI [of _ "gs @ [?g]"])
qed

lemma open_segment_err:
  assumes inv: "wal_inv A gs D sw fs" and idle: "sg_active sw = None" and le: "sg_file_id sw \<le> i"
    and run: "open_segment A i s sw fs = (Inl e, sw', fs')" and A: "arrow_ok A"
    and small: "case ipc_write_schema A s of None \<Rightarrow> True | Some p \<Rightarrow> length p < 2 ^ 32"
  shows "failed_between A gs D es (tf_dir fs')"
proof -
  obtain fo e' where cr: "create_with_block_max A (io_now fs) (clock_now fs) (get_file i fs)
      (sg_memtable_id sw) s (sg_block_max_bytes sw) = (Inl e', fo)"
    and fs': "fs' = put_file i fo (tick fs)"
    using run by (auto simp: open_segment_def Let_def split: prod.splits sum.splits)
  note same = failed_same [OF wal_inv_part [OF inv], of es]
  show ?thesis
  proof (cases "get_file i fs")
    case (Some f)
    then have "fo = Some f" using cr by (simp add: create_with_block_max_def)
    then show ?thesis using same fs' Some by (simp add: update_same get_file_def)
  next
    case None
    let ?g = "Seg i (clock_now fs) (sg_memtable_id sw) s [] None"
    note fresh = fresh_last [OF inv idle le None]
    show ?thesis
    proof (cases fo)
      case None
      then show ?thesis using same fs' by simp
    next
      case (Some f)
      then have "part_file A ?g (i, f)"
        using create_err [OF cr [unfolded None] A small]
        by (auto simp: part_file_def spec_ok_def spec_bytes_def \<open>get_file i fs = None\<close>)
      moreover have "durable_upto A gs ?g f D"
        using wal_inv_idle(3) [OF inv idle] by (auto simp: durable_upto_def)
      ultimately have "dir_part A (gs @ [?g]) D (tf_dir fs')"
        using fresh wal_inv_idle [OF inv idle] fs' Some update_new [OF fresh(2)]
        by (auto simp: dir_part_def)
      then show ?thesis
        unfolding failed_between_def by (intro exI [of _ "gs @ [?g]"]) auto
    qed
  qed
qed

lemma finish_err:
  assumes "seg_repr A now mid s es w f" and "finish A io closed w f = (Inl e, f')"
  shows "file_durable f' = file_durable f \<and> file_durable f' \<le> length (file_data f') \<and>
     (\<exists>N. file_data f' = take N (closed_bytes A now closed mid s es))"
proof -
  let ?g = "footer_frame A closed es" and ?k = "1 + of_nat (length es) :: u64"
  have small: "length (snd ?g) < 2 ^ 32" by (simp add: footer_frame_def Let_def)
  obtain r d where wf: "write_frame A io RFooter 0 ?k 0 (snd ?g) (fw_block_max_bytes w) (file_data f) = (r, d)"
    by fastforce
  then have f': "file_data f' = d" "file_durable f' = file_durable f"
    using assms by (auto simp: finish_def seg_repr_def footer_frame_def Let_def seg_sync_def
        split: sum.splits if_splits)
  have "\<exists>k. d = file_data f @ take k (frame_bytes ?g)"
  proof (cases r)
    case (Inl e')
    then show ?thesis
      using write_frame_err [OF wf [unfolded Inl] small]
      by (auto simp: footer_frame_def Let_def intro: exI [of _ 0])
  next
    case (Inr u)
    have "d = file_data f @ take (length (frame_bytes ?g)) (frame_bytes ?g)"
      using write_frame_ok(1) [of A io RFooter 0 ?k 0 "snd ?g" "fw_block_max_bytes w" "file_data f" d] wf Inr small
      by (simp add: footer_frame_def Let_def)
    then show ?thesis by blast
  qed
  then obtain k where "file_data f' = take (length (seg_bytes A now mid s es) + k) (closed_bytes A now closed mid s es)"
    using f' assms(1) by (auto simp: seg_repr_def closed_bytes_def)
  moreover have "file_durable f' \<le> length (file_data f')"
    using \<open>\<exists>k. d = _\<close> f' assms(1) by (auto simp: seg_repr_def)
  ultimately show ?thesis using f' by blast
qed

lemma finish_active_ok:
  assumes inv: "wal_inv A gs D sw fs" and active: "sg_active sw = Some w"
    and run: "finish_active_segment A sw fs = (Inr u, sw', fs')"
  shows "(\<exists>gs'. wal_inv A gs' D sw' fs' \<and> full_log gs' = full_log gs) \<and> sw' = sw\<lparr>sg_active := None\<rparr>"
  using inv active
proof (cases rule: wal_inv_active)
  case (1 gs0 g dir0 f)
  obtain f' where fin: "finish A (io_now fs) (clock_now fs) w f = (Inr (), f')"
    and sw': "sw' = sw\<lparr>sg_active := None\<rparr>" and fs': "fs' = put_file (sg_file_id sw) (Some f') (tick fs)"
    using run active 1(3) by (auto simp: finish_active_segment_def split: prod.splits)
  let ?g = "Seg (seg_id g) (seg_now g) (seg_mid g) (seg_schema g) (seg_log g) (Some (clock_now fs))"
  have "sealed_file A ?g (sg_file_id sw, f')"
    using finish_closes [OF 1(8) fin] 1(6,8)
    by (auto simp: sealed_file_def spec_ok_def spec_bytes_def seg_repr_def)
  moreover have "D \<le> length (full_log (gs0 @ [?g]))"
    using 1(9) by (auto simp: durable_upto_def)
  ultimately have "wal_inv A (gs0 @ [?g]) D sw' fs'"
    using 1 sw' fs' by (auto simp: wal_inv_def list_all2_appendI)
  then show ?thesis using 1(1) sw' by (auto intro!: exI [of _ "gs0 @ [?g]"])
qed

lemma finish_active_err:
  assumes inv: "wal_inv A gs D sw fs" and active: "sg_active sw = Some w"
    and run: "finish_active_segment A sw fs = (Inl e, sw', fs')"
  shows "failed_between A gs D es (tf_dir fs')"
  using inv active
proof (cases rule: wal_inv_active)
  case (1 gs0 g dir0 f)
  obtain f' e' where fin: "finish A (io_now fs) (clock_now fs) w f = (Inl e', f')"
    and fs': "fs' = put_file (sg_file_id sw) (Some f') (tick fs)"
    using run active 1(3) by (auto simp: finish_active_segment_def split: prod.splits)
  let ?g = "Seg (seg_id g) (seg_now g) (seg_mid g) (seg_schema g) (seg_log g @ []) (Some (clock_now fs))"
  obtain N where "file_data f' = take N (spec_bytes A ?g)" "file_durable f' = file_durable f"
    "file_durable f' \<le> length (file_data f')"
    using finish_err [OF 1(8) fin] by (auto simp: spec_bytes_def)
  then have "dir_part A (gs0 @ [?g]) D (tf_dir fs')"
    using 1 fs' by (intro dir_part_replace [of gs gs0 g A dir0 "sg_file_id sw" f D f' _ ?g "[]" _ N])
      (auto simp: spec_ok_def seg_repr_def)
  then show ?thesis
    using 1(1) unfolding failed_between_def by (intro exI [of _ "gs0 @ [?g]"]) auto
qed

lemma segment_flush_ok:
  assumes inv: "wal_inv A gs D sw fs" and run: "segment_flush sw fs = (Inr u, fs')"
  shows "wal_inv A gs (length (full_log gs)) sw fs'"
proof (cases "sg_active sw")
  case None
  then show ?thesis using inv run by (auto simp: wal_inv_def segment_flush_def)
next
  case (Some w)
  show ?thesis
    using inv Some
  proof (cases rule: wal_inv_active)
    case (1 gs0 g dir0 f)
    let ?f = "f\<lparr>file_durable := length (file_data f)\<rparr>"
    have fs': "fs' = put_file (sg_file_id sw) (Some ?f) (tick fs)"
      using run Some 1(3) by (auto simp: segment_flush_def seg_sync_def split: if_splits)
    have "durable_upto A gs0 g ?f (length (full_log gs))"
      using 1(1,8) by (auto simp: durable_upto_def seg_repr_def open_bytes_def intro!: exI [of _ "length (seg_log g)"])
    then show ?thesis
      using 1 Some fs' by (auto simp: wal_inv_def seg_repr_def)
  qed
qed

lemma wal_inv_dir:
  assumes "tf_dir fs' = tf_dir fs"
  shows "wal_inv A gs D sw fs' = wal_inv A gs D sw fs"
  unfolding wal_inv_def assms by (rule refl)

lemma segment_flush_err:
  assumes inv: "wal_inv A gs D sw fs" and run: "segment_flush sw fs = (Inl e, fs')"
  shows "wal_inv A gs D sw fs'"
proof -
  have "tf_dir fs' = tf_dir fs"
    using run
    by (auto simp: segment_flush_def seg_sync_def update_same get_file_def split: option.splits if_splits)
  then show ?thesis using wal_inv_dir inv by metis
qed

subsection \<open>Appending a batch\<close>

lemma start_segment_ok:
  assumes "wal_inv A gs D sw fs" and "start_segment A s sw fs = (Inr u, sw', fs')" and "arrow_ok A"
    and "case ipc_write_schema A s of None \<Rightarrow> True | Some p \<Rightarrow> length p < 2 ^ 32"
  shows "(\<exists>gs'. wal_inv A gs' D sw' fs' \<and> full_log gs' = full_log gs) \<and> sg_active sw' \<noteq> None"
proof (cases "sg_active sw")
  case None
  have "sg_file_id sw \<le> max (sat_add (sg_file_id sw) 1) 1"
    using le_sat_add_one by (simp add: le_max_iff_disj)
  then show ?thesis
    using open_segment_ok [OF assms(1) None _ _ assms(3,4)] assms(2) None by (auto simp: start_segment_def)
next
  case (Some w)
  then show ?thesis using assms(1,2) by (auto simp: start_segment_def)
qed

lemma start_segment_err:
  assumes "wal_inv A gs D sw fs" and "start_segment A s sw fs = (Inl e, sw', fs')" and "arrow_ok A"
    and "case ipc_write_schema A s of None \<Rightarrow> True | Some p \<Rightarrow> length p < 2 ^ 32"
  shows "failed_between A gs D es (tf_dir fs')"
proof (cases "sg_active sw")
  case None
  have "sg_file_id sw \<le> max (sat_add (sg_file_id sw) 1) 1"
    using le_sat_add_one by (simp add: le_max_iff_disj)
  then show ?thesis
    using open_segment_err [OF assms(1) None _ _ assms(3,4)] assms(2) None by (auto simp: start_segment_def)
qed (use assms(2) in \<open>auto simp: start_segment_def\<close>)

lemma failed_between_cong: "full_log gs = full_log gs' \<Longrightarrow> failed_between A gs = failed_between A gs'"
  by (simp add: fun_eq_iff failed_between_def)

lemma hard_rotate_ok:
  assumes inv: "wal_inv A gs D sw fs" and active: "sg_active sw = Some w"
    and run: "hard_rotate_segment A s sw fs = (Inr u, sw', fs')" and A: "arrow_ok A"
    and small: "case ipc_write_schema A s of None \<Rightarrow> True | Some p \<Rightarrow> length p < 2 ^ 32"
  shows "(\<exists>gs'. wal_inv A gs' D sw' fs' \<and> full_log gs' = full_log gs) \<and> sg_active sw' \<noteq> None"
proof -
  obtain u sw1 fs1 where f: "finish_active_segment A sw fs = (Inr u, sw1, fs1)"
    and o: "open_segment A (sat_add (sg_file_id sw1) 1) s sw1 fs1 = (Inr (), sw', fs')"
    using run by (auto simp: hard_rotate_segment_def split: prod.splits sum.splits)
  obtain gs1 where gs1: "wal_inv A gs1 D sw1 fs1" "full_log gs1 = full_log gs" "sw1 = sw\<lparr>sg_active := None\<rparr>"
    using finish_active_ok [OF inv active f] by blast
  show ?thesis
    using open_segment_ok [OF gs1(1) _ le_sat_add_one o A small] gs1 by simp
qed

lemma hard_rotate_err:
  assumes inv: "wal_inv A gs D sw fs" and active: "sg_active sw = Some w"
    and run: "hard_rotate_segment A s sw fs = (Inl e, sw', fs')" and A: "arrow_ok A"
    and small: "case ipc_write_schema A s of None \<Rightarrow> True | Some p \<Rightarrow> length p < 2 ^ 32"
  shows "failed_between A gs D es (tf_dir fs')"
proof -
  obtain r sw1 fs1 where f: "finish_active_segment A sw fs = (r, sw1, fs1)" by (metis surj_pair)
  show ?thesis
  proof (cases r)
    case (Inl e')
    then show ?thesis
      using run f finish_active_err [OF inv active] by (auto simp: hard_rotate_segment_def)
  next
    case (Inr u)
    then obtain gs1 where gs1: "wal_inv A gs1 D sw1 fs1" "full_log gs1 = full_log gs" "sw1 = sw\<lparr>sg_active := None\<rparr>"
      using finish_active_ok [OF inv active] f by blast
    have "failed_between A gs1 D es (tf_dir fs')"
      using run f Inr gs1 by (intro open_segment_err [OF gs1(1) _ le_sat_add_one _ A small])
        (auto simp: hard_rotate_segment_def)
    then show ?thesis using failed_between_cong [OF gs1(2)] by simp
  qed
qed

lemma active_bytes_dir: "active_on_disk_bytes sw fs = (r, fs') \<Longrightarrow> tf_dir fs' = tf_dir fs"
  by (auto simp: active_on_disk_bytes_def split: option.splits)

text \<open>The two outcomes of an append, relative to the log before it.\<close>

definition append_outcome ::
  "('s, 'b) arrow \<Rightarrow> ('s, 'b) seg_spec list \<Rightarrow> nat \<Rightarrow> 'b log_entry \<Rightarrow>
   'a res \<Rightarrow> wal_segment_writer \<Rightarrow> table_fs \<Rightarrow> bool" where
  "append_outcome A gs D e r sw fs = (case r of
       Inr _ \<Rightarrow> \<exists>gs'. wal_inv A gs' D sw fs \<and> full_log gs' = full_log gs @ [e]
     | Inl _ \<Rightarrow> failed_between A gs D [e] (tf_dir fs))"

lemma append_outcome_cong:
  "full_log gs1 = full_log gs \<Longrightarrow> append_outcome A gs1 D e r sw fs = append_outcome A gs D e r sw fs"
  by (cases r) (simp_all add: append_outcome_def failed_between_def)

lemma append_outcome_failed:
  "failed_between A gs1 D [e] (tf_dir fs) \<Longrightarrow> full_log gs1 = full_log gs \<Longrightarrow>
   append_outcome A gs D e (Inl x) sw fs"
  by (simp add: append_outcome_def failed_between_def)

lemma append_to_active_outcome:
  assumes "wal_inv A gs D sw fs" and "sg_active sw \<noteq> None"
    and "append_to_active A b l sw fs = (r, sw', fs')" and "batch_small A b"
    and "Suc (length (full_log gs)) < 2 ^ 64 - 1"
  shows "append_outcome A gs D (LBatch l b) r sw' fs'"
proof -
  obtain w where w: "sg_active sw = Some w" using assms(2) by blast
  show ?thesis
  proof (cases r)
    case (Inl e)
    then show ?thesis
      using append_to_active_err [OF assms(1) w assms(3) [unfolded Inl] assms(4,5)]
      by (simp add: append_outcome_def)
  next
    case (Inr q)
    then show ?thesis
      using append_to_active_ok [OF assms(1) w assms(3) [unfolded Inr] assms(4,5)]
      by (simp add: append_outcome_def)
  qed
qed

text \<open>The batch goes to a segment that is opened, measured and possibly rotated first.\<close>

lemma segment_append_outcome:
  assumes inv: "wal_inv A gs D sw fs" and run: "segment_append A b l sw fs = (r, sw', fs')"
    and A: "arrow_ok A" and small: "batch_small A b" and len: "Suc (length (full_log gs)) < 2 ^ 64 - 1"
  shows "append_outcome A gs D (LBatch l b) r sw' fs'"
proof -
  let ?s = "batch_schema A b"
  have ss: "case ipc_write_schema A ?s of None \<Rightarrow> True | Some p \<Rightarrow> length p < 2 ^ 32"
    using small by (simp add: batch_small_def)
  obtain r1 sw1 fs1 where st: "start_segment A ?s sw fs = (r1, sw1, fs1)" by (metis surj_pair)
  show ?thesis
  proof (cases r1)
    case (Inl e)
    then have "r = Inl e" "fs' = fs1" using run st by (simp_all add: segment_append_def)
    then show ?thesis
      using append_outcome_failed [OF start_segment_err [OF inv st [unfolded Inl] A ss] refl] by simp
  next
    case r1: (Inr u)
    obtain gs1 where gs1: "wal_inv A gs1 D sw1 fs1" "full_log gs1 = full_log gs" "sg_active sw1 \<noteq> None"
      using start_segment_ok [OF inv st [unfolded r1] A ss] by blast
    obtain w where w: "sg_active sw1 = Some w" using gs1(3) by blast
    obtain r2 fs2 where ab: "active_on_disk_bytes sw1 fs1 = (r2, fs2)" by fastforce
    have gs2: "wal_inv A gs1 D sw1 fs2"
      using gs1(1) by (simp only: wal_inv_dir [OF active_bytes_dir [OF ab]])
    have len1: "Suc (length (full_log gs1)) < 2 ^ 64 - 1" using len unfolding gs1(2) .
    consider (flush_failed) e where "r2 = Inl e"
      | (rotate) n where "r2 = Inr n" "n \<ge> sg_segment_max_bytes sw1"
      | (stay) n where "r2 = Inr n" "\<not> n \<ge> sg_segment_max_bytes sw1"
      by (cases r2) auto
    then show ?thesis
    proof cases
      case flush_failed
      then have "r = Inl e" "fs' = fs2" using run st r1 ab by (simp_all add: segment_append_def)
      then show ?thesis
        using append_outcome_failed [OF failed_same [OF wal_inv_part [OF gs2]] gs1(2)] by simp
    next
      case rotate
      obtain r3 sw3 fs3 where rot: "hard_rotate_segment A ?s sw1 fs2 = (r3, sw3, fs3)" by (metis surj_pair)
      show ?thesis
      proof (cases r3)
        case (Inl e)
        then have "r = Inl e" "fs' = fs3" using run st r1 ab rotate rot by (simp_all add: segment_append_def)
        then show ?thesis
          using append_outcome_failed [OF hard_rotate_err [OF gs2 w rot [unfolded Inl] A ss] gs1(2)] by simp
      next
        case r3: (Inr u3)
        obtain gs3 where gs3: "wal_inv A gs3 D sw3 fs3" "full_log gs3 = full_log gs1" "sg_active sw3 \<noteq> None"
          using hard_rotate_ok [OF gs2 w rot [unfolded r3] A ss] by blast
        have "append_to_active A b l sw3 fs3 = (r, sw', fs')"
          using run st r1 ab rotate rot r3 by (simp add: segment_append_def)
        then have "append_outcome A gs3 D (LBatch l b) r sw' fs'"
          using append_to_active_outcome [OF gs3(1,3) _ small] len1 unfolding gs3(2) by blast
        then show ?thesis using append_outcome_cong gs3(2) gs1(2) by metis
      qed
    next
      case stay
      then have "append_to_active A b l sw1 fs2 = (r, sw', fs')"
        using run st r1 ab by (simp add: segment_append_def)
      then have "append_outcome A gs1 D (LBatch l b) r sw' fs'"
        using append_to_active_outcome [OF gs2 gs1(3) _ small len1] by blast
      then show ?thesis using append_outcome_cong gs1(2) by metis
    qed
  qed
qed

lemma dir_part_bound: "dir_part A gs D dir \<Longrightarrow> D \<le> length (full_log gs)"
  by (auto simp: dir_part_def durable_upto_def)

end
