(* ===== verification/Wal_Commit.thy ===== *)
theory Wal_Commit
  imports Wal_Durable
begin

text \<open>
  What the acknowledgements of a WAL worker mean (\<^verbatim>\<open>src/src/storage/src/wal/writer.rs\<close>). A healthy
  worker keeps everything it has written durable and the rest in its micro-batch (\<open>worker_ok\<close>); a
  worker whose circuit breaker has opened writes nothing more (\<open>worker_bad\<close>). \<open>worker_run\<close> executes a
  history of commands and records the submitted entries and how many of them an acknowledgement
  has confirmed.
\<close>

section \<open>States of a worker\<close>

definition pend :: "'b wal_worker \<Rightarrow> 'b log_entry list" where
  "pend wk = map (\<lambda>(b, l). LBatch l b) (mb_pending (wk_micro_batch wk))"

definition worker_ok :: "('s, 'b) arrow \<Rightarrow> 'b log_entry list \<Rightarrow> 'b wal_worker \<Rightarrow> bool" where
  "worker_ok A L wk \<longleftrightarrow> \<not> wk_faulted wk \<and> (wk_is_dirty wk \<longleftrightarrow> pend wk \<noteq> []) \<and>
     list_all (\<lambda>(b, l). batch_small A b) (mb_pending (wk_micro_batch wk)) \<and>
     (\<exists>gs. wal_inv A gs (length L) (wk_segment wk) (wk_fs wk) \<and> full_log gs = L)"

definition worker_bad :: "('s, 'b) arrow \<Rightarrow> 'b log_entry list \<Rightarrow> nat \<Rightarrow> 'b wal_worker \<Rightarrow> bool" where
  "worker_bad A S D wk \<longleftrightarrow> wk_faulted wk \<and> \<not> wk_is_dirty wk \<and>
     (\<exists>gs. dir_part A gs D (tf_dir (wk_fs wk)) \<and> prefix (full_log gs) S)"

section \<open>Histories\<close>

text \<open>\<open>OpTick\<close> is the timed flush of the worker thread.\<close>

datatype 'b worker_op = OpAppend 'b u64 bool | OpFlush | OpRotate u64 | OpEnd u64 u64 u64 | OpTick

fun worker_exec ::
  "('s, 'b) arrow \<Rightarrow> 'b worker_op \<Rightarrow> 'b wal_worker \<times> wal_backlog_budget
     \<Rightarrow> unit res \<times> 'b wal_worker \<times> wal_backlog_budget" where
  "worker_exec A (OpAppend b l force) (wk, gb) = worker_append A b l force wk gb"
| "worker_exec A OpFlush (wk, gb) = (let (r, wk') = flush_all A wk in (r, wk', gb))"
| "worker_exec A (OpRotate m) (wk, gb) = (let (r, wk') = worker_rotate A m wk in (r, wk', gb))"
| "worker_exec A (OpEnd l c n) (wk, gb) = (let (r, wk') = worker_memtable_end A l c n wk in (r, wk', gb))"
| "worker_exec A OpTick (wk, gb) = (let (r, wk') = flush_micro_batch A wk in (r, wk', gb))"

text \<open>What a command submits: nothing when the worker is already faulted, and a memtable-end marker
  only when it is acknowledged.\<close>

fun submits :: "'b worker_op \<Rightarrow> bool \<Rightarrow> unit res \<Rightarrow> 'b log_entry list" where
  "submits (OpAppend b l force) faulted r = (if faulted then [] else [LBatch l b])"
| "submits (OpEnd l c n) faulted r = (if is_ok r then [LEnd l c n] else [])"
| "submits _ faulted r = []"

text \<open>The commands whose acknowledgement confirms everything submitted so far.\<close>

fun confirms :: "'b worker_op \<Rightarrow> bool" where
  "confirms (OpAppend b l force) = force"
| "confirms _ = True"

text \<open>A memtable-end whose own write or sync failed: the circuit breaker stays closed.\<close>

fun end_failed :: "'b worker_op \<Rightarrow> unit res \<Rightarrow> 'b wal_worker \<Rightarrow> bool" where
  "end_failed (OpEnd l c n) r wk' \<longleftrightarrow> \<not> is_ok r \<and> \<not> wk_faulted wk' \<and> sg_active (wk_segment wk') \<noteq> None"
| "end_failed _ r wk' \<longleftrightarrow> False"

text \<open>Worker, submitted entries, number of confirmed entries, and whether a memtable-end failed.\<close>

fun worker_run ::
  "('s, 'b) arrow \<Rightarrow> 'b worker_op list \<Rightarrow> 'b wal_worker \<times> wal_backlog_budget \<Rightarrow>
   'b log_entry list \<Rightarrow> nat \<Rightarrow> bool \<Rightarrow> 'b wal_worker \<times> 'b log_entry list \<times> nat \<times> bool" where
  "worker_run A [] st S C bad = (fst st, S, C, bad)"
| "worker_run A (x # xs) st S C bad =
     (let (r, st') = worker_exec A x st;
          S' = S @ submits x (wk_faulted (fst st)) r;
          C' = (if is_ok r \<and> confirms x then length S' else C)
      in worker_run A xs st' S' C' (bad \<or> end_failed x r (fst st')))"

fun wop_small :: "('s, 'b) arrow \<Rightarrow> 'b worker_op \<Rightarrow> bool" where
  "wop_small A (OpAppend b l force) = batch_small A b"
| "wop_small A _ = True"

section \<open>Flushing\<close>

lemma failed_between_mono:
  "failed_between A gs D es dir \<Longrightarrow> prefix es es' \<Longrightarrow> failed_between A gs D es' dir"
  unfolding failed_between_def by (meson prefix_order.trans same_prefix_prefix)

lemma append_all_outcome:
  assumes "arrow_ok A"
  shows "\<lbrakk>wal_inv A gs D (wk_segment wk) (wk_fs wk); append_all A ps wk = (r, wk');
    list_all (\<lambda>(b, l). batch_small A b) ps; length (full_log gs) + length ps < 2 ^ 64 - 1\<rbrakk> \<Longrightarrow>
    (case r of
       Inr _ \<Rightarrow> \<exists>gs'. wal_inv A gs' D (wk_segment wk') (wk_fs wk') \<and>
         full_log gs' = full_log gs @ map (\<lambda>(b, l). LBatch l b) ps
     | Inl _ \<Rightarrow> failed_between A gs D (map (\<lambda>(b, l). LBatch l b) ps) (tf_dir (wk_fs wk'))) \<and>
    wk_micro_batch wk' = wk_micro_batch wk \<and> wk_faulted wk' = wk_faulted wk \<and>
    wk_is_dirty wk' = wk_is_dirty wk"
proof (induction ps arbitrary: gs wk)
  case (Cons x ps)
  obtain b l where x: "x = (b, l)" by fastforce
  obtain r1 sw fs where ap: "segment_append A b l (wk_segment wk) (wk_fs wk) = (r1, sw, fs)"
    by (metis surj_pair)
  have out: "append_outcome A gs D (LBatch l b) r1 sw fs"
    using segment_append_outcome [OF Cons.prems(1) ap assms] Cons.prems(3,4) x by auto
  show ?case
  proof (cases r1)
    case (Inl e)
    then have "r = Inl e" "wk' = wk\<lparr>wk_segment := sw, wk_fs := fs\<rparr>"
      using Cons.prems(2) ap x by auto
    moreover have "failed_between A gs D (LBatch l b # map (\<lambda>(b, l). LBatch l b) ps) (tf_dir fs)"
      using out Inl failed_between_mono [of A gs D "[LBatch l b]" "tf_dir fs"] by (simp add: append_outcome_def)
    ultimately show ?thesis using x by simp
  next
    case (Inr q)
    obtain gs1 where gs1: "wal_inv A gs1 D sw fs" "full_log gs1 = full_log gs @ [LBatch l b]"
      using out Inr by (auto simp: append_outcome_def)
    obtain wk1 where run: "append_all A ps wk1 = (r, wk')" and wk1: "wk_segment wk1 = sw" "wk_fs wk1 = fs"
      "wk_micro_batch wk1 = wk_micro_batch wk" "wk_faulted wk1 = wk_faulted wk" "wk_is_dirty wk1 = wk_is_dirty wk"
      using Cons.prems(2) ap x Inr by (cases q) auto
    have "length (full_log gs1) + length ps < 2 ^ 64 - 1" using gs1(2) Cons.prems(4) by simp
    note IH = Cons.IH [OF _ run _ this, unfolded wk1, OF gs1(1)]
    show ?thesis
      using IH Cons.prems(3) gs1(2) x unfolding failed_between_def
      by (cases r) (auto simp: prefix_def)
  qed
qed auto

lemma flush_micro_batch_outcome:
  assumes ok: "worker_ok A L wk" and run: "flush_micro_batch A wk = (r, wk')" and A: "arrow_ok A"
    and len: "length L + length (pend wk) < 2 ^ 64 - 1"
  shows "case r of
      Inr _ \<Rightarrow> worker_ok A (L @ pend wk) wk' \<and> pend wk' = []
    | Inl _ \<Rightarrow> worker_bad A (L @ pend wk) (length L) wk'"
proof (cases "wk_is_dirty wk")
  case False
  then show ?thesis
    using ok run by (auto simp: flush_micro_batch_def health_check_def worker_ok_def pend_def)
next
  case True
  let ?ps = "mb_pending (wk_micro_batch wk)" and ?mb = "snd (drain (wk_micro_batch wk))"
  have healthy: "\<not> wk_faulted wk" and ne: "?ps \<noteq> []" using ok True by (auto simp: worker_ok_def pend_def)
  obtain gs where gs: "wal_inv A gs (length L) (wk_segment wk) (wk_fs wk)" "full_log gs = L"
    using ok by (auto simp: worker_ok_def)
  obtain r1 wk1 where ap: "append_all A ?ps (wk\<lparr>wk_micro_batch := ?mb\<rparr>) = (r1, wk1)" by fastforce
  have out: "(case r1 of
       Inr _ \<Rightarrow> \<exists>gs'. wal_inv A gs' (length L) (wk_segment wk1) (wk_fs wk1) \<and> full_log gs' = L @ pend wk
     | Inl _ \<Rightarrow> failed_between A gs (length L) (pend wk) (tf_dir (wk_fs wk1)))"
    and wk1: "wk_micro_batch wk1 = ?mb" "\<not> wk_faulted wk1"
    using append_all_outcome [OF A _ ap, of gs "length L"] gs ok len healthy
    by (cases r1; auto simp: worker_ok_def pend_def)+
  have mb: "mb_pending ?mb = []" by (simp add: drain_def)
  show ?thesis
  proof (cases r1)
    case (Inl e)
    then have "r = Inl e" "wk' = trip_fault wk1"
      using run True ne healthy ap by (auto simp: flush_micro_batch_def health_check_def drain_def Let_def)
    moreover obtain gs' where "dir_part A gs' (length L) (tf_dir (wk_fs wk1))" "prefix (full_log gs') (L @ pend wk)"
      using out Inl gs(2) by (auto simp: failed_between_def)
    ultimately show ?thesis by (auto simp: worker_bad_def trip_fault_def)
  next
    case (Inr u)
    obtain gs1 where gs1: "wal_inv A gs1 (length L) (wk_segment wk1) (wk_fs wk1)" "full_log gs1 = L @ pend wk"
      using out Inr by auto
    obtain r2 fs2 where fl: "segment_flush (wk_segment wk1) (wk_fs wk1) = (r2, fs2)" by fastforce
    show ?thesis
    proof (cases r2)
      case (Inl e)
      then have "r = Inl e" "wk' = trip_fault (wk1\<lparr>wk_fs := fs2\<rparr>)"
        using run True ne healthy ap Inr fl
        by (auto simp: flush_micro_batch_def health_check_def drain_def Let_def flush_segment_def)
      then show ?thesis
        using wal_inv_part [OF segment_flush_err [OF gs1(1) fl [unfolded Inl]]] gs1(2)
        by (auto simp: worker_bad_def trip_fault_def)
    next
      case r2: (Inr u2)
      then have "r = Inr ()" "wk' = wk1\<lparr>wk_fs := fs2, wk_is_dirty := False\<rparr>"
        using run True ne healthy ap Inr fl
        by (auto simp: flush_micro_batch_def health_check_def drain_def Let_def flush_segment_def)
      then show ?thesis
        using segment_flush_ok [OF gs1(1) fl [unfolded r2]] gs1(2) wk1 mb
        by (auto simp: worker_ok_def pend_def)
    qed
  qed
qed

section \<open>Every command keeps the invariant\<close>

definition run_inv :: "('s, 'b) arrow \<Rightarrow> 'b log_entry list \<Rightarrow> nat \<Rightarrow> 'b wal_worker \<Rightarrow> bool" where
  "run_inv A S C wk \<longleftrightarrow>
     (\<exists>L. worker_ok A L wk \<and> S = L @ pend wk \<and> C \<le> length L) \<or>
     (\<exists>D. worker_bad A S D wk \<and> C \<le> D)"

lemma run_inv_okI: "worker_ok A L wk \<Longrightarrow> S = L @ pend wk \<Longrightarrow> C \<le> length L \<Longrightarrow> run_inv A S C wk"
  by (auto simp: run_inv_def)

lemma run_inv_badI: "worker_bad A S D wk \<Longrightarrow> C \<le> D \<Longrightarrow> run_inv A S C wk"
  by (auto simp: run_inv_def)

text \<open>An opened circuit breaker rejects every command and leaves the files alone.\<close>

lemma faulted_flush: "wk_faulted wk \<Longrightarrow> flush_micro_batch A wk = (Inl (Storage ''WAL worker faulted after I/O error''), wk)"
  by (simp add: flush_micro_batch_def health_check_def)

lemma bad_exec:
  assumes "wk_faulted wk" and "worker_exec A x (wk, gb) = (r, wk', gb')"
  shows "\<not> is_ok r \<and> wk_fs wk' = wk_fs wk \<and> wk_faulted wk' \<and> wk_is_dirty wk' = wk_is_dirty wk"
  using assms faulted_flush [OF assms(1), of A]
  by (cases x) (auto simp: worker_append_def health_check_def flush_all_def worker_rotate_def
      worker_memtable_end_def Let_def split: prod.splits)

lemma bad_step:
  assumes "worker_bad A S D wk" and "worker_exec A x (wk, gb) = (r, wk', gb')"
  shows "worker_bad A S D wk' \<and> \<not> is_ok r \<and> submits x (wk_faulted wk) r = []"
  using assms bad_exec [OF _ assms(2)] by (cases x) (auto simp: worker_bad_def)

text \<open>The memtable id plays no part in the contents of the files.\<close>

lemma wal_inv_rotate:
  "wal_inv A gs D sw fs \<Longrightarrow> wal_inv A gs D (rotate_memtable m sw) fs"
  by (auto simp: wal_inv_def rotate_memtable_def set_memtable_id_def seg_repr_def split: option.splits)

lemma append_step:
  assumes ok: "worker_ok A L wk" and run: "worker_append A b l force wk gb = (r, wk', gb')"
    and A: "arrow_ok A" and small: "batch_small A b" and len: "length L + length (pend wk) + 1 < 2 ^ 64 - 1"
    and C: "C \<le> length L"
  shows "run_inv A (L @ pend wk @ [LBatch l b])
    (if is_ok r \<and> force then length L + length (pend wk) + 1 else C) wk'"
proof -
  obtain gb1 tb where rel: "backlog_release (wal_batch_bytes A b) (gb, wk_table_backlog wk) = (gb1, tb)"
    by fastforce
  let ?wk = "wk\<lparr>wk_table_backlog := tb, wk_micro_batch := micro_batch_push A b l (wk_micro_batch wk),
      wk_is_dirty := True\<rparr>"
  have pend: "pend ?wk = pend wk @ [LBatch l b]"
    by (simp add: pend_def micro_batch_push_def)
  have ok2: "worker_ok A L ?wk"
    using ok small pend by (auto simp: worker_ok_def micro_batch_push_def)
  have healthy: "\<not> wk_faulted wk" using ok by (simp add: worker_ok_def)
  show ?thesis
  proof (cases "force \<or> should_flush (wk_micro_batch ?wk)")
    case False
    then have "r = Inr ()" "wk' = ?wk"
      using run rel healthy by (auto simp: worker_append_def health_check_def Let_def)
    then show ?thesis using ok2 pend C False by (intro run_inv_okI [of A L]) auto
  next
    case True
    then have fl: "flush_micro_batch A ?wk = (r, wk')"
      using run rel healthy by (auto simp: worker_append_def health_check_def Let_def split: prod.splits)
    have "length L + length (pend ?wk) < 2 ^ 64 - 1" using len pend by simp
    note out = flush_micro_batch_outcome [OF ok2 fl A this]
    show ?thesis
    proof (cases r)
      case (Inl e)
      then show ?thesis using out pend C by (intro run_inv_badI [of A _ "length L"]) auto
    next
      case (Inr u)
      then show ?thesis
        using out pend C by (intro run_inv_okI [of A "L @ pend wk @ [LBatch l b]"]) auto
    qed
  qed
qed

lemma tick_step:
  assumes ok: "worker_ok A L wk" and run: "flush_micro_batch A wk = (r, wk')" and A: "arrow_ok A"
    and len: "length L + length (pend wk) < 2 ^ 64 - 1" and C: "C \<le> length L"
  shows "run_inv A (L @ pend wk) (if is_ok r then length L + length (pend wk) else C) wk'"
  using flush_micro_batch_outcome [OF ok run A len] C
  by (cases r) (auto intro: run_inv_badI [of A _ "length L"] run_inv_okI [of A "L @ pend wk"])

lemma flush_all_step:
  assumes ok: "worker_ok A L wk" and run: "flush_all A wk = (r, wk')" and A: "arrow_ok A"
    and len: "length L + length (pend wk) < 2 ^ 64 - 1" and C: "C \<le> length L"
  shows "run_inv A (L @ pend wk) (if is_ok r then length L + length (pend wk) else C) wk'"
proof -
  obtain r1 wk1 where fl: "flush_micro_batch A wk = (r1, wk1)" by fastforce
  note out = flush_micro_batch_outcome [OF ok fl A len]
  show ?thesis
  proof (cases r1)
    case (Inl e)
    then have "r = Inl e" "wk' = wk1" using run fl by (simp_all add: flush_all_def)
    then show ?thesis using out Inl C by (intro run_inv_badI [of A _ "length L"]) auto
  next
    case (Inr u)
    let ?L = "L @ pend wk"
    have ok1: "worker_ok A ?L wk1" "pend wk1 = []" using out Inr by auto
    obtain gs where gs: "wal_inv A gs (length ?L) (wk_segment wk1) (wk_fs wk1)" "full_log gs = ?L"
      using ok1(1) by (auto simp: worker_ok_def)
    obtain r2 fs2 where sf: "segment_flush (wk_segment wk1) (wk_fs wk1) = (r2, fs2)" by fastforce
    show ?thesis
    proof (cases r2)
      case (Inl e)
      then have "r = Inl e" "wk' = trip_fault (wk1\<lparr>wk_fs := fs2\<rparr>)"
        using run fl Inr sf by (simp_all add: flush_all_def flush_segment_def)
      then show ?thesis
        using wal_inv_part [OF segment_flush_err [OF gs(1) sf [unfolded Inl]]] gs(2) C
        by (intro run_inv_badI [of A _ "length ?L"]) (auto simp: worker_bad_def trip_fault_def)
    next
      case r2: (Inr u2)
      then have "r = Inr ()" "wk' = wk1\<lparr>wk_fs := fs2\<rparr>"
        using run fl Inr sf by (simp_all add: flush_all_def flush_segment_def)
      then show ?thesis
        using segment_flush_ok [OF gs(1) sf [unfolded r2]] gs(2) ok1
        by (intro run_inv_okI [of A ?L]) (auto simp: worker_ok_def pend_def)
    qed
  qed
qed

lemma pend_new [simp]: "pend (wk\<lparr>wk_micro_batch := micro_batch_new n, wk_is_dirty := d\<rparr>) = []"
  by (simp add: pend_def micro_batch_new_def)

lemma rotate_step:
  assumes ok: "worker_ok A L wk" and run: "worker_rotate A m wk = (r, wk')" and A: "arrow_ok A"
    and len: "length L + length (pend wk) < 2 ^ 64 - 1" and C: "C \<le> length L"
  shows "run_inv A (L @ pend wk) (if is_ok r then length L + length (pend wk) else C) wk'"
proof -
  obtain r1 wk1 where fl: "flush_micro_batch A wk = (r1, wk1)" by fastforce
  note out = flush_micro_batch_outcome [OF ok fl A len]
  show ?thesis
  proof (cases r1)
    case (Inl e)
    then have "r = Inl e" "wk' = wk1" using run fl by (simp_all add: worker_rotate_def)
    then show ?thesis using out Inl C by (intro run_inv_badI [of A _ "length L"]) auto
  next
    case (Inr u)
    then have "r = Inr ()" and wk': "wk' = wk1\<lparr>wk_segment := rotate_memtable m (wk_segment wk1),
        wk_micro_batch := micro_batch_new (wk_micro_batch_max_bytes wk1), wk_is_dirty := False\<rparr>"
      using run fl by (simp_all add: worker_rotate_def)
    moreover have "worker_ok A (L @ pend wk) wk' \<and> pend wk' = []"
      using out Inr wk' wal_inv_rotate by (fastforce simp: worker_ok_def pend_def micro_batch_new_def)
    ultimately show ?thesis by (intro run_inv_okI [of A "L @ pend wk"]) auto
  qed
qed

text \<open>A synced append to the active segment leaves the whole log durable.\<close>

lemma wal_inv_synced:
  assumes "gs = gs0 @ [g]" and "list_all2 (sealed_file A) gs0 dir0" and "sorted_wrt (<) (map seg_id gs)"
    and "seg_id g = sg_file_id sw" and "seg_closed g = None"
    and "seg_repr A (seg_now g) (seg_mid g) (seg_schema g) (seg_log g @ es) w' f'"
    and "file_durable f' = length (file_data f')" and "tf_dir fs' = dir0 @ [(sg_file_id sw, f')]"
    and "sg_active sw' = Some w'" and "sg_file_id sw' = sg_file_id sw"
  shows "\<exists>gs'. wal_inv A gs' (length (full_log gs @ es)) sw' fs' \<and> full_log gs' = full_log gs @ es"
proof -
  let ?g = "Seg (seg_id g) (seg_now g) (seg_mid g) (seg_schema g) (seg_log g @ es) None"
  have "durable_upto A gs0 ?g f' (length (full_log gs @ es))"
    using assms(1,6,7)
    by (auto simp: durable_upto_def open_bytes_def seg_repr_def intro!: exI [of _ "length (seg_log g @ es)"])
  then have "wal_inv A (gs0 @ [?g]) (length (full_log gs @ es)) sw' fs'"
    using assms unfolding wal_inv_def by auto
  then show ?thesis using assms(1) by (intro exI [of _ "gs0 @ [?g]"]) simp
qed

lemma end_step:
  assumes ok: "worker_ok A L wk" and run: "worker_memtable_end A l c n wk = (r, wk')" and A: "arrow_ok A"
    and len: "length L + length (pend wk) + 1 < 2 ^ 64 - 1" and C: "C \<le> length L"
    and good: "\<not> end_failed (OpEnd l c n) r wk'"
  shows "run_inv A (L @ pend wk @ (if is_ok r then [LEnd l c n] else []))
    (if is_ok r then length L + length (pend wk) + 1 else C) wk'"
proof -
  let ?L = "L @ pend wk"
  obtain r1 wk1 where fl: "flush_micro_batch A wk = (r1, wk1)" by fastforce
  have "length L + length (pend wk) < 2 ^ 64 - 1" using len by simp
  note out = flush_micro_batch_outcome [OF ok fl A this]
  show ?thesis
  proof (cases r1)
    case (Inl e)
    then have "r = Inl e" "wk' = wk1" using run fl by (simp_all add: worker_memtable_end_def)
    then show ?thesis using out Inl C by (intro run_inv_badI [of A _ "length L"]) auto
  next
    case (Inr u)
    then have ok1: "worker_ok A ?L wk1" "pend wk1 = []" using out by auto
    let ?sw = "wk_segment wk1" and ?fs = "wk_fs wk1"
    obtain gs where gs: "wal_inv A gs (length ?L) ?sw ?fs" "full_log gs = ?L"
      using ok1(1) by (auto simp: worker_ok_def)
    show ?thesis
    proof (cases "sg_active ?sw")
      case None
      then have "\<not> is_ok r" "wk' = wk1"
        using run fl Inr by (auto simp: worker_memtable_end_def Let_def)
      then show ?thesis using ok1 C by (intro run_inv_okI [of A ?L]) auto
    next
      case (Some w)
      show ?thesis
        using gs(1) Some
      proof (cases rule: wal_inv_active)
        case (1 gs0 g dir0 f)
        obtain r2 w' f' where ae: "append_memtable_end A (io_now ?fs) l c n w f = (r2, w', f')"
          by (metis surj_pair)
        let ?wk2 = "wk1\<lparr>wk_segment := ?sw\<lparr>sg_active := Some w'\<rparr>,
            wk_fs := put_file (sg_file_id ?sw) (Some f') (tick ?fs)\<rparr>"
        show ?thesis
        proof (cases r2)
          case (Inl e)
          then have "r = Inl e" "wk' = ?wk2"
            using run fl Inr Some 1(3) ae by (simp_all add: worker_memtable_end_def Let_def)
          then show ?thesis using good ok1(1) by (simp add: worker_ok_def)
        next
          case r2: (Inr u2)
          then have r: "r = Inr ()" and wk': "wk' = ?wk2\<lparr>wk_segment := rotate_memtable n (wk_segment ?wk2),
              wk_micro_batch := micro_batch_new (wk_micro_batch_max_bytes wk1), wk_is_dirty := False\<rparr>"
            using run fl Inr Some 1(3) ae by (simp_all add: worker_memtable_end_def Let_def)
          have "length (seg_log g) \<le> length (full_log gs)" using 1(1) by simp
          then have "Suc (length (seg_log g)) < 2 ^ 64 - 1" using len unfolding gs(2) by simp
          then have "seg_repr A (seg_now g) (seg_mid g) (seg_schema g) (seg_log g @ [LEnd l c n]) w' f'"
            "file_durable f' = length (file_data f')"
            using append_memtable_end_ok [OF 1(8)] ae r2 by auto
          then obtain gs' where "wal_inv A gs' (length (?L @ [LEnd l c n])) (wk_segment ?wk2) (wk_fs ?wk2)"
            "full_log gs' = ?L @ [LEnd l c n]"
            using wal_inv_synced [OF 1(1,5,10,6,7), of "[LEnd l c n]" w' f' "wk_fs ?wk2" "wk_segment ?wk2"]
              1(4) [of "tick ?fs" f'] gs(2) by auto
          then have "worker_ok A (?L @ [LEnd l c n]) wk' \<and> pend wk' = []"
            using wk' ok1(1) wal_inv_rotate by (fastforce simp: worker_ok_def pend_def micro_batch_new_def)
          then show ?thesis using r by (intro run_inv_okI [of A "?L @ [LEnd l c n]"]) auto
        qed
      qed
    qed
  qed
qed

lemma exec_step:
  assumes inv: "run_inv A S C wk" and run: "worker_exec A x (wk, gb) = (r, wk', gb')" and A: "arrow_ok A"
    and small: "wop_small A x" and len: "length S + 1 < 2 ^ 64 - 1" and good: "\<not> end_failed x r wk'"
  defines "S' \<equiv> S @ submits x (wk_faulted wk) r"
  shows "run_inv A S' (if is_ok r \<and> confirms x then length S' else C) wk'"
  using inv unfolding run_inv_def [of A S C wk]
proof (elim disjE exE conjE)
  fix D
  assume "worker_bad A S D wk" "C \<le> D"
  then show ?thesis using bad_step [OF _ run] by (auto simp: S'_def intro: run_inv_badI)
next
  fix L
  assume ok: "worker_ok A L wk" and S: "S = L @ pend wk" and C: "C \<le> length L"
  have healthy: "\<not> wk_faulted wk" using ok by (simp add: worker_ok_def)
  show ?thesis
  proof (cases x)
    case (OpAppend b l force)
    then show ?thesis
      using append_step [OF ok _ A _ _ C, of b l force gb r wk' gb'] run small len healthy S
      by (auto simp: S'_def split: if_splits)
  next
    case OpFlush
    then show ?thesis
      using flush_all_step [OF ok _ A _ C, of r wk'] run len S by (auto simp: S'_def split: prod.splits)
  next
    case (OpRotate m)
    then show ?thesis
      using rotate_step [OF ok _ A _ C, of m r wk'] run len S by (auto simp: S'_def split: prod.splits)
  next
    case (OpEnd l c n)
    then show ?thesis
      using end_step [OF ok _ A _ C, of l c n r wk'] run len S good by (auto simp: S'_def split: prod.splits)
  next
    case OpTick
    then show ?thesis
      using tick_step [OF ok _ A _ C, of r wk'] run len S by (auto simp: S'_def split: prod.splits)
  qed
qed

lemma submits_le: "length (submits x f r) \<le> 1"
  by (cases x) auto

lemma worker_run_bad: "worker_run A xs st S C True = (wk', S', C', bad) \<Longrightarrow> bad"
  by (induction xs arbitrary: st S C) (auto simp: Let_def split: prod.splits)

lemma worker_run_inv:
  "\<lbrakk>run_inv A S C wk; worker_run A xs (wk, gb) S C False = (wk', S', C', False); arrow_ok A;
    list_all (wop_small A) xs; length S + length xs < 2 ^ 64 - 1\<rbrakk> \<Longrightarrow> run_inv A S' C' wk'"
proof (induction xs arbitrary: S C wk gb)
  case (Cons x xs)
  obtain r wk1 gb1 where ex: "worker_exec A x (wk, gb) = (r, wk1, gb1)" by (metis surj_pair)
  let ?S = "S @ submits x (wk_faulted wk) r"
  let ?C = "if is_ok r \<and> confirms x then length ?S else C"
  have run: "worker_run A xs (wk1, gb1) ?S ?C (end_failed x r wk1) = (wk', S', C', False)"
    using Cons.prems(2) ex by (simp add: Let_def)
  then have good: "\<not> end_failed x r wk1"
    using worker_run_bad [of A xs "(wk1, gb1)" ?S ?C wk' S' C' False] by (cases "end_failed x r wk1") simp_all
  have inv: "run_inv A ?S ?C wk1"
    using Cons.prems(4,5) good by (intro exec_step [OF Cons.prems(1) ex Cons.prems(3)]) simp_all
  have run': "worker_run A xs (wk1, gb1) ?S ?C False = (wk', S', C', False)"
    using run good by simp
  have "length ?S + length xs < 2 ^ 64 - 1"
    using Cons.prems(5) submits_le [of x "wk_faulted wk" r] by simp
  then show ?case
    using Cons.prems(4) by (intro Cons.IH [OF inv run' Cons.prems(3)]) simp_all
qed simp

text \<open>A worker on an empty directory.\<close>

lemma worker_new_fresh:
  assumes "worker_new A p = Inr wk" and "tf_dir (wp_fs p) = []"
  shows "run_inv A [] 0 wk"
proof -
  have "worker_ok A [] wk \<and> pend wk = []"
    using assms
    by (auto simp: worker_new_def segment_open_def worker_ok_def wal_inv_def pend_def micro_batch_new_def
        list_wal_file_ids_def Let_def and_then_eq_Inr split: prod.splits if_splits intro!: exI [of _ "[]"])
  then show ?thesis by (intro run_inv_okI [of A "[]"]) auto
qed

lemma run_inv_replay:
  assumes "run_inv A S C wk" and "crashed (tf_dir (wk_fs wk)) (tf_dir fs')"
  shows "\<exists>k. C \<le> k \<and> k \<le> length S \<and> replay A fs' = log_batches (take k S)"
proof -
  obtain gs D where part: "dir_part A gs D (tf_dir (wk_fs wk))" and C: "C \<le> D" and pre: "prefix (full_log gs) S"
    using assms(1) wal_inv_part unfolding run_inv_def worker_ok_def worker_bad_def by (metis prefixI)
  obtain m where m: "replay A fs' = log_batches (take m (full_log gs))" "D \<le> m"
    using crash_replay [OF part assms(2)] by blast
  let ?k = "min m (length (full_log gs))"
  have "take m (full_log gs) = take ?k S"
    using pre by (auto simp: prefix_def min_def)
  moreover have "D \<le> ?k" using m(2) dir_part_bound [OF part] by simp
  moreover have "?k \<le> length S" using prefix_length_le [OF pre] by simp
  ultimately show ?thesis using m(1) C by (intro exI [of _ ?k]) auto
qed

section \<open>Properties\<close>

text \<open>
  C12. An acknowledgement of the WAL means durability. A worker on an empty directory executes any
  history of appends (waiting or not), flushes, rotations, memtable-ends and timed flushes, with
  arbitrary I/O failures; segments rotate by size underneath. After a crash that keeps any prefix of every file
  that contains its synced part, replay returns the submitted batches in order up to some point, and
  this point is not before any acknowledged waiting append, flush, rotation or memtable-end. The one
  exception is a history in which the write of a memtable-end marker itself failed. Encoded batches are
  smaller than four GiB.
\<close>
theorem wal_acknowledged_durable:
  assumes "arrow_ok A" and "worker_new A p = Inr wk0" and "tf_dir (wp_fs p) = []"
    and "worker_run A xs (wk0, gb) [] 0 False = (wk, S, C, False)"
    and "list_all (wop_small A) xs" and "length xs < 2 ^ 64 - 1"
    and "crashed (tf_dir (wk_fs wk)) (tf_dir fs')"
  shows "\<exists>k. C \<le> k \<and> k \<le> length S \<and> replay A fs' = log_batches (take k S)"
  using worker_run_inv [OF worker_new_fresh [OF assms(2,3)] assms(4,1,5)] assms(6,7)
  by (intro run_inv_replay) auto

definition demo_fs :: "(nat \<Rightarrow> wal_io) \<Rightarrow> table_fs" where
  "demo_fs io = \<lparr>tf_dir = [], tf_tick = 0, tf_io = io, tf_now = (\<lambda>_. 0)\<rparr>"

definition demo_params :: "(nat \<Rightarrow> wal_io) \<Rightarrow> wal_writer_params" where
  "demo_params io = \<lparr>wp_fs = demo_fs io, wp_memtable_id = 7, wp_micro_batch_max_bytes = 100,
     wp_segment_max_bytes = 100000, wp_block_max_bytes = 1000,
     wp_table_backlog = \<lparr>tb_sem = 50, tb_limit = 50\<rparr>, wp_sync_writes = False, wp_notify = False\<rparr>"

definition demo_worker :: "(nat \<Rightarrow> wal_io) \<Rightarrow> bytes wal_worker" where
  "demo_worker io = \<lparr>wk_segment = \<lparr>sg_file_id = 0, sg_memtable_id = 7, sg_active = None,
       sg_sync_writes = False, sg_segment_max_bytes = 100000, sg_block_max_bytes = 1000\<rparr>,
     wk_fs = (demo_fs io)\<lparr>tf_tick := 1\<rparr>, wk_micro_batch = micro_batch_new 100,
     wk_micro_batch_max_bytes = 100, wk_table_backlog = \<lparr>tb_sem = 50, tb_limit = 50\<rparr>,
     wk_is_dirty = False, wk_faulted = False, wk_notify = False, wk_notified = []\<rparr>"

definition demo_budget :: wal_backlog_budget where
  "demo_budget = \<lparr>wb_global = 100, wb_global_limit = 100, wb_table_limit = 50\<rparr>"

lemma demo_worker_new: "open_ok (io 0) \<Longrightarrow> worker_new raw_arrow (demo_params io) = Inr (demo_worker io)"
  by (simp add: worker_new_def demo_params_def segment_open_def demo_fs_def io_now_def tick_def
      list_wal_file_ids_def clamp_def DEFAULT_WAL_BLOCK_MAX_BYTES_def demo_worker_def Let_def max_def
      word_le_nat_alt)

lemmas worker_defs = worker_append_def health_check_def backlog_release_def wal_batch_bytes_def
  micro_batch_push_def flush_micro_batch_def drain_def segment_append_def start_segment_def
  open_segment_def active_on_disk_bytes_def on_disk_bytes_def append_to_active_def
  flush_segment_def segment_flush_def io_now_def clock_now_def tick_def get_file_def put_file_def
  micro_batch_new_def Let_def

definition demo_writer1 :: segment_writer where
  "demo_writer1 = demo_writer\<lparr>fw_batches_written := 1, fw_frames_written := 2, fw_bytes_written := 1,
     fw_next_batch_sequence := 2\<rparr>"

definition demo_file1 :: seg_file where
  "demo_file1 = \<lparr>file_data = seg_bytes raw_arrow 0 7 [] [LBatch 5 [1]], file_durable = 113\<rparr>"

definition demo_worker1 :: "(nat \<Rightarrow> wal_io) \<Rightarrow> bytes wal_worker" where
  "demo_worker1 io = (demo_worker io)\<lparr>
     wk_segment := (wk_segment (demo_worker io))\<lparr>sg_file_id := 1, sg_active := Some demo_writer1\<rparr>,
     wk_fs := (demo_fs io)\<lparr>tf_dir := [(1, demo_file1)], tf_tick := Suc (Suc (Suc (Suc (Suc 0))))\<rparr>,
     wk_table_backlog := \<lparr>tb_sem = 51, tb_limit = 50\<rparr>\<rparr>"

lemma demo_length [simp]:
  "length (seg_bytes raw_arrow 0 7 [] []) = 76"
  "length (seg_bytes raw_arrow 0 7 [] [LBatch 5 [1]]) = 113"
  by (simp_all add: seg_bytes_def log_frames_def schema_frame_def size_consts)

lemma demo_append1:
  "append_batch raw_arrow io_good [1] 5 False demo_writer demo_file =
     (Inr 1, demo_writer1, demo_file1\<lparr>file_durable := 0\<rparr>)"
  by (simp add: demo_defs demo_writer1_def demo_file1_def)
    (simp add: seg_bytes_def log_frames_def frame_bytes_def)

lemma io_good_sel [simp]: "open_ok io_good" "sync_ok io_good" "meta_ok io_good" "write_fail io_good = None"
  by (simp_all add: io_good_def)

lemma demo_first_append:
  assumes "\<forall>k < 5. io k = io_good"
  shows "worker_append raw_arrow [1] 5 True (demo_worker io) demo_budget =
    (Inr (), demo_worker1 io, demo_budget\<lparr>wb_global := 101\<rparr>)"
proof -
  have io: "io (Suc 0) = io_good" "io (Suc (Suc 0)) = io_good" "io (Suc (Suc (Suc 0))) = io_good"
    "io (Suc (Suc (Suc (Suc 0)))) = io_good"
    using assms by auto
  have f: "length (file_data demo_file) = 76" by (simp add: demo_file_def)
  have n: "max (sat_add 0 1) 1 = (1 :: u64)" by (simp add: sat_add_one)
  have sync: "seg_sync io_good (demo_file1\<lparr>file_durable := 0\<rparr>) = (Inr (), demo_file1)"
    by (simp add: seg_sync_def demo_file1_def)
  show ?thesis
    using io demo_create demo_append1 f n sync
    by (simp add: demo_worker_def demo_worker1_def demo_fs_def worker_defs demo_budget_def permits_def
        word_le_nat_alt)
qed

theorem wal_acknowledged_durable_witness:
  "\<exists>wk. worker_run raw_arrow [OpAppend [1] 5 True] (demo_worker (\<lambda>_. io_good), demo_budget) [] 0 False =
      (wk, [LBatch 5 [1]], 1, False) \<and>
    (\<exists>k. 1 \<le> k \<and> k \<le> 1 \<and> replay raw_arrow (wk_fs wk) = log_batches (take k [LBatch 5 [1]]))"
proof -
  let ?io = "\<lambda>_ :: nat. io_good"
  have run: "worker_run raw_arrow [OpAppend [1] 5 True] (demo_worker ?io, demo_budget) [] 0 False =
      (demo_worker1 ?io, [LBatch 5 [1]], 1, False)"
    using demo_first_append [of ?io] by (simp add: demo_worker_def)
  have crash: "crashed (tf_dir (wk_fs (demo_worker1 ?io))) (tf_dir (wk_fs (demo_worker1 ?io)))"
    by (auto simp: crashed_def demo_worker1_def demo_fs_def demo_file1_def intro!: exI [of _ 113])
  have "tf_dir (wp_fs (demo_params ?io)) = []" by (simp add: demo_params_def demo_fs_def)
  then show ?thesis
    using wal_acknowledged_durable [OF raw_arrow_ok demo_worker_new [of ?io] _ run _ _ crash] run
    by (simp add: batch_small_def)
qed

text \<open>
  The same worker when the sixth I/O call, the write of a memtable-end marker, stops after two bytes.
\<close>

definition io_torn :: "nat \<Rightarrow> wal_io" where
  "io_torn k = (if k = Suc (Suc (Suc (Suc (Suc 0)))) then io_good\<lparr>write_fail := Some 2\<rparr> else io_good)"

definition end_frame_bytes :: bytes where
  "end_frame_bytes = frame_bytes (frame_of raw_arrow RMemTableEnd 0 2 5 (encode_memtable_end_payload 7 8),
     encode_memtable_end_payload 7 8)"

definition demo_file2 :: seg_file where
  "demo_file2 = demo_file1\<lparr>file_data := file_data demo_file1 @ take 2 end_frame_bytes\<rparr>"

definition demo_worker2 :: "bytes wal_worker" where
  "demo_worker2 = (demo_worker1 io_torn)\<lparr>wk_fs := (demo_fs io_torn)\<lparr>tf_dir := [(1, demo_file2)],
     tf_tick := Suc (Suc (Suc (Suc (Suc (Suc 0)))))\<rparr>\<rparr>"

lemma demo_end:
  "append_memtable_end raw_arrow (io_good\<lparr>write_fail := Some 2\<rparr>) 5 7 8 demo_writer1 demo_file1 =
     (Inl (Storage ''write''), demo_writer1, demo_file2)"
  by (simp add: demo_defs demo_writer1_def demo_file2_def end_frame_bytes_def frame_bytes_def)

lemma demo_failed_end:
  "worker_memtable_end raw_arrow 5 7 8 (demo_worker1 io_torn) = (Inl (Storage ''write''), demo_worker2)"
  using demo_end
  by (simp add: demo_worker1_def demo_worker2_def demo_worker_def demo_fs_def worker_defs
      worker_memtable_end_def io_torn_def)

definition demo_file3 :: seg_file where
  "demo_file3 = (let d = file_data demo_file1 @ take 2 end_frame_bytes @
     frame_bytes (frame_of raw_arrow RBatch PAYLOAD_FORMAT_ARROW_IPC 2 6 [2], [2])
   in \<lparr>file_data = d, file_durable = length d\<rparr>)"

lemma demo_append2:
  "\<exists>w. append_batch raw_arrow io_good [2] 6 False demo_writer1 demo_file2 =
     (Inr 2, w, demo_file3\<lparr>file_durable := 113\<rparr>)"
  by (simp add: demo_defs demo_writer1_def demo_file1_def demo_file2_def demo_file3_def frame_bytes_def)

lemma demo_second_append:
  "\<exists>wk gb'. worker_append raw_arrow [2] 6 True demo_worker2 gb = (Inr (), wk, gb') \<and>
     \<not> wk_faulted wk \<and> tf_dir (wk_fs wk) = [(1, demo_file3)]"
proof -
  obtain w where a: "append_batch raw_arrow io_good [2] 6 False demo_writer1 demo_file2 =
     (Inr 2, w, demo_file3\<lparr>file_durable := 113\<rparr>)"
    using demo_append2 by blast
  have f: "length (file_data demo_file2) = 115"
    by (simp add: demo_file1_def demo_file2_def end_frame_bytes_def size_consts)
  have sync: "seg_sync io_good (demo_file3\<lparr>file_durable := 113\<rparr>) = (Inr (), demo_file3)"
    by (simp add: seg_sync_def demo_file3_def Let_def)
  show ?thesis
    using a f sync
    by (simp add: demo_worker_def demo_worker1_def demo_worker2_def demo_fs_def worker_defs permits_def
        io_torn_def word_le_nat_alt)
qed

text \<open>
  C18. A failed memtable-end does not open the circuit breaker, and its partial write is not
  repaired. After an append and a memtable-end whose marker was written in part, the worker still
  accepts a waiting append, syncs it and acknowledges it; replay of the synced files, with no crash
  losing anything, does not return it.
\<close>
theorem failed_memtable_end_loses_acknowledged:
  "\<exists>wk0 wk1 wk2 wk3 gb1 gb2.
     worker_new raw_arrow (demo_params io_torn) = Inr wk0 \<and>
     worker_append raw_arrow [1] 5 True wk0 demo_budget = (Inr (), wk1, gb1) \<and>
     worker_memtable_end raw_arrow 5 7 8 wk1 = (Inl (Storage ''write''), wk2) \<and> \<not> wk_faulted wk2 \<and>
     worker_append raw_arrow [2] 6 True wk2 gb1 = (Inr (), wk3, gb2) \<and>
     list_all (\<lambda>(_, f). file_durable f = length (file_data f)) (tf_dir (wk_fs wk3)) \<and>
     replay raw_arrow (wk_fs wk3) = [[1]]"
proof -
  let ?gb = "demo_budget\<lparr>wb_global := 101\<rparr>"
  obtain wk gb' where a: "worker_append raw_arrow [2] 6 True demo_worker2 ?gb = (Inr (), wk, gb')"
    and dir: "tf_dir (wk_fs wk) = [(1, demo_file3)]"
    using demo_second_append by blast
  have "read_segment_batches raw_arrow (Some (file_data demo_file3)) True = Inr [[1]]"
    using read_segment_batches_log [OF demo_log_ok torn_frame [of 2], of 0 7 _ _ "[]"]
    by (simp add: demo_file3_def demo_file1_def Let_def end_frame_bytes_def)
  then have "replay raw_arrow (wk_fs wk) = [[1]]"
    by (simp add: replay_dir dir)
  moreover have "list_all (\<lambda>(_, f). file_durable f = length (file_data f)) (tf_dir (wk_fs wk))"
    by (simp add: dir demo_file3_def Let_def)
  moreover have "worker_append raw_arrow [1] 5 True (demo_worker io_torn) demo_budget =
      (Inr (), demo_worker1 io_torn, ?gb)"
    by (rule demo_first_append) (simp add: io_torn_def)
  moreover have "\<not> wk_faulted demo_worker2"
    by (simp add: demo_worker2_def demo_worker1_def demo_worker_def)
  moreover have "worker_new raw_arrow (demo_params io_torn) = Inr (demo_worker io_torn)"
    by (rule demo_worker_new) (simp add: io_torn_def)
  ultimately show ?thesis
    using demo_failed_end a by blast
qed

end
