(* ===== verification/Wal_Thread.thy ===== *)
theory Wal_Thread
  imports Wal_Commit
begin

text \<open>
  The command loop of a WAL worker thread that serves many writers. The dirty queue covers every
  writer with pending batches, so that one timer tick empties all of them, and what happens to one
  writer is the run of its own commands and the ticks, whatever the others do.
\<close>

section \<open>Tidy workers\<close>

definition tidy :: "'b wal_worker \<Rightarrow> bool" where
  "tidy wk \<longleftrightarrow> (wk_is_dirty wk \<longleftrightarrow> mb_pending (wk_micro_batch wk) \<noteq> []) \<and> (wk_faulted wk \<longrightarrow> \<not> wk_is_dirty wk)"

lemma append_all_keeps:
  "append_all A ps wk = (r, wk') \<Longrightarrow> wk_micro_batch wk' = wk_micro_batch wk \<and>
     wk_faulted wk' = wk_faulted wk \<and> wk_is_dirty wk' = wk_is_dirty wk"
  by (induction A ps wk arbitrary: r wk' rule: append_all.induct)
    (force split: prod.splits sum.splits option.splits)+

lemma flush_micro_batch_tidy:
  assumes "tidy wk"
  shows "tidy (snd (flush_micro_batch A wk)) \<and> \<not> wk_is_dirty (snd (flush_micro_batch A wk))"
proof (cases "wk_faulted wk \<or> \<not> wk_is_dirty wk")
  case True
  then show ?thesis using assms by (auto simp: flush_micro_batch_def health_check_def tidy_def)
next
  case False
  let ?mb = "snd (drain (wk_micro_batch wk))"
  obtain r wk1 where ap: "append_all A (mb_pending (wk_micro_batch wk)) (wk\<lparr>wk_micro_batch := ?mb\<rparr>) = (r, wk1)"
    by fastforce
  have "wk_micro_batch wk1 = ?mb" "\<not> wk_faulted wk1" using append_all_keeps [OF ap] False by auto
  then show ?thesis
    using False assms ap
    by (auto simp: flush_micro_batch_def health_check_def drain_def tidy_def trip_fault_def flush_segment_def
        Let_def split: sum.splits prod.splits)
qed

lemma flush_micro_batch_clean: "tidy wk \<Longrightarrow> \<not> wk_is_dirty wk \<Longrightarrow> snd (flush_micro_batch A wk) = wk"
  by (auto simp: flush_micro_batch_def health_check_def)

lemma tidy_update [simp]:
  "tidy (wk\<lparr>wk_table_backlog := tb\<rparr>) = tidy wk" "tidy (wk\<lparr>wk_fs := fs\<rparr>) = tidy wk"
  "tidy (wk\<lparr>wk_segment := sw\<rparr>) = tidy wk"
  "tidy (wk\<lparr>wk_micro_batch := micro_batch_new n, wk_is_dirty := False\<rparr>)"
  "tidy wk \<Longrightarrow> \<not> wk_is_dirty wk \<Longrightarrow> tidy (trip_fault wk)"
  by (auto simp: tidy_def micro_batch_new_def trip_fault_def)

lemma tidy_push: "\<not> wk_faulted wk \<Longrightarrow>
    tidy (wk\<lparr>wk_table_backlog := tb, wk_micro_batch := micro_batch_push A b l mb, wk_is_dirty := True\<rparr>)"
  by (simp add: tidy_def micro_batch_push_def)

lemma worker_append_tidy: "tidy wk \<Longrightarrow> tidy (fst (snd (worker_append A b l force wk gb)))"
  by (simp add: flush_micro_batch_tidy worker_append_def Let_def health_check_def tidy_push case_prod_unfold)

lemma flush_all_tidy: "tidy wk \<Longrightarrow> tidy (snd (flush_all A wk))"
  using flush_micro_batch_tidy [of wk A]
  by (auto simp: flush_all_def flush_segment_def Let_def split: prod.splits sum.splits)

lemma worker_rotate_tidy: "tidy wk \<Longrightarrow> tidy (snd (worker_rotate A m wk))"
  using flush_micro_batch_tidy [of wk A]
  by (auto simp: worker_rotate_def split: prod.splits sum.splits)

lemma worker_memtable_end_tidy: "tidy wk \<Longrightarrow> tidy (snd (worker_memtable_end A l c n wk))"
  using flush_micro_batch_tidy [of wk A]
  by (auto simp: worker_memtable_end_def Let_def split: prod.splits sum.splits option.splits)

lemma worker_new_tidy: "worker_new A p = Inr wk \<Longrightarrow> tidy wk \<and> \<not> wk_is_dirty wk"
  by (auto simp: worker_new_def Let_def and_then_eq_Inr tidy_def micro_batch_new_def split: prod.splits)

text \<open>Only an append makes a worker dirty.\<close>

lemma not_dirty_after:
  assumes "tidy wk"
  shows "\<not> wk_is_dirty (snd (flush_all A wk))" "\<not> wk_is_dirty (snd (worker_rotate A m wk))"
    "\<not> wk_is_dirty (snd (worker_memtable_end A l c n wk))"
  using flush_micro_batch_tidy [OF assms, of A]
  by (auto simp: flush_all_def worker_rotate_def worker_memtable_end_def flush_segment_def trip_fault_def Let_def
      split: prod.splits sum.splits option.splits)

section \<open>The dirty queue\<close>

definition covered :: "'b wal_thread \<Rightarrow> bool" where
  "covered t \<longleftrightarrow> (\<forall>i wk. map_of (wt_workers t) i = Some wk \<longrightarrow>
     tidy wk \<and> (wk_is_dirty wk \<longrightarrow> i \<in> set (wt_dirty_queue t)))"

definition thread_start :: "wal_backlog_budget \<Rightarrow> 'b wal_thread" where
  "thread_start gb = \<lparr>wt_workers = [], wt_dirty_queue = [], wt_backlog = gb, wt_closed = []\<rparr>"

lemma map_of_set_worker [simp]:
  "map_of (wt_workers (set_worker i wk t)) j = (if j = i then Some wk else map_of (wt_workers t) j)"
  by (auto simp: set_worker_def update_conv)

lemma set_worker_queue [simp]:
  "wt_dirty_queue (set_worker i wk t) = wt_dirty_queue t" "wt_backlog (set_worker i wk t) = wt_backlog t"
  by (simp_all add: set_worker_def)

lemma covered_set_worker:
  "covered t \<Longrightarrow> tidy wk \<Longrightarrow> \<not> wk_is_dirty wk \<Longrightarrow> covered (set_worker i wk t)"
  by (auto simp: covered_def)

lemma handle_command_covered:
  assumes "covered t"
  shows "covered (snd (handle_command A c t))"
proof (cases c)
  case (CAppend i b l ack)
  show ?thesis
  proof (cases "map_of (wt_workers t) i")
    case (Some wk)
    obtain r wk' gb where run: "worker_append A b l ack wk (wt_backlog t) = (r, wk', gb)" by (metis surj_pair)
    have "tidy wk'" using worker_append_tidy [of wk A b l ack "wt_backlog t"] run assms Some by (auto simp: covered_def)
    then show ?thesis using CAppend Some run assms by (auto simp: covered_def Let_def)
  qed (simp add: CAppend assms)
qed (use assms in \<open>auto simp: covered_def Let_def delete_conv' not_dirty_after worker_rotate_tidy flush_all_tidy
      worker_memtable_end_tidy case_prod_unfold dest: worker_new_tidy split: option.splits sum.splits\<close>)

lemma flush_dirty_rounds_covered:
  "covered t \<Longrightarrow> covered (flush_dirty_rounds A n t) \<and>
     wt_dirty_queue (flush_dirty_rounds A n t) = drop n (wt_dirty_queue t)"
proof (induction n arbitrary: t)
  case (Suc n)
  show ?case
  proof (cases "wt_dirty_queue t")
    case (Cons i q)
    let ?t1 = "t\<lparr>wt_dirty_queue := q\<rparr>"
    show ?thesis
    proof (cases "\<exists>wk. map_of (wt_workers t) i = Some wk \<and> wk_is_dirty wk")
      case True
      then obtain wk where wk: "map_of (wt_workers t) i = Some wk" "wk_is_dirty wk" by blast
      let ?wk = "snd (flush_micro_batch A wk)"
      have t: "tidy ?wk" "\<not> wk_is_dirty ?wk"
        using flush_micro_batch_tidy [of wk A] wk Suc.prems by (auto simp: covered_def)
      then have "covered (set_worker i ?wk ?t1)"
        using Suc.prems Cons by (auto simp: covered_def)
      then show ?thesis using Suc.IH Cons wk t by simp
    next
      case False
      then have "covered ?t1" using Suc.prems Cons by (fastforce simp: covered_def)
      then show ?thesis using Suc.IH Cons False by (auto simp: Let_def split: option.splits)
    qed
  qed (simp add: Suc.prems)
qed simp

lemma turn_covered: "covered t \<Longrightarrow> covered (worker_loop_turn A ev t)"
  by (cases ev) (simp_all add: handle_command_covered flush_dirty_queue_def flush_dirty_rounds_covered)

lemma turns_covered: "covered t \<Longrightarrow> covered (fold (worker_loop_turn A) evs t)"
  by (induction evs arbitrary: t) (simp_all add: turn_covered)

lemma start_covered [simp]: "covered (thread_start gb)"
  by (simp add: covered_def thread_start_def)

section \<open>One writer among many\<close>

fun writer_ops :: "u64 \<Rightarrow> 'b loop_event \<Rightarrow> 'b worker_op list" where
  "writer_ops i (Command (CAppend j b l ack)) = (if j = i then [OpAppend b l ack] else [])"
| "writer_ops i (Command (CRotate j m)) = (if j = i then [OpRotate m] else [])"
| "writer_ops i (Command (CMemTableEnd j l c n)) = (if j = i then [OpEnd l c n] else [])"
| "writer_ops i (Command (CFlush j)) = (if j = i then [OpFlush] else [])"
| "writer_ops i (Command (CRegister j p)) = []"
| "writer_ops i (Command (CDeregister j)) = []"
| "writer_ops i Tick = [OpTick]"

fun keeps_writer :: "u64 \<Rightarrow> 'b loop_event \<Rightarrow> bool" where
  "keeps_writer i (Command (CRegister j p)) \<longleftrightarrow> j \<noteq> i"
| "keeps_writer i (Command (CDeregister j)) \<longleftrightarrow> j \<noteq> i"
| "keeps_writer i _ \<longleftrightarrow> True"

text \<open>The global budget enters a worker only through the size of a table's share.\<close>

lemma backlog_release_limits:
  "wb_table_limit (fst (backlog_release n (gb, tb))) = wb_table_limit gb"
  "wb_table_limit gb = wb_table_limit gb' \<Longrightarrow>
     snd (backlog_release n (gb, tb)) = snd (backlog_release n (gb', tb))"
  by (simp_all add: backlog_release_def)

lemma worker_append_budget:
  assumes "wb_table_limit gb = wb_table_limit gb'"
  shows "wb_table_limit (snd (snd (worker_append A b l force wk gb))) = wb_table_limit gb"
    "fst (worker_append A b l force wk gb) = fst (worker_append A b l force wk gb')"
    "fst (snd (worker_append A b l force wk gb)) = fst (snd (worker_append A b l force wk gb'))"
  using backlog_release_limits(2) [OF assms, of _ "wk_table_backlog wk"]
  by (simp_all add: worker_append_def Let_def case_prod_unfold backlog_release_limits(1) split: sum.split)

lemma worker_exec_budget:
  assumes "wb_table_limit gb = wb_table_limit gb'"
  shows "wb_table_limit (snd (snd (worker_exec A x (wk, gb)))) = wb_table_limit gb \<and>
    fst (worker_exec A x (wk, gb)) = fst (worker_exec A x (wk, gb')) \<and>
    fst (snd (worker_exec A x (wk, gb))) = fst (snd (worker_exec A x (wk, gb')))"
  by (cases x) (use worker_append_budget [OF assms] in \<open>auto split: prod.splits\<close>)

lemma rounds_worker:
  assumes "covered t" and "map_of (wt_workers t) i = Some wk"
  shows "map_of (wt_workers (flush_dirty_rounds A n t)) i =
      Some (if i \<in> set (take n (wt_dirty_queue t)) then snd (flush_micro_batch A wk) else wk) \<and>
    wt_backlog (flush_dirty_rounds A n t) = wt_backlog t"
  using assms
proof (induction n arbitrary: t wk)
  case (Suc n)
  show ?case
  proof (cases "wt_dirty_queue t")
    case (Cons j q)
    let ?t1 = "t\<lparr>wt_dirty_queue := q\<rparr>"
    show ?thesis
    proof (cases "\<exists>wj. map_of (wt_workers t) j = Some wj \<and> wk_is_dirty wj")
      case True
      then obtain wj where wj: "map_of (wt_workers t) j = Some wj" "wk_is_dirty wj" by blast
      let ?wj = "snd (flush_micro_batch A wj)" and ?t2 = "set_worker j (snd (flush_micro_batch A wj)) ?t1"
      have t: "tidy ?wj" "\<not> wk_is_dirty ?wj"
        using flush_micro_batch_tidy [of wj A] wj Suc.prems by (auto simp: covered_def)
      then have "covered ?t2" using Suc.prems Cons by (auto simp: covered_def)
      then have IH: "map_of (wt_workers (flush_dirty_rounds A n ?t2)) i =
          Some (if i \<in> set (take n q) then snd (flush_micro_batch A (if i = j then ?wj else wk))
                else if i = j then ?wj else wk) \<and>
          wt_backlog (flush_dirty_rounds A n ?t2) = wt_backlog t"
        using Suc.IH [of ?t2 "if i = j then ?wj else wk"] Suc.prems(2) by simp
      have step: "flush_dirty_rounds A (Suc n) t = flush_dirty_rounds A n ?t2"
        using Cons wj t by simp
      show ?thesis
        unfolding step using IH Cons wj(1) Suc.prems(2) flush_micro_batch_clean [OF t, of A]
        by (cases "i = j") simp_all
    next
      case False
      then have "covered ?t1" using Suc.prems Cons by (fastforce simp: covered_def)
      moreover have "i = j \<Longrightarrow> snd (flush_micro_batch A wk) = wk"
        using False Suc.prems flush_micro_batch_clean [of wk A] by (auto simp: covered_def)
      ultimately show ?thesis
        using Suc.IH [of ?t1 wk] Cons False Suc.prems(2) by (auto simp: Let_def split: option.splits)
    qed
  qed (simp add: Suc.prems)
qed simp

lemma rounds_limit: "wt_backlog (flush_dirty_rounds A n t) = wt_backlog t"
  by (induction n arbitrary: t) (simp_all add: Let_def split: list.split option.split)

lemma turn_limit: "wb_table_limit (wt_backlog (worker_loop_turn A ev t)) = wb_table_limit (wt_backlog t)"
proof (cases ev)
  case (Command c)
  then show ?thesis
    using worker_append_budget(1) [of "wt_backlog t" "wt_backlog t" A]
    by (cases c) (simp_all add: Let_def case_prod_unfold set_worker_def split: option.split sum.split)
qed (simp add: flush_dirty_queue_def rounds_limit)

lemma turns_limit: "wb_table_limit (wt_backlog (fold (worker_loop_turn A) evs t)) = wb_table_limit (wt_backlog t)"
  by (induction evs arbitrary: t) (simp_all add: turn_limit)

abbreviation worker_states ::
  "('s, 'b) arrow \<Rightarrow> 'b worker_op list \<Rightarrow> 'b wal_worker \<times> wal_backlog_budget \<Rightarrow>
   'b wal_worker \<times> wal_backlog_budget" where
  "worker_states A xs st \<equiv> fold (\<lambda>x st. snd (worker_exec A x st)) xs st"

lemma worker_run_state: "fst (worker_run A xs st S C bad) = fst (worker_states A xs st)"
  by (induction xs arbitrary: st S C bad) (simp_all add: Let_def case_prod_unfold)

lemma turn_writer:
  fixes A :: "('s, 'b) arrow"
  assumes "covered t" and "map_of (wt_workers t) i = Some wk" and "keeps_writer i ev"
    and "wb_table_limit gb = wb_table_limit (wt_backlog t)"
  defines "st \<equiv> worker_states A (writer_ops i ev) (wk, gb)"
  shows "map_of (wt_workers (worker_loop_turn A ev t)) i = Some (fst st) \<and>
    wb_table_limit (snd st) = wb_table_limit (wt_backlog t)"
proof (cases ev)
  case Tick
  have "i \<notin> set (wt_dirty_queue t) \<Longrightarrow> snd (flush_micro_batch A wk) = wk"
    using assms(1,2) flush_micro_batch_clean [of wk A] by (auto simp: covered_def)
  then show ?thesis
    using rounds_worker [OF assms(1,2), of A "length (wt_dirty_queue t)"] Tick assms(4)
    by (auto simp: st_def flush_dirty_queue_def case_prod_unfold Let_def)
next
  case (Command c)
  show ?thesis
  proof (cases c)
    case (CAppend j b l ack)
    show ?thesis
      using assms(2,4) CAppend Command worker_append_budget [OF assms(4), of A b l ack wk]
      by (cases "map_of (wt_workers t) j") (auto simp: st_def Let_def case_prod_unfold)
  qed (use assms Command in \<open>auto simp: st_def Let_def case_prod_unfold delete_conv' split: option.splits sum.splits\<close>)
qed

lemma turns_writer:
  fixes A :: "('s, 'b) arrow"
  assumes "covered t" and "map_of (wt_workers t) i = Some wk" and "list_all (keeps_writer i) evs"
    and "wb_table_limit gb = wb_table_limit (wt_backlog t)"
  defines "st \<equiv> worker_states A (concat (map (writer_ops i) evs)) (wk, gb)"
  shows "map_of (wt_workers (fold (worker_loop_turn A) evs t)) i = Some (fst st) \<and>
    wb_table_limit (snd st) = wb_table_limit (wt_backlog t)"
  using assms(1-4) unfolding st_def
proof (induction evs arbitrary: t wk gb)
  case (Cons ev evs)
  let ?st = "worker_states A (writer_ops i ev) (wk, gb)"
  have "map_of (wt_workers (worker_loop_turn A ev t)) i = Some (fst ?st) \<and>
    wb_table_limit (snd ?st) = wb_table_limit (wt_backlog t)"
    using Cons.prems by (intro turn_writer) simp_all
  then show ?case
    using Cons.IH [OF turn_covered [OF Cons.prems(1)], of A ev "fst ?st" "snd ?st"] Cons.prems(3)
    by (simp add: turn_limit)
qed simp

section \<open>Batches above the block cap\<close>

definition capped :: "wal_segment_writer \<Rightarrow> bool" where
  "capped sw \<longleftrightarrow> (\<forall>w. sg_active sw = Some w \<longrightarrow> fw_block_max_bytes w \<le> DEFAULT_WAL_BLOCK_MAX_BYTES)"

definition oversized :: "('s, 'b) arrow \<Rightarrow> 'b \<Rightarrow> bool" where
  "oversized A b \<longleftrightarrow> (case ipc_write_batch A b of
     Some p \<Rightarrow> DEFAULT_WAL_BLOCK_MAX_BYTES < FRAME_HEADER_SIZE + length p \<and> length p < 2 ^ 32
   | None \<Rightarrow> False)"

lemma append_batch_oversized:
  assumes "oversized A b" and "fw_block_max_bytes w \<le> DEFAULT_WAL_BLOCK_MAX_BYTES"
  shows "\<exists>e. append_batch A io b l s w f = (Inl e, w, f)"
  using assms
  by (auto simp: oversized_def append_batch_def encode_batch_ipc_def write_frame_def Let_def unat_of_nat
      split: option.splits)

lemma append_batch_cap: "append_batch A io b l s w f = (r, w', f') \<Longrightarrow> fw_block_max_bytes w' = fw_block_max_bytes w"
  by (auto simp: append_batch_def Let_def split: sum.splits prod.splits if_splits)

lemma open_segment_capped: "capped sw \<Longrightarrow> capped (fst (snd (open_segment A n s sw fs)))"
  by (auto simp: open_segment_def capped_def create_with_block_max_def clamp_block_max_def clamp_def Let_def
      and_then_eq_Inr size_consts split: sum.splits prod.splits if_splits)

lemma start_segment_capped: "capped sw \<Longrightarrow> capped (fst (snd (start_segment A s sw fs)))"
  by (simp add: start_segment_def open_segment_capped)

lemma hard_rotate_capped: "capped sw \<Longrightarrow> capped (fst (snd (hard_rotate_segment A s sw fs)))"
proof -
  have "capped (sw\<lparr>sg_active := None\<rparr>)" by (simp add: capped_def)
  then show ?thesis
    by (auto simp: hard_rotate_segment_def finish_active_segment_def open_segment_capped Let_def
        split: sum.splits prod.splits option.splits)
qed

lemma append_to_active_capped:
  assumes "capped sw"
  shows "capped (fst (snd (append_to_active A b l sw fs)))"
    "oversized A b \<Longrightarrow> \<exists>e. fst (append_to_active A b l sw fs) = Inl e"
proof -
  obtain r w' f' where ap: "append_batch A (io_now fs) b l (sg_sync_writes sw) (the (sg_active sw))
      (the (get_file (sg_file_id sw) fs)) = (r, w', f')"
    by (metis surj_pair)
  show "capped (fst (snd (append_to_active A b l sw fs)))"
    using assms append_batch_cap [OF ap] ap
    by (auto simp: append_to_active_def capped_def Let_def split: option.split)
  assume "oversized A b"
  then show "\<exists>e. fst (append_to_active A b l sw fs) = Inl e"
    using append_batch_oversized [of A b "the (sg_active sw)" "io_now fs" l "sg_sync_writes sw"
        "the (get_file (sg_file_id sw) fs)"] assms ap
    by (auto simp: append_to_active_def capped_def Let_def split: option.split)
qed

lemma segment_append_capped:
  assumes "capped sw"
  shows "capped (fst (snd (segment_append A b l sw fs)))"
    "oversized A b \<Longrightarrow> \<exists>e. fst (segment_append A b l sw fs) = Inl e"
proof -
  obtain r1 sw1 fs1 where st: "start_segment A (batch_schema A b) sw fs = (r1, sw1, fs1)" by (metis surj_pair)
  obtain r2 fs2 where sz: "active_on_disk_bytes sw1 fs1 = (r2, fs2)" by fastforce
  obtain r3 sw3 fs3 where hr: "hard_rotate_segment A (batch_schema A b) sw1 fs2 = (r3, sw3, fs3)" by (metis surj_pair)
  have c: "capped sw1" "capped sw3"
    using start_segment_capped [OF assms, of A "batch_schema A b" fs] st
      hard_rotate_capped [of sw1 A "batch_schema A b" fs2] hr by simp_all
  show "capped (fst (snd (segment_append A b l sw fs)))"
    using c by (simp add: segment_append_def st sz hr append_to_active_capped(1) split: sum.split)
  show "oversized A b \<Longrightarrow> \<exists>e. fst (segment_append A b l sw fs) = Inl e"
    using append_to_active_capped(2) [OF c(1), of A b] append_to_active_capped(2) [OF c(2), of A b]
    by (auto simp: segment_append_def st sz hr split: sum.split)
qed

lemma append_all_oversized:
  "capped (wk_segment wk) \<Longrightarrow> oversized A b \<Longrightarrow> (b, l) \<in> set ps \<Longrightarrow> \<exists>e. fst (append_all A ps wk) = Inl e"
proof (induction ps arbitrary: wk)
  case (Cons x ps)
  obtain b' l' where x: "x = (b', l')" by fastforce
  obtain r sw fs where ap: "segment_append A b' l' (wk_segment wk) (wk_fs wk) = (r, sw, fs)" by (metis surj_pair)
  have c: "capped sw" using segment_append_capped(1) [OF Cons.prems(1), of A b' l' "wk_fs wk"] ap by simp
  show ?case
  proof (cases "x = (b, l)")
    case True
    then show ?thesis
      using segment_append_capped(2) [OF Cons.prems(1,2), of l "wk_fs wk"] ap x by auto
  next
    case False
    then have "\<exists>e. fst (append_all A ps wk1) = Inl e" if "wk_segment wk1 = sw" for wk1
      using Cons.IH [of wk1] Cons.prems(2,3) c that by auto
    then show ?thesis
      using ap x by (auto split: sum.split option.split)
  qed
qed simp

lemma flush_micro_batch_failed:
  assumes "\<not> wk_faulted wk" and "wk_is_dirty wk" and "mb_pending (wk_micro_batch wk) \<noteq> []"
    and "append_all A (mb_pending (wk_micro_batch wk)) (wk\<lparr>wk_micro_batch := snd (drain (wk_micro_batch wk))\<rparr>) =
      (Inl e, wk1)"
  shows "flush_micro_batch A wk = (Inl e, trip_fault wk1)"
  using assms by (simp add: flush_micro_batch_def health_check_def drain_def)

section \<open>Properties\<close>

lemma faulted_for_good:
  "wk_faulted wk \<Longrightarrow> \<exists>wk'. worker_run A xs (wk, gb) S C bad = (wk', S, C, bad) \<and> wk_faulted wk' \<and> wk_fs wk' = wk_fs wk"
proof (induction xs arbitrary: wk gb)
  case (Cons x xs)
  obtain r wk1 gb1 where ex: "worker_exec A x (wk, gb) = (r, wk1, gb1)" by (metis surj_pair)
  note bad = bad_exec [OF Cons.prems ex]
  have "submits x True r = []" "\<not> end_failed x r wk1" using bad by (cases x; simp)+
  then show ?case using Cons.IH [of wk1 gb1] Cons.prems ex bad by (auto simp: Let_def)
qed simp

text \<open>
  C19. One batch whose block exceeds the cap takes its writer out of service. A waiting append of such
  a batch fails, as it should; but it also opens the circuit breaker, although the refusal is no fault of
  the disk. From then on, whatever commands and ticks the writer gets, it refuses every one of them, takes
  over no batch, confirms nothing and leaves the files as they are.
\<close>
theorem oversized_batch_faults_writer:
  assumes "\<not> wk_faulted wk" and "capped (wk_segment wk)" and "oversized A b"
    and "worker_append A b l True wk gb = (r, wk', gb')"
  shows "is_ok r = False \<and>
    (\<exists>wk''. worker_run A xs (wk', gb2) S C bad = (wk'', S, C, bad) \<and> wk_faulted wk'' \<and> wk_fs wk'' = wk_fs wk' \<and>
      is_ok (fst (worker_exec A x (wk'', gb3))) = False)"
proof -
  let ?wk = "wk\<lparr>wk_table_backlog := snd (backlog_release (wal_batch_bytes A b) (gb, wk_table_backlog wk)),
    wk_micro_batch := micro_batch_push A b l (wk_micro_batch wk), wk_is_dirty := True\<rparr>"
  have run: "flush_micro_batch A ?wk = (r, wk')"
    using assms(1,4) by (simp add: worker_append_def Let_def health_check_def case_prod_unfold prod_eq_iff)
  let ?ps = "mb_pending (wk_micro_batch ?wk)" and ?mb = "snd (drain (wk_micro_batch ?wk))"
  have ps: "(b, l) \<in> set ?ps" by (simp add: micro_batch_push_def)
  obtain r1 wk1 where ap: "append_all A ?ps (?wk\<lparr>wk_micro_batch := ?mb\<rparr>) = (r1, wk1)" by fastforce
  obtain e where "r1 = Inl e"
    using append_all_oversized [OF _ assms(3) ps, of "?wk\<lparr>wk_micro_batch := ?mb\<rparr>"] assms(2) ap by auto
  then have r: "r = Inl e" and "wk' = trip_fault wk1"
    using flush_micro_batch_failed [of ?wk A e wk1] run ap assms(1) by (simp_all add: micro_batch_push_def)
  then have "wk_faulted wk'" by (simp add: trip_fault_def)
  from faulted_for_good [OF this] obtain wk'' where
    wk'': "worker_run A xs (wk', gb2) S C bad = (wk'', S, C, bad)" "wk_faulted wk''" "wk_fs wk'' = wk_fs wk'" by blast
  have "is_ok (fst (worker_exec A x (wk'', gb3))) = False"
    using bad_exec [OF wk''(2), of A x gb3] by (metis fst_conv surj_pair)
  then show ?thesis using r wk'' by simp
qed

text \<open>
  C14. No batch waits longer than one timer period. Whatever commands and ticks a worker thread has
  processed, with any I/O failures, after the next tick its dirty queue is empty, and every registered
  writer has an empty micro-batch and is not dirty.
\<close>
theorem tick_flushes_every_writer:
  assumes "t = worker_loop_turn A Tick (fold (worker_loop_turn A) evs (thread_start gb))"
    and "map_of (wt_workers t) i = Some wk"
  shows "wt_dirty_queue t = [] \<and> mb_pending (wk_micro_batch wk) = [] \<and> \<not> wk_is_dirty wk"
proof -
  have "covered t" "wt_dirty_queue t = []"
    using turns_covered [of "thread_start gb" A evs] unfolding assms(1)
    by (simp_all add: flush_dirty_queue_def flush_dirty_rounds_covered)
  then show ?thesis using assms(2) by (auto simp: covered_def tidy_def)
qed

text \<open>
  C13. Writers that share a worker thread do not disturb each other. After any history, the worker of
  a registered writer is the result of running its own commands and the ticks alone, whatever the
  commands of the other writers were, as long as the writer itself is not registered or deregistered
  again; and the reply to its next command is the one it would get alone.
\<close>
theorem wal_thread_isolates_writers:
  assumes "t = fold (worker_loop_turn A) evs0 (thread_start gb)"
    and "map_of (wt_workers t) i = Some wk" and "list_all (keeps_writer i) evs"
    and "t' = fold (worker_loop_turn A) evs t"
    and "wk' = fst (worker_run A (concat (map (writer_ops i) evs)) (wk, wt_backlog t) [] 0 False)"
  shows "map_of (wt_workers t') i = Some wk' \<and>
    (writer_ops i (Command c) = [x] \<longrightarrow> fst (handle_command A c t') = fst (worker_exec A x (wk', wt_backlog t)))"
proof -
  have cov: "covered t" using assms(1) by (simp add: turns_covered)
  let ?st = "worker_states A (concat (map (writer_ops i) evs)) (wk, wt_backlog t)"
  have wk': "map_of (wt_workers t') i = Some wk'" "wk' = fst ?st"
    using turns_writer [OF cov assms(2,3) refl, of A] unfolding assms(4,5) worker_run_state by simp_all
  have "wb_table_limit (wt_backlog t') = wb_table_limit (wt_backlog t)"
    unfolding assms(4) by (simp add: turns_limit)
  then have "writer_ops i (Command c) = [x] \<Longrightarrow> fst (handle_command A c t') = fst (worker_exec A x (wk', wt_backlog t))"
    using wk'(1) worker_append_budget(2) [of "wt_backlog t'" "wt_backlog t" A]
    by (cases c) (auto simp: Let_def case_prod_unfold split: if_splits)
  then show ?thesis using wk'(1) by blast
qed


section \<open>Witnesses\<close>

lemma demo_register:
  "worker_loop_turn raw_arrow (Command (CRegister 1 (demo_params (\<lambda>_. io_good)))) (thread_start demo_budget) =
     (thread_start demo_budget)\<lparr>wt_workers := [(1, demo_worker (\<lambda>_. io_good))]\<rparr>"
  using demo_worker_new [of "\<lambda>_. io_good"] by (simp add: set_worker_def thread_start_def)

theorem tick_flushes_every_writer_witness:
  "\<exists>wk. map_of (wt_workers (worker_loop_turn raw_arrow Tick (fold (worker_loop_turn raw_arrow)
      [Command (CRegister 1 (demo_params (\<lambda>_. io_good))), Command (CAppend 1 [1] 5 False)]
      (thread_start demo_budget)))) 1 = Some wk \<and> mb_pending (wk_micro_batch wk) = []"
proof -
  let ?evs = "[Command (CRegister 1 (demo_params (\<lambda>_. io_good))), Command (CAppend 1 [1] 5 False)]"
  let ?t = "worker_loop_turn raw_arrow Tick (fold (worker_loop_turn raw_arrow) ?evs (thread_start demo_budget))"
  let ?t1 = "(thread_start demo_budget)\<lparr>wt_workers := [(1, demo_worker (\<lambda>_. io_good))]\<rparr>"
  have "covered ?t1" using turn_covered [OF start_covered] demo_register by metis
  then have "map_of (wt_workers (fold (worker_loop_turn raw_arrow) [Command (CAppend 1 [1] 5 False), Tick] ?t1)) 1 \<noteq> None"
    using turns_writer [of ?t1 1 "demo_worker (\<lambda>_. io_good)" "[Command (CAppend 1 [1] 5 False), Tick]"
        demo_budget raw_arrow] by (simp add: thread_start_def del: worker_loop_turn.simps writer_ops.simps)
  moreover have "fold (worker_loop_turn raw_arrow) [Command (CAppend 1 [1] 5 False), Tick] ?t1 = ?t"
    unfolding demo_register [symmetric] by (simp del: worker_loop_turn.simps)
  ultimately obtain wk where "map_of (wt_workers ?t) 1 = Some wk" by auto
  then show ?thesis
    using tick_flushes_every_writer [OF refl, of raw_arrow ?evs demo_budget] by blast
qed

theorem wal_thread_isolates_writers_witness:
  "\<exists>t. t = fold (worker_loop_turn raw_arrow)
       [Command (CRegister 1 (demo_params (\<lambda>_. io_good))), Command (CRegister 2 (demo_params (\<lambda>_. io_good)))]
       (thread_start demo_budget) \<and>
     map_of (wt_workers (fold (worker_loop_turn raw_arrow) [Command (CAppend 2 [9] 3 True), Command (CFlush 1)] t)) 1 =
       Some (fst (worker_run raw_arrow [OpFlush] (demo_worker (\<lambda>_. io_good), demo_budget) [] 0 False))"
proof -
  let ?w = "demo_worker (\<lambda>_. io_good)"
  let ?evs = "[Command (CRegister 1 (demo_params (\<lambda>_. io_good))), Command (CRegister 2 (demo_params (\<lambda>_. io_good)))]"
  let ?t = "(thread_start demo_budget)\<lparr>wt_workers := [(1, ?w), (2, ?w)]\<rparr> :: bytes wal_thread"
  have t: "?t = fold (worker_loop_turn raw_arrow) ?evs (thread_start demo_budget)"
    using demo_worker_new [of "\<lambda>_. io_good"] by (simp add: set_worker_def thread_start_def)
  have "map_of (wt_workers (fold (worker_loop_turn raw_arrow) [Command (CAppend 2 [9] 3 True), Command (CFlush 1)] ?t)) 1 =
       Some (fst (worker_run raw_arrow [OpFlush] (?w, demo_budget) [] 0 False))"
    using wal_thread_isolates_writers [OF t, of 1 ?w "[Command (CAppend 2 [9] 3 True), Command (CFlush 1)]" _ _
        "CFlush 1" OpFlush]
    by (simp add: thread_start_def)
  then show ?thesis using t by blast
qed

theorem oversized_batch_faults_writer_witness:
  "\<exists>r wk' gb'. worker_append raw_arrow (replicate 6000000 0) 5 True (demo_worker (\<lambda>_. io_good)) demo_budget = (r, wk', gb') \<and>
    is_ok r = False \<and> is_ok (fst (worker_exec raw_arrow (OpAppend [1] 6 True) (wk', gb'))) = False"
proof -
  obtain r wk' gb' where run: "worker_append raw_arrow (replicate 6000000 0) 5 True (demo_worker (\<lambda>_. io_good)) demo_budget =
      (r, wk', gb')"
    by (metis surj_pair)
  have "capped (wk_segment (demo_worker (\<lambda>_. io_good)))" "oversized raw_arrow (replicate 6000000 0)"
    "\<not> wk_faulted (demo_worker (\<lambda>_. io_good))"
    by (simp_all add: demo_worker_def capped_def oversized_def raw_arrow_def size_consts)
  then show ?thesis
    using oversized_batch_faults_writer [OF _ _ _ run, of "[]" gb' "[]" 0 False "OpAppend [1] 6 True" gb'] run by simp
qed

end
