(* ===== verification/Names.thy ===== *)
theory Names
  imports Prelude
begin

text \<open>
  Numbers and paths in file names: decimal printing and parsing as Rust's \<^verbatim>\<open>Display\<close> and
  \<^verbatim>\<open>FromStr\<close> define them for integers, zero padding, splitting, the last component of a path, and
  the numbered WAL files of \<^verbatim>\<open>src/src/storage/src/wal/format.rs\<close>.
\<close>

section \<open>Decimal numbers\<close>

definition digit :: "nat \<Rightarrow> char" where
  "digit n = char_of (48 + n)"

definition is_digit :: "char \<Rightarrow> bool" where
  "is_digit c \<longleftrightarrow> 48 \<le> (of_char c :: nat) \<and> (of_char c :: nat) \<le> 57"

fun show_nat :: "nat \<Rightarrow> string" where
  "show_nat n = (if n < 10 then [digit n] else show_nat (n div 10) @ [digit (n mod 10)])"

declare show_nat.simps [simp del]

definition show_int :: "int \<Rightarrow> string" where
  "show_int i = (if i < 0 then CHR ''-'' # show_nat (nat (- i)) else show_nat (nat i))"

definition digits_val :: "string \<Rightarrow> nat" where
  "digits_val s = foldl (\<lambda>a c. 10 * a + (of_char c - 48)) 0 s"

definition parse_digits :: "string \<Rightarrow> nat option" where
  "parse_digits s = (if s \<noteq> [] \<and> list_all is_digit s then Some (digits_val s) else None)"

text \<open>\<^verbatim>\<open>str::parse\<close> for unsigned and signed integers of a given width.\<close>

definition unplus :: "string \<Rightarrow> string" where
  "unplus s = (case s of c # r \<Rightarrow> if c = CHR ''+'' then r else s | [] \<Rightarrow> [])"

definition parse_unsigned :: "nat \<Rightarrow> string \<Rightarrow> nat option" where
  "parse_unsigned w s = (case parse_digits (unplus s) of
     Some n \<Rightarrow> if n < 2 ^ w then Some n else None | None \<Rightarrow> None)"

definition parse_signed :: "nat \<Rightarrow> string \<Rightarrow> int option" where
  "parse_signed w s =
     (if s \<noteq> [] \<and> hd s = CHR ''-''
      then (case parse_digits (tl s) of
              Some n \<Rightarrow> if n \<le> 2 ^ (w - 1) then Some (- int n) else None | None \<Rightarrow> None)
      else (case parse_digits (unplus s) of
              Some n \<Rightarrow> if n < 2 ^ (w - 1) then Some (int n) else None | None \<Rightarrow> None))"

text \<open>\<^verbatim>\<open>format!("{n:0w$}")\<close>\<close>

definition zero_pad :: "nat \<Rightarrow> nat \<Rightarrow> string" where
  "zero_pad w n = replicate (w - length (show_nat n)) CHR ''0'' @ show_nat n"

section \<open>Strings and paths\<close>

fun split_on :: "char \<Rightarrow> string \<Rightarrow> string list" where
  "split_on c [] = [[]]"
| "split_on c (x # xs) =
     (if x = c then [] # split_on c xs
      else (case split_on c xs of y # ys \<Rightarrow> (x # y) # ys | [] \<Rightarrow> [[x]]))"

fun join_with :: "char \<Rightarrow> string list \<Rightarrow> string" where
  "join_with c [] = []"
| "join_with c [x] = x"
| "join_with c (x # xs) = x @ c # join_with c xs"

definition strip_suffix :: "string \<Rightarrow> string \<Rightarrow> string option" where
  "strip_suffix suf s =
     (let n = length s - length suf in
      if length suf \<le> length s \<and> drop n s = suf then Some (take n s) else None)"

definition starts_with :: "string \<Rightarrow> string \<Rightarrow> bool" where
  "starts_with p s \<longleftrightarrow> take (length p) s = p"

text \<open>\<^verbatim>\<open>Path::file_name\<close>: the last component, unless there is none or it is \<^verbatim>\<open>..\<close>\<close>

definition file_name :: "string \<Rightarrow> string option" where
  "file_name p =
     (let cs = filter (\<lambda>x. x \<noteq> [] \<and> x \<noteq> ''.'') (split_on CHR ''/'' p) in
      if cs = [] \<or> last cs = ''..'' then None else Some (last cs))"

definition path_join :: "string \<Rightarrow> string \<Rightarrow> string" where
  "path_join d n =
     (if starts_with ''/'' n then n
      else if d = [] \<or> last d = CHR ''/'' then d @ n else d @ CHR ''/'' # n)"

section \<open>Numbered WAL files\<close>

definition numbered_wal_name :: "u64 \<Rightarrow> string" where
  "numbered_wal_name i = zero_pad 20 (unat i) @ ''.wal''"

text \<open>What \<open>list_wal_file_ids\<close> makes of one entry of the directory.\<close>

definition wal_name_id :: "string \<Rightarrow> u64 option" where
  "wal_name_id name =
     (case strip_suffix ''.wal'' name of
        None \<Rightarrow> None
      | Some stem \<Rightarrow>
        if length stem = 20 \<and> list_all is_digit stem
        then map_option of_nat (parse_unsigned 64 stem) else None)"

definition wal_name_ids :: "string list \<Rightarrow> u64 list" where
  "wal_name_ids names = sort (List.map_filter wal_name_id names)"

section \<open>Facts\<close>

lemma of_char_digit [simp]: "n < 10 \<Longrightarrow> of_char (digit n) = 48 + n"
  by (simp add: digit_def)

lemma is_digit_digit [simp]: "n < 10 \<Longrightarrow> is_digit (digit n)"
  by (simp add: is_digit_def)

lemma digits_val_append: "digits_val (s @ [c]) = 10 * digits_val s + (of_char c - 48)"
  by (simp add: digits_val_def)

lemma digits_val_zeros: "digits_val (replicate k CHR ''0'' @ s) = digits_val s"
  by (induction k) (simp_all add: digits_val_def)

lemma show_nat_digits [simp]: "list_all is_digit (show_nat n)"
  by (induction n rule: show_nat.induct) (subst show_nat.simps, simp)

lemma show_nat_not_Nil [simp]: "show_nat n \<noteq> []"
  by (subst show_nat.simps) simp

lemma digits_val_show [simp]: "digits_val (show_nat n) = n"
proof (induction n rule: show_nat.induct)
  case (1 n)
  show ?case
  proof (cases "n < 10")
    case True
    then show ?thesis by (subst show_nat.simps) (simp add: digits_val_def)
  next
    case False
    then show ?thesis using 1 by (subst show_nat.simps) (simp add: digits_val_append)
  qed
qed

lemma parse_digits_show [simp]: "parse_digits (show_nat n) = Some n"
  by (simp add: parse_digits_def)

lemma not_digit [simp]: "\<not> is_digit CHR ''+''" "\<not> is_digit CHR ''-''" "\<not> is_digit CHR ''.''" "\<not> is_digit CHR ''s''"
  by (simp_all add: is_digit_def)

lemma is_digit_0 [simp]: "is_digit CHR ''0''"
  by (simp add: is_digit_def)

lemma unplus_digits [simp]: "list_all is_digit s \<Longrightarrow> unplus s = s"
  by (cases s) (auto simp: unplus_def)

lemma parse_unsigned_show: "n < 2 ^ w \<Longrightarrow> parse_unsigned w (show_nat n) = Some n"
  by (simp add: parse_unsigned_def)

lemma show_nat_hd: "hd (show_nat n) \<noteq> CHR ''-''"
  using show_nat_digits [of n] show_nat_not_Nil [of n] not_digit(2) by (metis list.pred_inject(2) list.collapse)

lemma parse_signed_show:
  assumes "- (2 ^ (w - 1)) \<le> i" and "i < 2 ^ (w - 1)"
  shows "parse_signed w (show_int i) = Some i"
proof (cases "i < 0")
  case True
  then have "nat (- i) \<le> 2 ^ (w - 1)" using assms(1) by (simp add: nat_le_iff)
  then show ?thesis using True by (simp add: show_int_def parse_signed_def)
next
  case False
  then have "nat i < 2 ^ (w - 1)" using assms(2) by (simp add: nat_less_iff)
  then show ?thesis using False by (simp add: show_int_def parse_signed_def show_nat_hd)
qed

lemma length_show_nat: "n < 10 ^ k \<Longrightarrow> 0 < k \<Longrightarrow> length (show_nat n) \<le> k"
proof (induction k arbitrary: n)
  case (Suc k)
  show ?case
  proof (cases "n < 10")
    case True
    then show ?thesis by (subst show_nat.simps) simp
  next
    case False
    then have "k > 0" "n div 10 < 10 ^ k" using Suc.prems by (cases k; simp)+
    then show ?thesis using Suc.IH [of "n div 10"] False by (subst show_nat.simps) simp
  qed
qed simp

lemma split_on_not_Nil [simp]: "split_on c s \<noteq> []"
  by (cases s) (auto split: list.split)

lemma split_on_part: "c \<notin> set x \<Longrightarrow> split_on c x = [x]"
  by (induction x) auto

lemma split_on_Cons: "c \<notin> set x \<Longrightarrow> split_on c (x @ c # s) = x # split_on c s"
  by (induction x) auto

lemma split_on_last: "c \<notin> set n \<Longrightarrow> split_on c (d @ c # n) = split_on c d @ [n]"
  by (induction d) (auto simp: split_on_part split: list.split)

lemma split_join: "xs \<noteq> [] \<Longrightarrow> \<forall>x \<in> set xs. c \<notin> set x \<Longrightarrow> split_on c (join_with c xs) = xs"
  by (induction c xs rule: join_with.induct) (simp_all add: split_on_part split_on_Cons)

lemma strip_suffix_append [simp]: "strip_suffix suf (s @ suf) = Some s"
  by (simp add: strip_suffix_def)

lemma strip_suffix_Some: "strip_suffix suf s = Some r \<longleftrightarrow> s = r @ suf"
  by (auto simp: strip_suffix_def Let_def split: if_splits) (metis append_take_drop_id)

text \<open>Digit strings of one length are determined by their value.\<close>

lemma digits_val_inj:
  "length s = length t \<Longrightarrow> list_all is_digit s \<Longrightarrow> list_all is_digit t \<Longrightarrow>
   digits_val s = digits_val t \<Longrightarrow> s = t"
proof (induction s arbitrary: t rule: rev_induct)
  case (snoc c s)
  obtain d t' where t: "t = t' @ [d]" using snoc.prems(1) by (cases t rule: rev_cases) auto
  have dig: "is_digit c" "is_digit d" using snoc.prems(2,3) t by simp_all
  have eq: "10 * digits_val s + (of_char c - 48) = 10 * digits_val t' + (of_char d - 48)"
    using snoc.prems(4) t by (simp add: digits_val_append)
  have "a = b \<and> x = y" if "10 * a + (x - 48) = 10 * b + (y - 48)" "48 \<le> x" "x \<le> 57" "48 \<le> y" "y \<le> 57"
    for a b x y :: nat
  proof -
    have "(10 * a + (x - 48)) div 10 = a" "(10 * b + (y - 48)) div 10 = b" using that(2-5) by simp_all
    then show ?thesis using that by simp
  qed
  from this [OF eq] have "digits_val s = digits_val t'" "(of_char c :: nat) = of_char d"
    using dig unfolding is_digit_def by blast+
  then show ?case using snoc.IH [of t'] snoc.prems t by simp
qed simp

lemma zero_pad_digits: "list_all is_digit (zero_pad w n)"
  by (simp add: zero_pad_def list_all_iff [of _ "replicate _ _"])

lemma zero_pad_val [simp]: "digits_val (zero_pad w n) = n"
  by (simp add: zero_pad_def digits_val_zeros)

lemma length_zero_pad: "n < 10 ^ w \<Longrightarrow> 0 < w \<Longrightarrow> length (zero_pad w n) = w"
  using length_show_nat [of n w] by (simp add: zero_pad_def)

lemma u64_digits: "unat (i :: u64) < 10 ^ 20"
  using unat_lt_2p64 [of i] by simp

lemma parse_unsigned_pad: "n < 2 ^ w \<Longrightarrow> parse_unsigned w (zero_pad v n) = Some n"
  by (simp add: parse_unsigned_def parse_digits_def zero_pad_digits) (simp add: zero_pad_def)

section \<open>Properties\<close>

text \<open>
  C23. The names of WAL files identify them: the scan of a WAL directory takes an entry for the WAL file
  with a given id exactly when the entry has the name under which this file is created.
\<close>
theorem wal_name_exact: "wal_name_id name = Some i \<longleftrightarrow> name = numbered_wal_name i"
proof
  assume "wal_name_id name = Some i"
  then obtain stem n where stem: "name = stem @ ''.wal''" "length stem = 20" "list_all is_digit stem"
    and n: "parse_unsigned 64 stem = Some n" "i = of_nat n"
    by (auto simp: wal_name_id_def strip_suffix_Some split: option.splits if_splits)
  have v: "digits_val stem = n" "n < 2 ^ 64"
    using n(1) stem(2,3) by (auto simp: parse_unsigned_def parse_digits_def split: if_splits)
  then have "unat i = n" using n(2) by (simp add: unat_of_nat)
  then have "stem = zero_pad 20 (unat i)"
    using stem v(1) length_zero_pad [OF u64_digits, of i] zero_pad_digits by (intro digits_val_inj) simp_all
  then show "name = numbered_wal_name i" using stem(1) by (simp add: numbered_wal_name_def)
next
  assume "name = numbered_wal_name i"
  moreover have "parse_unsigned 64 (zero_pad 20 (unat i)) = Some (unat i)"
    using unat_lt_2p64 [of i] by (intro parse_unsigned_pad) simp
  ultimately show "wal_name_id name = Some i"
    by (simp add: wal_name_id_def numbered_wal_name_def zero_pad_digits length_zero_pad [OF u64_digits])
qed

end
