(* ===== verification/Sst.thy ===== *)
theory Sst
  imports Names
begin

text \<open>
  Identities and metadata of SST files and the per-table file index
  (\<^verbatim>\<open>src/src/storage/src/compaction/sst_id.rs\<close> and \<^verbatim>\<open>sst.rs\<close>): the file name carries the creation
  time, the LSN span and the compaction generations; the index keeps the files ordered by their
  smallest timestamp.
\<close>

section \<open>Identities\<close>

text \<open>\<^verbatim>\<open>i64\<close> is \<open>int\<close>; the code only compares timestamps, and saturates where it adds.\<close>

type_synonym i64 = int

definition i64_max :: i64 where
  "i64_max = 2 ^ 63 - 1"

definition i64_min :: i64 where
  "i64_min = - (2 ^ 63)"

record sst_identity =
  si_creation_time_ms :: i64
  si_min_lsn :: u64
  si_max_lsn :: u64
  si_inner :: u32
  si_cross :: u32
  si_staging :: "string option"

definition from_parts :: "i64 \<Rightarrow> u64 \<Rightarrow> u64 \<Rightarrow> u32 \<Rightarrow> u32 \<Rightarrow> sst_identity" where
  "from_parts t lo hi inner cross =
     (let (lo, hi) = (if lo \<le> hi then (lo, hi) else (hi, lo))
      in \<lparr>si_creation_time_ms = t, si_min_lsn = lo, si_max_lsn = hi, si_inner = inner,
          si_cross = cross, si_staging = None\<rparr>)"

text \<open>The clock of the process: the last value handed out and a reading of the wall clock.\<close>

definition now_ms :: "i64 \<Rightarrow> i64 \<Rightarrow> i64" where
  "now_ms wall prev = (if wall > prev then wall else min (prev + 1) i64_max)"

definition fresh_flush :: "i64 \<Rightarrow> u64 \<Rightarrow> u64 \<Rightarrow> sst_identity" where
  "fresh_flush now lo hi = from_parts now lo hi 0 0"

definition staging :: "i64 \<Rightarrow> string \<Rightarrow> sst_identity" where
  "staging now uuid = \<lparr>si_creation_time_ms = now, si_min_lsn = 0, si_max_lsn = 0, si_inner = 0,
     si_cross = 0, si_staging = Some uuid\<rparr>"

definition is_staging :: "sst_identity \<Rightarrow> bool" where
  "is_staging i \<longleftrightarrow> si_staging i \<noteq> None"

definition u32_succ_sat :: "u32 \<Rightarrow> u32" where
  "u32_succ_sat x = (if x = - 1 then - 1 else x + 1)"

definition after_inner_merge_run :: "i64 \<Rightarrow> sst_identity list \<Rightarrow> sst_identity" where
  "after_inner_merge_run now ids =
     (if ids = [] then fresh_flush now 0 0
      else \<lparr>si_creation_time_ms = now,
             si_min_lsn = Min (set (map si_min_lsn ids)), si_max_lsn = Max (set (map si_max_lsn ids)),
             si_inner = u32_succ_sat (Max (set (map si_inner ids))),
             si_cross = Max (set (map si_cross ids)), si_staging = None\<rparr>)"

definition filename :: "sst_identity \<Rightarrow> string" where
  "filename i = (case si_staging i of
     Some uuid \<Rightarrow> ''staging-'' @ uuid @ ''.parquet''
   | None \<Rightarrow> join_with CHR ''-'' [show_int (si_creation_time_ms i), show_nat (unat (si_min_lsn i)),
       show_nat (unat (si_max_lsn i)), show_nat (unat (si_inner i)), show_nat (unat (si_cross i))] @
       ''.parquet'')"

definition id_covers_lsn :: "sst_identity \<Rightarrow> u64 \<Rightarrow> bool" where
  "id_covers_lsn i lsn \<longleftrightarrow> si_min_lsn i \<le> lsn \<and> lsn \<le> si_max_lsn i"

definition base_name :: "string \<Rightarrow> string" where
  "base_name name = (case file_name name of Some s \<Rightarrow> s | None \<Rightarrow> name)"

definition parse_field :: "'a option \<Rightarrow> 'a res" where
  "parse_field r = ok_or (Storage ''invalid SST field in filename'') r"

definition parse_sst_filename :: "string \<Rightarrow> sst_identity res" where
  "parse_sst_filename name =
     (case strip_suffix ''.parquet'' (base_name name) of
        None \<Rightarrow> Inl (Storage ''invalid SST suffix'')
      | Some stem \<Rightarrow>
        if starts_with ''staging-'' stem then Inl (Storage ''staging files are not readable indices'')
        else (case split_on CHR ''-'' stem of
            [p1, p2, p3, p4, p5] \<Rightarrow>
              and_then (parse_field (parse_signed 64 p1)) (\<lambda>t.
              and_then (parse_field (parse_unsigned 64 p2)) (\<lambda>lo.
              and_then (parse_field (parse_unsigned 64 p3)) (\<lambda>hi.
              and_then (parse_field (parse_unsigned 32 p4)) (\<lambda>inner.
              and_then (parse_field (parse_unsigned 32 p5)) (\<lambda>cross.
                Inr \<lparr>si_creation_time_ms = t, si_min_lsn = of_nat lo, si_max_lsn = of_nat hi,
                     si_inner = of_nat inner, si_cross = of_nat cross, si_staging = None\<rparr>)))))
          | parts \<Rightarrow> Inl (Storage ''invalid SST filename format'')))"

definition is_staging_sst_filename :: "string \<Rightarrow> bool" where
  "is_staging_sst_filename name \<longleftrightarrow>
     starts_with ''staging-'' (base_name name) \<and> strip_suffix ''.parquet'' (base_name name) \<noteq> None"

section \<open>Metadata\<close>

record sst_meta =
  sm_file_path :: string
  sm_min_ts :: i64
  sm_max_ts :: i64
  sm_row_count :: nat
  sm_file_size :: u64
  sm_creation_time_ms :: i64
  sm_inner :: u32
  sm_cross :: u32
  sm_base_lsn :: u64
  sm_max_lsn :: u64

definition from_identity ::
  "sst_identity \<Rightarrow> string \<Rightarrow> i64 \<Rightarrow> i64 \<Rightarrow> nat \<Rightarrow> u64 \<Rightarrow> sst_meta" where
  "from_identity i path lo hi rows sz =
     \<lparr>sm_file_path = path, sm_min_ts = lo, sm_max_ts = hi, sm_row_count = rows, sm_file_size = sz,
      sm_creation_time_ms = si_creation_time_ms i, sm_inner = si_inner i, sm_cross = si_cross i,
      sm_base_lsn = si_min_lsn i, sm_max_lsn = si_max_lsn i\<rparr>"

definition with_lsn_bounds :: "u64 \<Rightarrow> u64 \<Rightarrow> sst_meta \<Rightarrow> sst_meta" where
  "with_lsn_bounds lo hi m = m\<lparr>sm_base_lsn := lo, sm_max_lsn := hi\<rparr>"

definition has_lsn_bounds :: "sst_meta \<Rightarrow> bool" where
  "has_lsn_bounds m \<longleftrightarrow> sm_base_lsn m > 0 \<or> sm_max_lsn m > 0"

definition meta_identity :: "sst_meta \<Rightarrow> sst_identity" where
  "meta_identity m =
     from_parts (sm_creation_time_ms m) (sm_base_lsn m) (sm_max_lsn m) (sm_inner m) (sm_cross m)"

definition meta_covers_lsn :: "u64 \<Rightarrow> sst_meta \<Rightarrow> bool" where
  "meta_covers_lsn lsn m \<longleftrightarrow> has_lsn_bounds m \<and> sm_base_lsn m \<le> lsn \<and> lsn \<le> sm_max_lsn m"

definition validate :: "sst_meta \<Rightarrow> unit res" where
  "validate m =
     (case file_name (sm_file_path m) of
        None \<Rightarrow> Inl (Storage ''invalid SST path'')
      | Some name \<Rightarrow>
        let inverted = (if sm_base_lsn m > sm_max_lsn m
                        then Inl (Storage ''SST LSN range inverted'') else Inr ())
        in if is_staging_sst_filename name then inverted
           else and_then (parse_sst_filename name) (\<lambda>p.
             if si_creation_time_ms p \<noteq> sm_creation_time_ms m \<or> si_min_lsn p \<noteq> sm_base_lsn m \<or>
                si_max_lsn p \<noteq> sm_max_lsn m \<or> si_inner p \<noteq> sm_inner m \<or> si_cross p \<noteq> sm_cross m
             then Inl (Storage ''SST metadata mismatch'') else inverted))"

section \<open>The file index\<close>

type_synonym file_index = "sst_meta list"

text \<open>\<^verbatim>\<open>slice::binary_search_by_key\<close> with both results unwrapped: the position of a matching key,
  or the position where the key can be inserted.\<close>

function bs_loop :: "i64 list \<Rightarrow> i64 \<Rightarrow> nat \<Rightarrow> nat \<Rightarrow> nat" where
  "bs_loop ks k base sz =
     (if sz \<le> 1 then base
      else let half = sz div 2
           in bs_loop ks k (if ks ! (base + half) > k then base else base + half) (sz - half))"
  by pat_completeness auto
termination
  by (relation "measure (\<lambda>(_, _, _, sz). sz)") auto

declare bs_loop.simps [simp del]

definition binary_search :: "i64 list \<Rightarrow> i64 \<Rightarrow> nat" where
  "binary_search ks k =
     (if ks = [] then 0
      else let base = bs_loop ks k 0 (length ks) in if ks ! base < k then base + 1 else base)"

definition insert_at :: "nat \<Rightarrow> 'a \<Rightarrow> 'a list \<Rightarrow> 'a list" where
  "insert_at p x xs = take p xs @ x # drop p xs"

fun validate_all :: "sst_meta list \<Rightarrow> unit res" where
  "validate_all [] = Inr ()"
| "validate_all (f # fs) = and_then (validate f) (\<lambda>_. validate_all fs)"

definition from_persisted :: "sst_meta list \<Rightarrow> file_index res" where
  "from_persisted files = and_then (validate_all files) (\<lambda>_. Inr (sort_key sm_min_ts files))"

definition covers_lsn :: "file_index \<Rightarrow> u64 \<Rightarrow> bool" where
  "covers_lsn fi lsn \<longleftrightarrow> list_ex (meta_covers_lsn lsn) fi"

lemma covers_step:
  assumes "find (meta_covers_lsn cursor) fi = Some f" and "\<not> hi \<le> sm_max_lsn f"
  shows "cursor < sat_add (sm_max_lsn f) 1" and "sat_add (sm_max_lsn f) 1 \<le> hi"
proof -
  have c: "cursor \<le> sm_max_lsn f" using assms(1) by (auto simp: find_Some_iff meta_covers_lsn_def)
  have "sm_max_lsn f < hi" using assms(2) by simp
  moreover from this have "sm_max_lsn f \<noteq> u64_max" by (metis leD word_order.extremum)
  ultimately show "cursor < sat_add (sm_max_lsn f) 1" and "sat_add (sm_max_lsn f) 1 \<le> hi"
    using c word_succ_gt [of "sm_max_lsn f"] by (auto simp: sat_add_one inc_le)
qed

lemma covers_measure:
  "find (meta_covers_lsn cursor) fi = Some f \<Longrightarrow> \<not> hi \<le> sm_max_lsn f \<Longrightarrow>
   unat hi - unat (sat_add (sm_max_lsn f) 1) < unat hi - unat cursor"
  using covers_step [of cursor fi f hi] by (simp add: word_less_nat_alt word_le_nat_alt)

function covers_range_loop :: "file_index \<Rightarrow> u64 \<Rightarrow> u64 \<Rightarrow> bool" where
  "covers_range_loop fi cursor hi =
     (if \<not> cursor \<le> hi then True
      else (case find (meta_covers_lsn cursor) fi of
          None \<Rightarrow> False
        | Some f \<Rightarrow>
          if sm_max_lsn f \<ge> hi then True
          else covers_range_loop fi (sat_add (sm_max_lsn f) 1) hi))"
  by pat_completeness auto
termination
  by (relation "measure (\<lambda>(_, cursor, hi). unat hi - unat cursor)")
    (simp_all add: covers_measure)

declare covers_range_loop.simps [simp del]

definition covers_lsn_range :: "file_index \<Rightarrow> u64 \<Rightarrow> u64 \<Rightarrow> bool" where
  "covers_lsn_range fi lo hi \<longleftrightarrow>
     (if lo > hi then True
      else list_ex (\<lambda>f. has_lsn_bounds f \<and> sm_base_lsn f \<le> lo \<and> sm_max_lsn f \<ge> hi) fi \<or>
           covers_range_loop fi lo hi)"

text \<open>\<open>None\<close> is the panic of \<^verbatim>\<open>expect\<close> on invalid metadata.\<close>

definition fi_insert :: "sst_meta \<Rightarrow> file_index \<Rightarrow> file_index option" where
  "fi_insert m fi =
     (case validate m of
        Inl _ \<Rightarrow> None
      | Inr _ \<Rightarrow> Some (insert_at (binary_search (map sm_min_ts fi) (sm_min_ts m)) m fi))"

fun set_lsn_bounds :: "string \<Rightarrow> u64 \<Rightarrow> u64 \<Rightarrow> file_index \<Rightarrow> file_index" where
  "set_lsn_bounds path lo hi [] = []"
| "set_lsn_bounds path lo hi (f # fi) =
     (if sm_file_path f = path then with_lsn_bounds lo hi f # fi
      else f # set_lsn_bounds path lo hi fi)"

fun remove_times :: "nat \<Rightarrow> nat \<Rightarrow> 'a list \<Rightarrow> 'a list" where
  "remove_times start 0 xs = xs"
| "remove_times start (Suc n) xs =
     remove_times start n (if start < length xs then take start xs @ drop (Suc start) xs else xs)"

definition replace_range :: "nat \<Rightarrow> nat \<Rightarrow> sst_meta \<Rightarrow> file_index \<Rightarrow> file_index option" where
  "replace_range start cnt m fi =
     (case validate m of
        Inl _ \<Rightarrow> None
      | Inr _ \<Rightarrow>
        let fi' = remove_times start cnt fi
        in if start \<le> length fi' then Some (insert_at start m fi') else None)"

section \<open>Names round trip\<close>

lemma dash_free: "CHR ''-'' \<notin> set (show_nat n)"
  using show_nat_digits [of n] not_digit(2) by (auto simp: list_all_iff)

lemma show_nat_free: "\<not> is_digit c \<Longrightarrow> c \<notin> set (show_nat n)"
  using show_nat_digits [of n] by (auto simp: list_all_iff)

lemma split_path: "\<lbrakk>c \<notin> set s; s \<noteq> []; s \<noteq> ''.''; s \<noteq> ''..''; c = CHR ''/''\<rbrakk> \<Longrightarrow> file_name s = Some s"
  by (simp add: file_name_def split_on_part)

lemma starts_with_hd: "starts_with (c # p) s \<Longrightarrow> hd (s @ r) = c"
  by (cases s) (auto simp: starts_with_def)

definition plain_id :: "sst_identity \<Rightarrow> bool" where
  "plain_id i \<longleftrightarrow> si_staging i = None \<and> 0 \<le> si_creation_time_ms i \<and> si_creation_time_ms i \<le> i64_max"

lemma u_bounds: "unat (x :: u64) < 2 ^ 64" "unat (y :: u32) < 2 ^ 32"
  using unsigned_less [of x] unsigned_less [of y] by simp_all

lemma filename_chars:
  assumes "plain_id i"
  shows "CHR ''/'' \<notin> set (filename i)" and "filename i \<noteq> []" and "hd (filename i) \<noteq> CHR ''s''"
    and "hd (filename i) \<noteq> CHR ''.''"
proof -
  let ?h = "show_nat (nat (si_creation_time_ms i))"
  have f: "\<exists>r. filename i = ?h @ CHR ''-'' # r"
    using assms by (simp add: filename_def plain_id_def show_int_def)
  have "is_digit (hd ?h)" using show_nat_digits [of "nat (si_creation_time_ms i)"] by (simp add: list_all_iff)
  then show "hd (filename i) \<noteq> CHR ''s''" "hd (filename i) \<noteq> CHR ''.''" using f not_digit by auto
  show "filename i \<noteq> []" using f by auto
  have "\<not> is_digit CHR ''/''" by (simp add: is_digit_def)
  then show "CHR ''/'' \<notin> set (filename i)"
    using assms by (simp add: filename_def plain_id_def show_int_def show_nat_free)
qed

lemma file_name_filename:
  assumes "plain_id i"
  shows "file_name (filename i) = Some (filename i)"
  using filename_chars [OF assms] by (intro split_path) auto

lemma parse_stem:
  assumes "plain_id i"
  shows "parse_sst_filename (filename i) = Inr i"
proof -
  let ?ps = "[show_int (si_creation_time_ms i), show_nat (unat (si_min_lsn i)),
       show_nat (unat (si_max_lsn i)), show_nat (unat (si_inner i)), show_nat (unat (si_cross i))]"
  have stem: "filename i = join_with CHR ''-'' ?ps @ ''.parquet''"
    using assms by (simp add: filename_def plain_id_def)
  have split: "split_on CHR ''-'' (join_with CHR ''-'' ?ps) = ?ps"
    using assms by (intro split_join) (auto simp: plain_id_def show_int_def dash_free)
  have st: "\<not> starts_with ''staging-'' (join_with CHR ''-'' ?ps)"
    using filename_chars(3) [OF assms] starts_with_hd unfolding stem by blast
  have "parse_signed 64 (show_int (si_creation_time_ms i)) = Some (si_creation_time_ms i)"
    using assms by (intro parse_signed_show) (simp_all add: plain_id_def i64_max_def)
  moreover have "parse_unsigned 64 (show_nat (unat x)) = Some (unat x)" for x :: u64
    using u_bounds(1) by (intro parse_unsigned_show) simp
  moreover have "parse_unsigned 32 (show_nat (unat x)) = Some (unat x)" for x :: u32
    using u_bounds(2) by (intro parse_unsigned_show) simp
  ultimately show ?thesis
    using file_name_filename [OF assms] st split assms
    by (simp add: parse_sst_filename_def base_name_def stem parse_field_def plain_id_def del: join_with.simps)
qed

section \<open>The index keeps its order\<close>

lemma bs_loop_spec:
  "\<lbrakk>sorted ks; 0 < sz; base + sz \<le> length ks;
    \<forall>j < length ks. j < base \<longrightarrow> ks ! j \<le> k; base = 0 \<or> ks ! base \<le> k;
    \<forall>j < length ks. base + sz \<le> j \<longrightarrow> k < ks ! j\<rbrakk> \<Longrightarrow>
   bs_loop ks k base sz < length ks \<and>
   (\<forall>j < length ks. j < bs_loop ks k base sz \<longrightarrow> ks ! j \<le> k) \<and>
   (\<forall>j < length ks. bs_loop ks k base sz < j \<longrightarrow> k < ks ! j)"
proof (induction ks k base sz rule: bs_loop.induct)
  case (1 ks k base sz)
  show ?case
  proof (cases "sz \<le> 1")
    case True
    then have b: "bs_loop ks k base sz = base" by (simp add: bs_loop.simps [of ks k base sz])
    have sz: "sz = 1" using True "1.prems"(2) by simp
    have hi: "k < ks ! j" if "j < length ks" "base < j" for j
      using "1.prems"(6) that sz by (metis Suc_eq_plus1 Suc_leI)
    show ?thesis unfolding b using "1.prems"(3,4) hi sz by simp
  next
    case big: False
    let ?half = "sz div 2"
    let ?b = "if ks ! (base + ?half) > k then base else base + ?half"
    have m: "base + ?half < length ks" using big "1.prems"(3) by auto
    have mono: "ks ! i \<le> ks ! j" if "i \<le> j" "j < length ks" for i j
      using "1.prems"(1) that by (rule sorted_nth_mono)
    have lo1: "ks ! j \<le> k" if "j < length ks" "j < ?b" for j
    proof (cases "ks ! (base + ?half) > k")
      case True
      then show ?thesis using "1.prems"(4) that by simp
    next
      case False
      then have "j \<le> base + ?half" using that by simp
      from mono [OF this m] show ?thesis using False by linarith
    qed
    have lo2: "?b = 0 \<or> ks ! ?b \<le> k" using "1.prems"(5) by simp
    have hi: "k < ks ! j" if "j < length ks" "?b + (sz - ?half) \<le> j" for j
    proof (cases "ks ! (base + ?half) > k")
      case True
      have "base + ?half \<le> base + (sz - ?half)" by simp
      then have "base + ?half \<le> j" using that(2) True by simp
      from mono [OF this that(1)] show ?thesis using True by linarith
    next
      case False
      then have "base + sz \<le> j" using that(2) big by simp
      then show ?thesis using "1.prems"(6) that(1) by blast
    qed
    have "?b + (sz - ?half) \<le> length ks" "0 < sz - ?half" using "1.prems"(2,3) big by auto
    moreover have step: "bs_loop ks k base sz = bs_loop ks k ?b (sz - ?half)"
      using big by (subst bs_loop.simps) (simp only: if_False Let_def)
    ultimately show ?thesis
      unfolding step using lo1 lo2 hi by (intro "1.IH" [OF big refl "1.prems"(1)]) blast+
  qed
qed

lemma binary_search_spec:
  assumes "sorted ks"
  shows "binary_search ks k \<le> length ks \<and>
    (\<forall>j < length ks. j < binary_search ks k \<longrightarrow> ks ! j \<le> k) \<and>
    (\<forall>j < length ks. binary_search ks k \<le> j \<longrightarrow> k \<le> ks ! j)"
proof (cases "ks = []")
  case False
  let ?b = "bs_loop ks k 0 (length ks)"
  have b: "?b < length ks" "\<forall>j < length ks. j < ?b \<longrightarrow> ks ! j \<le> k" "\<forall>j < length ks. ?b < j \<longrightarrow> k < ks ! j"
    using bs_loop_spec [OF assms, of "length ks" 0 k] False by auto
  then show ?thesis
    using False by (auto simp: binary_search_def Let_def less_Suc_eq le_less)
qed (simp add: binary_search_def)

lemma sorted_insert_at:
  assumes "sorted ks" and "p \<le> length ks" and "\<forall>j < length ks. j < p \<longrightarrow> ks ! j \<le> k"
    and "\<forall>j < length ks. p \<le> j \<longrightarrow> k \<le> ks ! j"
  shows "sorted (insert_at p k ks)"
proof -
  have "\<forall>x \<in> set (take p ks). x \<le> k" "\<forall>x \<in> set (drop p ks). k \<le> x"
    using assms(2-4) by (auto simp: in_set_conv_nth)
  then show ?thesis
    using assms(1) sorted_append [of "take p ks" "drop p ks"] by (auto simp: insert_at_def sorted_append)
qed

lemma map_insert_at: "map f (insert_at p x xs) = insert_at p (f x) (map f xs)"
  by (simp add: insert_at_def take_map drop_map)

lemma fi_insert_sorted:
  assumes "sorted (map sm_min_ts fi)" and "fi_insert m fi = Some fi'"
  shows "sorted (map sm_min_ts fi') \<and> mset fi' = add_mset m (mset fi)"
proof -
  let ?p = "binary_search (map sm_min_ts fi) (sm_min_ts m)"
  have fi': "fi' = insert_at ?p m fi" using assms(2) by (auto simp: fi_insert_def split: sum.splits)
  have "sorted (map sm_min_ts fi')"
    unfolding fi' map_insert_at using binary_search_spec [OF assms(1), of "sm_min_ts m"] assms(1)
    by (intro sorted_insert_at) auto
  moreover have "mset fi' = add_mset m (mset fi)"
    using mset_append [of "take ?p fi" "drop ?p fi"] unfolding fi' insert_at_def by simp
  ultimately show ?thesis by simp
qed

section \<open>Coverage of a range\<close>

lemma covers_range_loop_iff:
  "covers_range_loop fi cursor hi \<longleftrightarrow> (\<forall>l. cursor \<le> l \<and> l \<le> hi \<longrightarrow> covers_lsn fi l)"
proof (induction fi cursor hi rule: covers_range_loop.induct)
  case (1 fi cursor hi)
  show ?case
  proof (cases "cursor \<le> hi")
    case le: True
    show ?thesis
    proof (cases "find (meta_covers_lsn cursor) fi")
      case None
      then have "\<not> covers_lsn fi cursor" by (auto simp: covers_lsn_def list_ex_iff find_None_iff)
      then show ?thesis using le None by (subst covers_range_loop.simps) auto
    next
      case (Some f)
      then have f: "f \<in> set fi" "has_lsn_bounds f" "sm_base_lsn f \<le> cursor" "cursor \<le> sm_max_lsn f"
        by (auto simp: find_Some_iff meta_covers_lsn_def)
      then have upto: "covers_lsn fi l" if "cursor \<le> l" "l \<le> sm_max_lsn f" for l
        using that by (auto simp: covers_lsn_def list_ex_iff meta_covers_lsn_def intro!: bexI [of _ f])
      show ?thesis
      proof (cases "hi \<le> sm_max_lsn f")
        case True
        then show ?thesis using le Some upto by (subst covers_range_loop.simps) (auto intro: order.trans)
      next
        case False
        let ?c = "sat_add (sm_max_lsn f) 1"
        have c: "l \<le> sm_max_lsn f \<or> ?c \<le> l" for l
        proof -
          have "sm_max_lsn f \<noteq> u64_max" using False by (metis word_order.extremum)
          then show ?thesis by (cases "l \<le> sm_max_lsn f") (simp_all add: sat_add_one inc_le)
        qed
        have "covers_range_loop fi cursor hi \<longleftrightarrow> covers_range_loop fi ?c hi"
          using le Some False by (subst covers_range_loop.simps) simp
        also have "\<dots> \<longleftrightarrow> (\<forall>l. ?c \<le> l \<and> l \<le> hi \<longrightarrow> covers_lsn fi l)"
          using "1.IH" [OF _ Some False] le by simp
        also have "\<dots> \<longleftrightarrow> (\<forall>l. cursor \<le> l \<and> l \<le> hi \<longrightarrow> covers_lsn fi l)"
          using upto c covers_step(1) [OF Some False] by (meson order.trans order_less_imp_le)
        finally show ?thesis .
      qed
    qed
  next
    case False
    then show ?thesis by (subst covers_range_loop.simps) auto
  qed
qed

fun clock_run :: "i64 list \<Rightarrow> i64 \<Rightarrow> i64 list" where
  "clock_run [] prev = []"
| "clock_run (w # ws) prev = (let t = now_ms w prev in t # clock_run ws t)"

lemma clock_run_increasing:
  "\<forall>t \<in> set (clock_run ws prev). t < i64_max \<Longrightarrow>
   sorted_wrt (<) (clock_run ws prev) \<and> (\<forall>t \<in> set (clock_run ws prev). prev < t)"
proof (induction ws arbitrary: prev)
  case (Cons w ws)
  let ?t = "now_ms w prev"
  have "prev < ?t" using Cons.prems by (auto simp: now_ms_def Let_def min_def split: if_splits)
  moreover have "sorted_wrt (<) (clock_run ws ?t) \<and> (\<forall>t \<in> set (clock_run ws ?t). ?t < t)"
    using Cons by (simp add: Let_def)
  ultimately show ?case by (auto simp: Let_def)
qed simp

lemma from_parts_plain: "0 \<le> t \<Longrightarrow> t \<le> i64_max \<Longrightarrow> plain_id (from_parts t lo hi inner cross)"
  by (simp add: plain_id_def from_parts_def Let_def)

lemma file_name_join:
  assumes "plain_id i"
  shows "file_name (path_join d (filename i)) = Some (filename i)"
proof -
  note c = filename_chars [OF assms]
  have fn: "filename i \<noteq> ''.''" "filename i \<noteq> ''..''" using c(4) by auto
  have n: "split_on CHR ''/'' (filename i) = [filename i]" using c(1) by (rule split_on_part)
  have nw: "\<not> starts_with ''/'' (filename i)" using c(1,2) by (cases "filename i") (auto simp: starts_with_def)
  show ?thesis
  proof (cases "d = [] \<or> last d = CHR ''/''")
    case True
    then have "split_on CHR ''/'' (d @ filename i) = butlast (split_on CHR ''/'' (d @ filename i)) @ [filename i]"
      using split_on_last [OF c(1), of "butlast d"] n by (cases d rule: rev_cases) auto
    then obtain xs where xs: "split_on CHR ''/'' (d @ filename i) = xs @ [filename i]" by blast
    show ?thesis unfolding path_join_def file_name_def using True nw c(2) fn by (simp add: xs Let_def)
  next
    case False
    then show ?thesis
      unfolding path_join_def file_name_def using nw c(2) fn split_on_last [OF c(1), of d] by (simp add: Let_def)
  qed
qed

section \<open>Properties\<close>

text \<open>
  C21. The name of an SST file carries its identity: it parses back to the identity it was printed
  from, and the metadata of a file written under this name in any directory passes validation.
\<close>
theorem sst_name_roundtrip:
  assumes "0 \<le> t" and "t \<le> i64_max" and "i = from_parts t lo hi inner cross"
  shows "parse_sst_filename (filename i) = Inr i \<and>
    validate (from_identity i (path_join d (filename i)) a b rows sz) = Inr ()"
proof -
  have p: "plain_id i" unfolding assms(3) by (rule from_parts_plain [OF assms(1,2)])
  have "si_min_lsn i \<le> si_max_lsn i" using linear [of lo hi] by (auto simp: assms(3) from_parts_def Let_def)
  moreover have "\<not> is_staging_sst_filename (filename i)"
    using filename_chars(2,3) [OF p] file_name_filename [OF p]
    by (cases "filename i") (auto simp: is_staging_sst_filename_def base_name_def starts_with_def)
  ultimately show ?thesis
    using parse_stem [OF p] file_name_join [OF p, of d] by (simp add: validate_def from_identity_def Let_def)
qed

theorem sst_name_roundtrip_witness:
  "parse_sst_filename (filename (from_parts 1575028885956 101 105 1 0)) = Inr (from_parts 1575028885956 101 105 1 0)"
  using sst_name_roundtrip [OF _ _ refl, of 1575028885956 101 105 1 0] by (simp add: i64_max_def)

text \<open>
  C20. The coverage test of a range of LSNs, which walks greedily over overlapping files, terminates and
  answers exactly whether every LSN of the range is covered by some file of the index.
\<close>
theorem covers_lsn_range_exact:
  "covers_lsn_range fi lo hi \<longleftrightarrow> (\<forall>l. lo \<le> l \<and> l \<le> hi \<longrightarrow> covers_lsn fi l)"
proof (cases "lo \<le> hi")
  case True
  have "covers_lsn fi l" if "f \<in> set fi" "has_lsn_bounds f" "sm_base_lsn f \<le> lo" "hi \<le> sm_max_lsn f" "lo \<le> l" "l \<le> hi"
    for f l
    using that by (auto simp: covers_lsn_def list_ex_iff meta_covers_lsn_def intro!: bexI [of _ f] intro: order.trans)
  then show ?thesis
    using True by (auto simp: covers_lsn_range_def covers_range_loop_iff list_ex_iff)
qed (auto simp: covers_lsn_range_def)

definition demo_meta :: "u64 \<Rightarrow> u64 \<Rightarrow> sst_meta" where
  "demo_meta lo hi = from_identity (from_parts 7 lo hi 0 0) (filename (from_parts 7 lo hi 0 0)) (int (unat lo)) 9 1 1"

theorem covers_lsn_range_exact_witness:
  "covers_lsn_range [demo_meta 5 9, demo_meta 1 6] 2 8 \<and> covers_lsn [demo_meta 5 9, demo_meta 1 6] 7"
proof -
  have "covers_range_loop [demo_meta 5 9, demo_meta 1 6] 2 8"
    by (simp add: covers_range_loop.simps [of _ 2] covers_range_loop.simps [of _ 7] demo_meta_def
        from_identity_def from_parts_def meta_covers_lsn_def has_lsn_bounds_def sat_add_def)
  then have "covers_lsn_range [demo_meta 5 9, demo_meta 1 6] 2 8" by (simp add: covers_lsn_range_def)
  then show ?thesis using covers_lsn_range_exact [of "[demo_meta 5 9, demo_meta 1 6]" 2 8] by simp
qed

text \<open>
  C22. File names do not collide within a process: whatever the wall clock reads, also when it goes
  backwards, files created one after the other get different names, until the millisecond counter
  saturates.
\<close>
theorem sst_names_distinct:
  assumes "0 \<le> prev" and "\<forall>t \<in> set (clock_run ws prev). t < i64_max" and "length parts = length ws"
  shows "distinct (map2 (\<lambda>t (lo, hi, inner, cross). filename (from_parts t lo hi inner cross)) (clock_run ws prev) parts)"
proof -
  note inc = clock_run_increasing [OF assms(2)]
  have len: "length (clock_run ws prev) = length ws" by (induction ws arbitrary: prev) (simp_all add: Let_def)
  have "clock_run ws prev = map si_creation_time_ms (map2 (\<lambda>t (lo, hi, inner, cross). from_parts t lo hi inner cross)
      (clock_run ws prev) parts)" (is "_ = map _ ?is")
    using len assms(3) by (intro nth_equalityI) (auto simp: from_parts_def Let_def split: prod.split)
  then have "distinct ?is" using inc by (metis distinct_map strict_sorted_iff)
  moreover have "inj_on filename (set ?is)"
  proof (rule inj_onI)
    fix i j
    assume "i \<in> set ?is" "j \<in> set ?is" and eq: "filename i = filename j"
    then have "plain_id i" "plain_id j"
      using inc assms(1,2) by (fastforce intro!: from_parts_plain dest: set_zip_leftD)+
    then show "i = j" using eq parse_stem by (metis sum.inject(2))
  qed
  ultimately have "distinct (map filename ?is)" using distinct_map by blast
  moreover have "map filename ?is =
      map2 (\<lambda>t (lo, hi, inner, cross). filename (from_parts t lo hi inner cross)) (clock_run ws prev) parts"
    by (simp add: case_prod_unfold)
  ultimately show ?thesis by metis
qed

theorem sst_names_distinct_witness:
  "distinct (map2 (\<lambda>t (lo, hi, inner, cross). filename (from_parts t lo hi inner cross)) (clock_run [10, 3, 10] 0)
     [(1, 2, 0, 0), (1, 2, 0, 0), (1, 2, 0, 0)])"
  using sst_names_distinct [of 0 "[10, 3, 10]" "[(1, 2, 0, 0), (1, 2, 0, 0), (1, 2, 0, 0)]"]
  by (simp add: now_ms_def i64_max_def)

end
