(* ===== verification/Wal_Recover.thy ===== *)
theory Wal_Recover
  imports Wal_Commit Sst
begin

text \<open>
  LSN-based recovery of a table's WAL (\<^verbatim>\<open>src/src/storage/src/wal/lsn_recover.rs\<close>): header-only scans
  for LSN ranges, the rule by which a WAL file may be dropped, and the walk that hands the batches
  not yet in an SST to the rebuild, one partition per memtable.
\<close>

section \<open>Header scans\<close>

function header_loop ::
  "('st \<Rightarrow> frame_header \<Rightarrow> ('st, 'o) ctl) \<Rightarrow> ('st \<Rightarrow> 'o) \<Rightarrow> 'st \<Rightarrow> bytes \<Rightarrow> 'o" where
  "header_loop step stop st r =
     (case frame_header_decode r of
        Inr (Some (h, r1)) \<Rightarrow>
          (case step st h of
             Go st' \<Rightarrow> header_loop step stop st' (drop (body_len h) r1)
           | Done x \<Rightarrow> x)
      | _ \<Rightarrow> stop st)"
  by pat_completeness auto
termination
proof (relation "measure (\<lambda>(_, _, _, r). length r)")
  fix step :: "'st \<Rightarrow> frame_header \<Rightarrow> ('st, 'o) ctl" and stop st r d y h r1 st'
  assume "frame_header_decode r = Inr d" "d = Some y" "(h, r1) = y"
  then have "length r1 < length r"
    by (auto simp: frame_header_decode_def read_exact_def Let_def split: option.splits if_splits prod.splits)
  then show "((step, stop, st', drop (body_len h) r1), step, stop, st, r) \<in> measure (\<lambda>(_, _, _, r). length r)"
    by simp
qed simp

declare header_loop.simps [simp del]

definition lsn_range_step :: "u64 \<times> u64 \<Rightarrow> frame_header \<Rightarrow> (u64 \<times> u64, u64 \<times> u64) ctl" where
  "lsn_range_step st h =
     (let (lo, hi) = st;
          st' = (if fh_record_type h = RBatch \<and> fh_lsn h > 0 then (min lo (fh_lsn h), max hi (fh_lsn h))
                 else (lo, hi))
      in if fh_record_type h = RFooter then Done st' else Go st')"

definition lsn_range_in_segment :: "bytes option \<Rightarrow> u64 \<times> u64" where
  "lsn_range_in_segment file =
     (case file of
        None \<Rightarrow> (0, 0)
      | Some d \<Rightarrow>
        (case segment_header_decode d of
           Inl _ \<Rightarrow> (0, 0)
         | Inr (_, r) \<Rightarrow>
           let (lo, hi) = header_loop lsn_range_step (\<lambda>st. st) (u64_max, 0) r
           in if hi = 0 then (0, 0) else (lo, hi)))"

definition max_lsn_in_segment :: "bytes option \<Rightarrow> u64" where
  "max_lsn_in_segment file = snd (lsn_range_in_segment file)"

definition has_batches_step :: "unit \<Rightarrow> frame_header \<Rightarrow> (unit, bool) ctl" where
  "has_batches_step st h =
     (case fh_record_type h of RBatch \<Rightarrow> Done True | RFooter \<Rightarrow> Done False | _ \<Rightarrow> Go ())"

definition segment_has_batches :: "bytes option \<Rightarrow> bool" where
  "segment_has_batches file =
     (case file of
        None \<Rightarrow> False
      | Some d \<Rightarrow>
        (case segment_header_decode d of
           Inl _ \<Rightarrow> False
         | Inr (_, r) \<Rightarrow> header_loop has_batches_step (\<lambda>_. False) () r))"

definition wal_file_bytes :: "u64 \<Rightarrow> table_fs \<Rightarrow> bytes option" where
  "wal_file_bytes i fs = map_option file_data (get_file i fs)"

text \<open>\<open>bulk\<close> are the LSNs of the entries of the bulk-load WAL.\<close>

definition max_lsn_in_table_wals :: "u64 list \<Rightarrow> table_fs \<Rightarrow> u64" where
  "max_lsn_in_table_wals bulk fs =
     max (foldl (\<lambda>m i. max m (max_lsn_in_segment (wal_file_bytes i fs))) 0 (list_wal_file_ids fs))
       (foldl max 0 bulk)"

definition lsn_range_in_memtable_wal :: "table_fs \<Rightarrow> u64 \<times> u64" where
  "lsn_range_in_memtable_wal fs =
     (let (lo, hi) = foldl (\<lambda>(lo, hi) i.
            let (l, h) = lsn_range_in_segment (wal_file_bytes i fs)
            in if h = 0 then (lo, hi) else (min lo l, max hi h)) (u64_max, 0) (list_wal_file_ids fs)
      in if hi = 0 then (0, 0) else (lo, hi))"

definition max_lsn_in_sst_metas :: "sst_meta list \<Rightarrow> u64" where
  "max_lsn_in_sst_metas metas = foldl max 0 (map sm_max_lsn metas)"

definition sst_has_lsn_watermark :: "file_index \<Rightarrow> bool" where
  "sst_has_lsn_watermark fi \<longleftrightarrow> list_ex has_lsn_bounds fi"

definition data_bearing_wal_file_ids :: "table_fs \<Rightarrow> u64 list" where
  "data_bearing_wal_file_ids fs =
     filter (\<lambda>i. segment_has_batches (wal_file_bytes i fs)) (list_wal_file_ids fs)"

definition has_recoverable_memtable_wal :: "table_fs \<Rightarrow> bool" where
  "has_recoverable_memtable_wal fs \<longleftrightarrow> data_bearing_wal_file_ids fs \<noteq> []"

definition batch_needs_recover :: "u64 \<Rightarrow> u64 \<Rightarrow> bool \<Rightarrow> bool" where
  "batch_needs_recover frame_lsn sst_max_lsn sst_has_files =
     (if frame_lsn > 0 then frame_lsn > sst_max_lsn else \<not> sst_has_files)"

definition can_drop_wal_file :: "table_fs \<Rightarrow> u64 \<Rightarrow> file_index \<Rightarrow> bool" where
  "can_drop_wal_file fs i fi =
     (let hi = snd (lsn_range_in_segment (wal_file_bytes i fs)) in
      if hi > 0 then covers_lsn fi hi
      else if \<not> segment_has_batches (wal_file_bytes i fs) then True
      else if sst_has_lsn_watermark fi then True
      else if fi \<noteq> [] then True
      else filter (\<lambda>j. j \<noteq> i) (data_bearing_wal_file_ids fs) \<noteq> [])"

definition can_drop_wal_for_lsn_watermark :: "table_fs \<Rightarrow> file_index \<Rightarrow> bool" where
  "can_drop_wal_for_lsn_watermark fs fi =
     (if sst_has_lsn_watermark fi then True else length (data_bearing_wal_file_ids fs) > 1)"

fun find_loop :: "u64 \<Rightarrow> table_fs \<Rightarrow> u64 list \<Rightarrow> u64 option \<Rightarrow> u64 option" where
  "find_loop lsn fs [] best = best"
| "find_loop lsn fs (i # is) best =
     (let (base, hi) = lsn_range_in_segment (wal_file_bytes i fs) in
      if hi = 0 then find_loop lsn fs is best
      else
        let base = (if base = 0 then hi else base)
        in if base \<le> lsn \<and> lsn \<le> hi then Some i
           else find_loop lsn fs is (if base \<le> lsn then Some i else best))"

definition find_wal_file_for_lsn :: "table_fs \<Rightarrow> u64 \<Rightarrow> u64 option" where
  "find_wal_file_for_lsn fs lsn =
     (let ids = list_wal_file_ids fs in
      case find_loop lsn fs ids None of
        Some i \<Rightarrow> Some i
      | None \<Rightarrow> (case ids of [] \<Rightarrow> None | i # _ \<Rightarrow> Some i))"

definition next_wal_file_after :: "table_fs \<Rightarrow> u64 \<Rightarrow> u64 option" where
  "next_wal_file_after fs i = find (\<lambda>j. j > i) (list_wal_file_ids fs)"

section \<open>The recovery walk\<close>

record 'b wal_recover_partition =
  rp_batches :: "'b list"
  rp_base_lsn :: u64
  rp_max_lsn :: u64

text \<open>
  The variables of the walk: the open partition, the state \<open>'u\<close> of the caller's closure, and the
  variables of the current segment.
\<close>

record ('s, 'b, 'u) walk_state =
  w_batches :: "'b list"
  w_base_lsn :: u64
  w_max_lsn :: u64
  w_user :: 'u
  w_schema :: "'s option"
  w_logical_active :: u64
  w_open_tail_has_batches :: bool
  w_open_tail_max_lsn :: u64
  w_segment_complete :: bool

type_synonym ('b, 'u) on_partition = "'b wal_recover_partition \<Rightarrow> 'u \<Rightarrow> unit res \<times> 'u"

definition walk_emit ::
  "('b, 'u) on_partition \<Rightarrow> ('s, 'b, 'u) walk_state \<Rightarrow> unit res \<times> ('s, 'b, 'u) walk_state" where
  "walk_emit f w =
     (if w_batches w = [] then (Inr (), w\<lparr>w_base_lsn := 0, w_max_lsn := 0\<rparr>)
      else
        let (r, u) = f \<lparr>rp_batches = w_batches w, rp_base_lsn = w_base_lsn w, rp_max_lsn = w_max_lsn w\<rparr>
                       (w_user w);
            w' = w\<lparr>w_batches := [], w_user := u\<rparr>
        in (case r of
              Inl e \<Rightarrow> (Inl e, w')
            | Inr _ \<Rightarrow> (Inr (), w'\<lparr>w_base_lsn := 0, w_max_lsn := 0\<rparr>)))"

definition walk_discard :: "('s, 'b, 'u) walk_state \<Rightarrow> ('s, 'b, 'u) walk_state" where
  "walk_discard w = w\<lparr>w_batches := [], w_base_lsn := 0, w_max_lsn := 0\<rparr>"

definition walk_step ::
  "('s, 'b) arrow \<Rightarrow> ('b, 'u) on_partition \<Rightarrow> u64 \<Rightarrow> bool \<Rightarrow> ('s, 'b, 'u) walk_state \<Rightarrow>
   frame_header \<Rightarrow> bytes \<Rightarrow> bytes \<Rightarrow>
   (('s, 'b, 'u) walk_state, unit res \<times> ('s, 'b, 'u) walk_state) ctl" where
  "walk_step A f sst_max has_files w h payload rest =
     (case fh_record_type h of
        RSchema \<Rightarrow>
          Go (if fh_payload_format h = PAYLOAD_FORMAT_ARROW_IPC \<and> fh_sequence h = SCHEMA_FRAME_SEQUENCE
              then (case decode_schema_ipc A payload of Inr s \<Rightarrow> w\<lparr>w_schema := Some s\<rparr> | Inl _ \<Rightarrow> w)
              else w)
      | RBatch \<Rightarrow>
          let w1 = w\<lparr>w_open_tail_has_batches := True,
                     w_open_tail_max_lsn :=
                       (if fh_lsn h > 0 then max (w_open_tail_max_lsn w) (fh_lsn h)
                        else w_open_tail_max_lsn w)\<rparr>
          in if \<not> batch_needs_recover (fh_lsn h) sst_max has_files then Go w1
             else (case decode_batch_ipc A payload of
                     Inr b \<Rightarrow>
                       let w2 = (if fh_lsn h > 0
                                 then w1\<lparr>w_base_lsn := (if w_base_lsn w1 = 0 \<or> fh_lsn h < w_base_lsn w1
                                                       then fh_lsn h else w_base_lsn w1),
                                         w_max_lsn := max (w_max_lsn w1) (fh_lsn h)\<rparr>
                                 else w1)
                       in Go (w2\<lparr>w_batches := w_batches w2 @ [b]\<rparr>)
                   | Inl e \<Rightarrow> Done (Inr (), w1))
      | RFooter \<Rightarrow> Done (Inr (), w\<lparr>w_segment_complete := True\<rparr>)
      | RMemTableEnd \<Rightarrow>
          let new_id = snd (decode_memtable_end_payload payload);
              w1 = w\<lparr>w_logical_active := (if new_id > 0 then new_id else w_logical_active w),
                     w_open_tail_has_batches := False, w_open_tail_max_lsn := 0\<rparr>
          in (case walk_emit f w1 of (Inl e, w2) \<Rightarrow> Done (Inl e, w2) | (Inr _, w2) \<Rightarrow> Go w2)
      | RUnknown _ \<Rightarrow> Go w)"

definition seal_open_wal_tail ::
  "('s, 'b) arrow \<Rightarrow> u64 \<Rightarrow> u64 \<Rightarrow> u64 \<Rightarrow> u64 \<Rightarrow> table_fs \<Rightarrow> unit res \<times> table_fs" where
  "seal_open_wal_tail A i end_lsn closed new fs =
     (case wal_segment_tail A (wal_file_bytes i fs) of
        Inl e \<Rightarrow> (Inl e, fs)
      | Inr t \<Rightarrow>
        if wst_has_footer t then (Inr (), fs)
        else (case (resume_any A (io_now fs) (get_file i fs), get_file i fs) of
            (Inr w, Some f) \<Rightarrow>
              let fs1 = tick fs;
                  (r, w', f') = append_memtable_end A (io_now fs1) end_lsn closed new w f
              in (r, put_file i (Some f') (tick fs1))
          | (Inl e, _) \<Rightarrow> (Inl e, tick fs)
          | (Inr _, None) \<Rightarrow> (Inl (Io ''not found''), tick fs)))"

definition walk_segment ::
  "('s, 'b) arrow \<Rightarrow> ('b, 'u) on_partition \<Rightarrow> u64 \<Rightarrow> bool \<Rightarrow> u64 \<Rightarrow> ('s, 'b, 'u) walk_state \<times> table_fs
     \<Rightarrow> unit res \<times> ('s, 'b, 'u) walk_state \<times> table_fs" where
  "walk_segment A f sst_max has_files i st =
     (let (w, fs) = st in
      case wal_file_bytes i fs of
        None \<Rightarrow> (Inr (), w, fs)
      | Some d \<Rightarrow>
        (case segment_header_decode d of
           Inl _ \<Rightarrow> (Inr (), w, fs)
         | Inr (header, r) \<Rightarrow>
           let w0 = w\<lparr>w_logical_active := sh_memtable_id header, w_open_tail_has_batches := False,
                      w_open_tail_max_lsn := 0, w_segment_complete := False, w_schema := None\<rparr>;
               (res, w1) = frame_loop A (walk_step A f sst_max has_files) (\<lambda>w _. (Inr (), w)) w0 r
           in (case res of
                 Inl e \<Rightarrow> (Inl e, w1, fs)
               | Inr _ \<Rightarrow>
                 if w_open_tail_has_batches w1
                 then (case walk_emit f w1 of
                         (Inl e, w2) \<Rightarrow> (Inl e, w2, fs)
                       | (Inr _, w2) \<Rightarrow>
                         if w_segment_complete w2 then (Inr (), w2, fs)
                         else
                           let closed = w_logical_active w2;
                               (r', fs') = seal_open_wal_tail A i (w_open_tail_max_lsn w2) closed
                                             (sat_add closed 1) fs
                           in (r', w2, fs'))
                 else (Inr (), walk_discard w1, fs))))"

fun walk_files ::
  "('s, 'b) arrow \<Rightarrow> ('b, 'u) on_partition \<Rightarrow> u64 \<Rightarrow> bool \<Rightarrow> u64 list \<Rightarrow> ('s, 'b, 'u) walk_state \<times> table_fs
     \<Rightarrow> unit res \<times> ('s, 'b, 'u) walk_state \<times> table_fs" where
  "walk_files A f sst_max has_files [] st = (Inr (), st)"
| "walk_files A f sst_max has_files (i # is) st =
     (case walk_segment A f sst_max has_files i st of
        (Inl e, st') \<Rightarrow> (Inl e, st')
      | (Inr _, st') \<Rightarrow> walk_files A f sst_max has_files is st')"

definition walk_start :: "'u \<Rightarrow> ('s, 'b, 'u) walk_state" where
  "walk_start u = \<lparr>w_batches = [], w_base_lsn = 0, w_max_lsn = 0, w_user = u, w_schema = None,
     w_logical_active = 0, w_open_tail_has_batches = False, w_open_tail_max_lsn = 0,
     w_segment_complete = False\<rparr>"

definition walk_unflushed_partitions ::
  "('s, 'b) arrow \<Rightarrow> u64 \<Rightarrow> bool \<Rightarrow> ('b, 'u) on_partition \<Rightarrow> 'u \<Rightarrow> table_fs \<Rightarrow> unit res \<times> 'u \<times> table_fs" where
  "walk_unflushed_partitions A sst_max has_files f u fs =
     (let (r, w, fs') = walk_files A f sst_max has_files (list_wal_file_ids fs) (walk_start u, fs)
      in (r, w_user w, fs'))"

section \<open>What the walk hands over\<close>

text \<open>The batches of a log with their LSNs, and the groups a walk forms of those that it needs.\<close>

fun log_pairs :: "'b log_entry list \<Rightarrow> (u64 \<times> 'b) list" where
  "log_pairs [] = []"
| "log_pairs (LBatch l b # es) = (l, b) # log_pairs es"
| "log_pairs (LEnd l c n # es) = log_pairs es"

definition needed :: "u64 \<Rightarrow> bool \<Rightarrow> (u64 \<times> 'b) list \<Rightarrow> (u64 \<times> 'b) list" where
  "needed sst_max has_files ps = filter (\<lambda>p. batch_needs_recover (fst p) sst_max has_files) ps"

definition nonempty :: "'a list \<Rightarrow> 'a list list" where
  "nonempty g = (if g = [] then [] else [g])"

fun walk_groups ::
  "u64 \<Rightarrow> bool \<Rightarrow> 'b log_entry list \<Rightarrow> (u64 \<times> 'b) list \<Rightarrow> (u64 \<times> 'b) list list \<times> (u64 \<times> 'b) list" where
  "walk_groups mx hf [] g = ([], g)"
| "walk_groups mx hf (LBatch l b # es) g = walk_groups mx hf es (g @ needed mx hf [(l, b)])"
| "walk_groups mx hf (LEnd l c n # es) g =
     (let (gs, h) = walk_groups mx hf es [] in (nonempty g @ gs, h))"

definition seg_parts :: "u64 \<Rightarrow> bool \<Rightarrow> 'b log_entry list \<Rightarrow> (u64 \<times> 'b) list list" where
  "seg_parts mx hf es = (let (gs, h) = walk_groups mx hf es [] in gs @ nonempty h)"

definition grp_base :: "(u64 \<times> 'b) list \<Rightarrow> u64" where
  "grp_base g = foldl (\<lambda>m p. if fst p > 0 \<and> (m = 0 \<or> fst p < m) then fst p else m) 0 g"

definition grp_max :: "(u64 \<times> 'b) list \<Rightarrow> u64" where
  "grp_max g = foldl (\<lambda>m p. max m (fst p)) 0 g"

definition part_of :: "(u64 \<times> 'b) list \<Rightarrow> 'b wal_recover_partition" where
  "part_of g = \<lparr>rp_batches = map snd g, rp_base_lsn = grp_base g, rp_max_lsn = grp_max g\<rparr>"

definition holds_group :: "(u64 \<times> 'b) list \<Rightarrow> ('s, 'b, 'u) walk_state \<Rightarrow> bool" where
  "holds_group g w \<longleftrightarrow> w_batches w = map snd g \<and> w_base_lsn w = grp_base g \<and> w_max_lsn w = grp_max g \<and>
     (\<not> w_open_tail_has_batches w \<longrightarrow> g = [])"

lemma concat_nonempty [simp]: "concat (nonempty g) = g"
  by (simp add: nonempty_def)

lemma walk_groups_concat:
  "walk_groups mx hf es g = (gs, h) \<Longrightarrow> concat gs @ h = g @ needed mx hf (log_pairs es)"
  by (induction mx hf es g arbitrary: gs h rule: walk_groups.induct)
    (auto simp: needed_def Let_def split: prod.splits)

lemma seg_parts_concat: "concat (seg_parts mx hf es) = needed mx hf (log_pairs es)"
  using walk_groups_concat [of mx hf es "[]"] by (auto simp: seg_parts_def split: prod.splits)

lemma emit_group:
  assumes "holds_group g w" and "\<And>p u. f p u = (Inr (), upd p u)"
  shows "\<exists>w'. walk_emit f w = (Inr (), w') \<and> w_user w' = fold upd (map part_of (nonempty g)) (w_user w) \<and>
    w_batches w' = [] \<and> w_base_lsn w' = 0 \<and> w_max_lsn w' = 0 \<and>
    w_open_tail_has_batches w' = w_open_tail_has_batches w \<and> w_segment_complete w' = w_segment_complete w \<and>
    w_open_tail_max_lsn w' = w_open_tail_max_lsn w \<and> w_logical_active w' = w_logical_active w"
  using assms by (auto simp: holds_group_def walk_emit_def nonempty_def part_of_def Let_def)

lemma grp_snoc:
  "grp_base (g @ [(l, b)]) = (if l > 0 \<and> (grp_base g = 0 \<or> l < grp_base g) then l else grp_base g)"
  "grp_max (g @ [(l, b)]) = max (grp_max g) l"
  by (auto simp: grp_base_def grp_max_def)

lemma step_batch:
  assumes "arrow_ok A" and "entry_ok A (LBatch l b)" and "holds_group g w"
    and fr_def: "fr = entry_frame A k (LBatch l b)"
  shows "\<exists>w'. walk_step A f mx hf w (fst fr) (snd fr) r = Go w' \<and> holds_group (g @ needed mx hf [(l, b)]) w' \<and>
    w_segment_complete w' = w_segment_complete w \<and> w_user w' = w_user w"
proof -
  have d: "decode_batch_ipc A (entry_payload A (LBatch l b)) = Inr b" using decode_entry [OF assms(1,2)] .
  have z: "l = 0" if "\<not> 0 < l" using that by (simp add: word_greater_zero_iff)
  show ?thesis
    using assms(3) d z
    by (auto simp: fr_def walk_step_def Let_def holds_group_def needed_def grp_snoc)
qed

lemma step_end:
  assumes "holds_group g w" and "\<And>p u. f p u = (Inr (), upd p u)"
    and fr_def: "fr = entry_frame A k (LEnd l c n)"
  shows "\<exists>w'. walk_step A f mx hf w (fst fr) (snd fr) r = Go w' \<and> holds_group [] w' \<and>
    w_segment_complete w' = w_segment_complete w \<and> w_user w' = fold upd (map part_of (nonempty g)) (w_user w)"
proof -
  let ?w = "w\<lparr>w_logical_active := (if n > 0 then n else w_logical_active w), w_open_tail_has_batches := False,
    w_open_tail_max_lsn := 0\<rparr>"
  have "\<exists>w'. walk_emit f ?w = (Inr (), w') \<and> holds_group [] w' \<and> w_segment_complete w' = w_segment_complete w \<and>
      w_user w' = fold upd (map part_of (nonempty g)) (w_user w)"
    using assms(1,2)
    by (auto simp: holds_group_def walk_emit_def nonempty_def part_of_def Let_def grp_base_def grp_max_def)
  then show ?thesis by (auto simp: fr_def walk_step_def Let_def)
qed

lemma run_walk:
  assumes "arrow_ok A" and f: "\<And>p u. f p u = (Inr (), upd p u)"
  shows "list_all (entry_ok A) es \<Longrightarrow> holds_group g w \<Longrightarrow> walk_groups mx hf es g = (gs, h) \<Longrightarrow>
    \<exists>w'. frame_run (walk_step A f mx hf) t (entry_frames A k es) w = Go w' \<and> holds_group h w' \<and>
      w_segment_complete w' = w_segment_complete w \<and> w_user w' = fold upd (map part_of gs) (w_user w)"
proof (induction es arbitrary: k g w gs)
  case (Cons e es)
  show ?case
  proof (cases e)
    case (LBatch l b)
    have eo: "entry_ok A (LBatch l b)" using Cons.prems(1) LBatch by simp
    obtain w1 where step: "walk_step A f mx hf w (fst (entry_frame A k (LBatch l b))) (snd (entry_frame A k (LBatch l b)))
        (frames_bytes (entry_frames A (k + 1) es) @ t) = Go w1"
      and w1: "holds_group (g @ needed mx hf [(l, b)]) w1" "w_segment_complete w1 = w_segment_complete w" "w_user w1 = w_user w"
      using step_batch [where f = f and mx = mx and hf = hf and r = "frames_bytes (entry_frames A (k + 1) es) @ t",
          OF assms(1) eo Cons.prems(2) refl, of k] by blast
    have "walk_groups mx hf es (g @ needed mx hf [(l, b)]) = (gs, h)" using Cons.prems(3) LBatch by simp
    from Cons.IH [OF _ w1(1) this, of "k + 1"] show ?thesis using Cons.prems(1) LBatch w1(2,3) step by simp
  next
    case (LEnd l c n)
    obtain gs1 where gs: "walk_groups mx hf es [] = (gs1, h)" "gs = nonempty g @ gs1"
      using Cons.prems(3) LEnd by (auto split: prod.splits)
    obtain w1 where step: "walk_step A f mx hf w (fst (entry_frame A k (LEnd l c n))) (snd (entry_frame A k (LEnd l c n)))
        (frames_bytes (entry_frames A (k + 1) es) @ t) = Go w1"
      and w1: "holds_group [] w1" "w_segment_complete w1 = w_segment_complete w"
        "w_user w1 = fold upd (map part_of (nonempty g)) (w_user w)"
      using step_end [where f = f and upd = upd and mx = mx and hf = hf and A = A and
          r = "frames_bytes (entry_frames A (k + 1) es) @ t", OF Cons.prems(2) f refl, of k l c n] by blast
    from Cons.IH [OF _ w1(1) gs(1), of "k + 1"] show ?thesis using Cons.prems(1) gs(2) LEnd w1(2,3) step by simp
  qed
qed simp

text \<open>A file that holds a log: open with any unreadable tail, finished, or without a readable entry.\<close>

definition open_log :: "('s, 'b) arrow \<Rightarrow> bytes \<Rightarrow> 'b log_entry list \<Rightarrow> bool" where
  "open_log A d es \<longleftrightarrow> (\<exists>now mid s t. log_ok A s es \<and> torn A t \<and> d = seg_bytes A now mid s es @ t)"

definition closed_log :: "('s, 'b) arrow \<Rightarrow> bytes \<Rightarrow> 'b log_entry list \<Rightarrow> bool" where
  "closed_log A d es \<longleftrightarrow> (\<exists>now mid s c. log_ok A s es \<and> d = closed_bytes A now c mid s es)"

definition blank :: "('s, 'b) arrow \<Rightarrow> bytes \<Rightarrow> bool" where
  "blank A d \<longleftrightarrow> (\<exists>e. segment_header_decode d = Inl e) \<or>
     (\<exists>now mid t. torn A t \<and> d = segment_header_encode (new_v1 now mid) @ t)"

definition file_log :: "('s, 'b) arrow \<Rightarrow> bytes \<Rightarrow> 'b log_entry list \<Rightarrow> bool" where
  "file_log A d es \<longleftrightarrow> open_log A d es \<or> closed_log A d es \<or> es = [] \<and> blank A d"

definition good_io :: "table_fs \<Rightarrow> bool" where
  "good_io fs \<longleftrightarrow> (\<forall>k. tf_io fs k = io_good)"

lemma walk_open_frames:
  assumes "log_ok A s es" and "torn A t" and f: "\<And>p u. f p u = (Inr (), upd p u)"
    and "holds_group [] w" and "walk_groups mx hf es [] = (gs, h)"
  shows "\<exists>w'. frame_loop A (walk_step A f mx hf) (\<lambda>w _. (Inr (), w)) w (frames_bytes (log_frames A s es) @ t) = (Inr (), w') \<and>
    holds_group h w' \<and> w_segment_complete w' = w_segment_complete w \<and> w_user w' = fold upd (map part_of gs) (w_user w)"
proof -
  let ?w = "w\<lparr>w_schema := Some s\<rparr>"
  have ok: "arrow_ok A" "schema_ok A s" "list_all (entry_ok A) es" using assms(1) by (simp_all add: log_ok_def)
  have step: "walk_step A f mx hf w (fst (schema_frame A s)) (snd (schema_frame A s)) r = Go ?w" for r
    using decode_schema_frame [OF ok(1,2)] by (simp add: walk_step_def schema_frame_def)
  have "holds_group [] ?w" using assms(4) by (simp add: holds_group_def)
  then obtain w' where w': "frame_run (walk_step A f mx hf) t (entry_frames A 1 es) ?w = Go w'"
    "holds_group h w'" "w_segment_complete w' = w_segment_complete w" "w_user w' = fold upd (map part_of gs) (w_user w)"
    using run_walk [where f = f and upd = upd and t = t and k = 1, OF ok(1) f ok(3) _ assms(5), of ?w] by auto
  then have "frame_run (walk_step A f mx hf) t (log_frames A s es) w = Go w'"
    by (simp add: log_frames_def step)
  then show ?thesis using log_loop [OF assms(1,2)] w'(2-4) by fastforce
qed

lemma walk_closed_frames:
  assumes "log_ok A s es" and f: "\<And>p u. f p u = (Inr (), upd p u)"
    and "holds_group [] w" and "walk_groups mx hf es [] = (gs, h)"
  shows "\<exists>w'. frame_loop A (walk_step A f mx hf) (\<lambda>w _. (Inr (), w)) w
      (frames_bytes (log_frames A s es) @ frame_bytes (footer_frame A c es)) = (Inr (), w') \<and>
    holds_group h w' \<and> w_segment_complete w' \<and> w_user w' = fold upd (map part_of gs) (w_user w)"
proof -
  let ?g = "footer_frame A c es" and ?w = "w\<lparr>w_schema := Some s\<rparr>"
  have ok: "arrow_ok A" "schema_ok A s" "list_all (entry_ok A) es" using assms(1) by (simp_all add: log_ok_def)
  have step: "walk_step A f mx hf w (fst (schema_frame A s)) (snd (schema_frame A s)) r = Go ?w" for r
    using decode_schema_frame [OF ok(1,2)] by (simp add: walk_step_def schema_frame_def)
  have "holds_group [] ?w" using assms(3) by (simp add: holds_group_def)
  then obtain w' where w': "frame_run (walk_step A f mx hf) (frame_bytes ?g) (entry_frames A 1 es) ?w = Go w'"
    "holds_group h w'" "w_user w' = fold upd (map part_of gs) (w_user w)"
    using run_walk [where f = f and upd = upd and t = "frame_bytes ?g" and k = 1, OF ok(1) f ok(3) _ assms(4), of ?w] by auto
  then have "frame_run (walk_step A f mx hf) (frame_bytes ?g) (log_frames A s es) w = Go w'"
    by (simp add: log_frames_def step)
  moreover have "frame_loop A (walk_step A f mx hf) (\<lambda>w _. (Inr (), w)) w' (frame_bytes ?g) =
      (Inr (), w'\<lparr>w_segment_complete := True\<rparr>)"
    using frame_loop_frames [of A "[?g]" "walk_step A f mx hf" "\<lambda>w _. (Inr (), w)" w' "[]"]
    by (simp add: footer_frame_wf walk_step_def) (simp add: footer_frame_def Let_def)
  ultimately show ?thesis
    using frame_loop_frames [OF log_frames_wf [OF assms(1)], of "walk_step A f mx hf" "\<lambda>w _. (Inr (), w)" w "frame_bytes ?g"]
      w'(2,3) by (auto simp: holds_group_def)
qed

lemma good_io_now [simp]: "good_io fs \<Longrightarrow> io_now fs = io_good" "good_io fs \<Longrightarrow> good_io (tick fs)"
  "good_io fs \<Longrightarrow> good_io (put_file i f fs)"
  by (cases f; simp add: good_io_def io_now_def tick_def put_file_def)+

lemma get_put_file: "j \<noteq> i \<Longrightarrow> get_file j (put_file i f fs) = get_file j fs"
  by (cases f) (simp_all add: get_file_def put_file_def update_conv)

lemma append_end_good:
  assumes "FRAME_HEADER_SIZE + 16 \<le> fw_block_max_bytes w"
  shows "\<exists>w' f'. append_memtable_end A io_good l c n w f = (Inr (), w', f')"
  using assms by (auto simp: append_memtable_end_def write_frame_def seg_sync_def io_good_def Let_def size_consts
      encode_memtable_end_payload_def codec)

lemma seal_open:
  assumes "open_log A d es" and "wal_file_bytes i fs = Some d" and "good_io fs"
  shows "\<exists>fs'. seal_open_wal_tail A i l c n fs = (Inr (), fs') \<and> good_io fs' \<and> (\<forall>j. j \<noteq> i \<longrightarrow> get_file j fs' = get_file j fs)"
proof -
  obtain now mid s t where d: "log_ok A s es" "torn A t" "d = seg_bytes A now mid s es @ t"
    using assms(1) by (auto simp: open_log_def)
  obtain f where f: "get_file i fs = Some f" "file_data f = d" using assms(2) by (auto simp: wal_file_bytes_def)
  have tail: "scan_segment_tail A (Some d) = Inr (tail_of A es)" using scan_segment_tail_log [OF d(1,2)] d(3) by simp
  have hdr: "segment_header_decode d = Inr (new_v1 now mid, frames_bytes (log_frames A s es) @ t)"
    by (simp add: d(3) seg_bytes_def)
  obtain w where w: "resume_any A io_good (Some f) = Inr w" "fw_block_max_bytes w = clamp_block_max DEFAULT_WAL_BLOCK_MAX_BYTES"
    using tail hdr f(2) by (simp add: resume_any_def resume_with_block_max_def tail_of_def io_good_def)
  obtain w' f' where a: "append_memtable_end A io_good l c n w f = (Inr (), w', f')"
    using append_end_good [of w A l c n f] w(2) by (auto simp: clamp_block_max_def clamp_def size_consts)
  have "seal_open_wal_tail A i l c n fs = (Inr (), put_file i (Some f') (tick (tick fs)))"
    using assms(3) f w(1) a tail
    by (simp add: seal_open_wal_tail_def wal_segment_tail_def wal_file_bytes_def tail_of_def)
  then show ?thesis using assms(3) get_put_file [of _ i] by simp
qed

definition idle :: "('s, 'b, 'u) walk_state \<Rightarrow> bool" where
  "idle w \<longleftrightarrow> w_batches w = [] \<and> w_base_lsn w = 0 \<and> w_max_lsn w = 0"

lemma segment_end:
  assumes f: "\<And>p u. f p u = (Inr (), upd p u)" and "holds_group h w1"
  shows "w_open_tail_has_batches w1 \<Longrightarrow> \<exists>w2. walk_emit f w1 = (Inr (), w2) \<and> idle w2 \<and>
      w_user w2 = fold upd (map part_of (nonempty h)) (w_user w1) \<and> w_segment_complete w2 = w_segment_complete w1"
    and "\<not> w_open_tail_has_batches w1 \<Longrightarrow> idle (walk_discard w1) \<and>
      w_user (walk_discard w1) = fold upd (map part_of (nonempty h)) (w_user w1)"
  using emit_group [where f = f and upd = upd, OF assms(2) f] assms(2)
  by (auto simp: idle_def walk_discard_def holds_group_def nonempty_def)

definition seg_start :: "('s, 'b, 'u) walk_state \<Rightarrow> u64 \<Rightarrow> ('s, 'b, 'u) walk_state" where
  "seg_start w mid = w\<lparr>w_logical_active := mid, w_open_tail_has_batches := False,
    w_open_tail_max_lsn := 0, w_segment_complete := False, w_schema := None\<rparr>"

lemma seg_start [simp]:
  "idle w \<Longrightarrow> holds_group [] (seg_start w mid)" "w_user (seg_start w mid) = w_user w"
  "\<not> w_segment_complete (seg_start w mid)"
  by (simp_all add: seg_start_def holds_group_def idle_def grp_base_def grp_max_def)

text \<open>The outcome of a segment whose frames were read to the end.\<close>

lemma walk_segment_end:
  assumes f: "\<And>p u. f p u = (Inr (), upd p u)" and "wal_file_bytes i fs = Some d"
    and "segment_header_decode d = Inr (sh, r)"
    and "frame_loop A (walk_step A f mx hf) (\<lambda>w _. (Inr (), w)) (seg_start w (sh_memtable_id sh)) r = (Inr (), w1)"
    and "holds_group h w1" and "good_io fs" and "w_segment_complete w1 \<or> open_log A d es"
  shows "\<exists>w' fs'. walk_segment A f mx hf i (w, fs) = (Inr (), w', fs') \<and> idle w' \<and> good_io fs' \<and>
    w_user w' = fold upd (map part_of (nonempty h)) (w_user w1) \<and> (\<forall>j. j \<noteq> i \<longrightarrow> get_file j fs' = get_file j fs)"
proof (cases "w_open_tail_has_batches w1")
  case True
  obtain w2 where w2: "walk_emit f w1 = (Inr (), w2)" "idle w2" "w_segment_complete w2 = w_segment_complete w1"
    "w_user w2 = fold upd (map part_of (nonempty h)) (w_user w1)"
    using segment_end(1) [where f = f and upd = upd, OF f assms(5) True] by auto
  show ?thesis
  proof (cases "w_segment_complete w1")
    case True
    then show ?thesis
      using \<open>w_open_tail_has_batches w1\<close> w2 assms(2-4,6) by (simp add: walk_segment_def seg_start_def Let_def)
  next
    case False
    then obtain fs' where "seal_open_wal_tail A i (w_open_tail_max_lsn w2) (w_logical_active w2)
        (sat_add (w_logical_active w2) 1) fs = (Inr (), fs')"
      "good_io fs'" "\<forall>j. j \<noteq> i \<longrightarrow> get_file j fs' = get_file j fs"
      using seal_open [OF _ assms(2,6)] assms(7) by blast
    then show ?thesis
      using \<open>w_open_tail_has_batches w1\<close> False w2 assms(2-4) by (simp add: walk_segment_def seg_start_def Let_def)
  qed
next
  case False
  then show ?thesis
    using segment_end(2) [where f = f and upd = upd, OF f assms(5) False] assms(2-4,6)
    by (simp add: walk_segment_def seg_start_def Let_def)
qed

lemma walk_segment_log:
  assumes f: "\<And>p u. f p u = (Inr (), upd p u)" and fl: "wal_file_bytes i fs = Some d" and "file_log A d es"
    and io: "good_io fs" and w: "idle w"
  shows "\<exists>w' fs'. walk_segment A f mx hf i (w, fs) = (Inr (), w', fs') \<and> idle w' \<and> good_io fs' \<and>
    w_user w' = fold upd (map part_of (seg_parts mx hf es)) (w_user w) \<and> (\<forall>j. j \<noteq> i \<longrightarrow> get_file j fs' = get_file j fs)"
proof -
  obtain gs h where g: "walk_groups mx hf es [] = (gs, h)" by fastforce
  have parts: "fold upd (map part_of (nonempty h)) (fold upd (map part_of gs) u) =
      fold upd (map part_of (seg_parts mx hf es)) u" for u
    by (simp add: seg_parts_def g)
  note fin = walk_segment_end [where f = f and upd = upd, OF f fl _ _ _ io]
  consider (opened) "open_log A d es" | (closed) "closed_log A d es" | (blank) "es = []" "blank A d"
    using assms(3) by (auto simp: file_log_def)
  then show ?thesis
  proof cases
    case opened
    then obtain now mid s t where d: "log_ok A s es" "torn A t" "d = seg_bytes A now mid s es @ t"
      by (auto simp: open_log_def)
    then have "segment_header_decode d = Inr (new_v1 now mid, frames_bytes (log_frames A s es) @ t)"
      by (simp add: seg_bytes_def)
    then show ?thesis
      using walk_open_frames [where f = f and upd = upd, OF d(1,2) f seg_start(1) [OF w] g, of mid] fin opened parts
      by fastforce
  next
    case closed
    then obtain now mid s c where d: "log_ok A s es" "d = closed_bytes A now c mid s es"
      by (auto simp: closed_log_def)
    then have "segment_header_decode d =
        Inr (new_v1 now mid, frames_bytes (log_frames A s es) @ frame_bytes (footer_frame A c es))"
      by (simp add: closed_bytes_def seg_bytes_def)
    then show ?thesis
      using walk_closed_frames [where f = f and upd = upd, OF d(1) f seg_start(1) [OF w] g, of mid c] fin parts
      by fastforce
  next
    case blank
    then show ?thesis
      using fl io w
      by (auto simp: blank_def walk_segment_def seg_parts_def nonempty_def frame_loop_torn idle_def walk_discard_def Let_def)
  qed
qed

lemma walk_files_log:
  assumes f: "\<And>p u. f p u = (Inr (), upd p u)"
  shows "list_all2 (\<lambda>i es. \<exists>d. wal_file_bytes i fs = Some d \<and> file_log A d es) is ess \<Longrightarrow> distinct is \<Longrightarrow>
    good_io fs \<Longrightarrow> idle w \<Longrightarrow>
    \<exists>w' fs'. walk_files A f mx hf is (w, fs) = (Inr (), w', fs') \<and>
      w_user w' = fold upd (map part_of (concat (map (seg_parts mx hf) ess))) (w_user w)"
proof (induction "is" arbitrary: ess w fs)
  case (Cons i "is")
  then obtain es ess1 d where ess: "ess = es # ess1" and d: "wal_file_bytes i fs = Some d" "file_log A d es"
    and rest: "list_all2 (\<lambda>i es. \<exists>d. wal_file_bytes i fs = Some d \<and> file_log A d es) is ess1"
    by (auto simp: list_all2_Cons1)
  obtain w1 fs1 where s1: "walk_segment A f mx hf i (w, fs) = (Inr (), w1, fs1)" "idle w1" "good_io fs1"
    "w_user w1 = fold upd (map part_of (seg_parts mx hf es)) (w_user w)" "\<forall>j. j \<noteq> i \<longrightarrow> get_file j fs1 = get_file j fs"
    using walk_segment_log [where f = f and upd = upd, OF f d Cons.prems(3,4)] by blast
  have "list_all2 (\<lambda>i es. \<exists>d. wal_file_bytes i fs1 = Some d \<and> file_log A d es) is ess1"
    using rest s1(5) Cons.prems(2) by (auto simp: wal_file_bytes_def list_all2_conv_all_nth)
      (metis nth_mem)+
  then show ?case
    using Cons.IH [of fs1 ess1 w1] s1 Cons.prems(2) ess by auto
qed simp

text \<open>The files of a table after a crash hold the logs of its segments, the last one cut off.\<close>

lemma spec_take_log:
  assumes "spec_ok A g" and "n \<le> length (spec_bytes A g)"
  shows "\<exists>m \<le> length (seg_log g). file_log A (take n (spec_bytes A g)) (take m (seg_log g)) \<and>
     (\<forall>j \<le> length (seg_log g). length (open_bytes A g j) \<le> n \<longrightarrow> j \<le> m)"
proof -
  let ?s = "seg_schema g" and ?es = "seg_log g"
  let ?b = "seg_bytes A (seg_now g) (seg_mid g) ?s ?es"
  have ok: "log_ok A ?s ?es" using assms(1) by (simp add: spec_ok_def)
  show ?thesis
  proof (cases "n \<le> length ?b")
    case True
    let ?m = "survived A ?s ?es n"
    have eq: "take n (spec_bytes A g) = take n ?b"
      using True by (auto simp: spec_bytes_def closed_bytes_def split: option.splits)
    have "file_log A (take n ?b) (take ?m ?es)"
      using ok True
    proof (cases rule: seg_bytes_take)
      case (log t)
      then show ?thesis using log_ok_take [OF ok, of ?m] unfolding file_log_def open_log_def by blast
    qed (auto simp: file_log_def blank_def)
    then show ?thesis
      using eq survived_le [of A ?s ?es n] le_survived [of _ ?es A _ _ ?s n]
      by (intro exI [of _ ?m]) (auto simp: open_bytes_def)
  next
    case False
    then obtain c where c: "seg_closed g = Some c"
      using assms(2) by (auto simp: spec_bytes_def split: option.splits)
    let ?t = "take (n - length ?b) (frame_bytes (footer_frame A c ?es))"
    have eq: "take n (spec_bytes A g) = ?b @ ?t" using False c by (simp add: spec_bytes_def closed_bytes_def)
    have "open_log A (?b @ ?t) ?es \<or> closed_log A (?b @ ?t) ?es"
    proof (cases "n - length ?b < length (frame_bytes (footer_frame A c ?es))")
      case True
      then have "torn A ?t"
        unfolding torn_def using read_frame_torn [OF footer_frame_wf True] by blast
      then show ?thesis using ok unfolding open_log_def by blast
    next
      case False
      then have "?b @ ?t = closed_bytes A (seg_now g) c (seg_mid g) ?s ?es" by (simp add: closed_bytes_def)
      then show ?thesis using ok unfolding closed_log_def by metis
    qed
    then show ?thesis using eq by (intro exI [of _ "length ?es"]) (auto simp: file_log_def)
  qed
qed

lemma part_take_log:
  assumes "part_file A g (i, f)" and "n \<le> length (file_data f)"
  shows "\<exists>m \<le> length (seg_log g). file_log A (take n (file_data f)) (take m (seg_log g)) \<and>
     (\<forall>j \<le> length (seg_log g). length (open_bytes A g j) \<le> n \<longrightarrow> j \<le> m)"
  using assms(1) unfolding part_file_def
proof (elim conjE disjE exE)
  fix N
  assume ok: "spec_ok A g" and d: "file_data (snd (i, f)) = take N (spec_bytes A g)"
  then have "take n (file_data f) = take n (spec_bytes A g)" "n \<le> length (spec_bytes A g)"
    using assms(2) by (auto simp: min_def split: if_splits)
  then show ?thesis using spec_take_log [OF ok, of n] by simp
next
  fix N
  assume e: "seg_log g = []"
    and d: "file_data (snd (i, f)) = take N (segment_header_encode (new_v1 (seg_now g) (seg_mid g)))"
  have "blank A (take k (segment_header_encode (new_v1 (seg_now g) (seg_mid g))))" for k
  proof (cases "k < SEGMENT_HEADER_SIZE")
    case True
    then show ?thesis by (simp add: blank_def)
  next
    case False
    then show ?thesis unfolding blank_def by (intro disjI2 exI [of _ "[]"] exI conjI) (auto simp: torn_Nil)
  qed
  then show ?thesis using e d by (simp add: file_log_def)
qed

abbreviation dir_logs :: "('s, 'b) arrow \<Rightarrow> (u64 \<times> seg_file) list \<Rightarrow> 'b log_entry list list \<Rightarrow> bool" where
  "dir_logs A dir ess \<equiv> list_all2 (\<lambda>e es. file_log A (file_data (snd e)) es) dir ess"

lemma sealed_logs:
  "list_all2 (sealed_file A) gs dir \<Longrightarrow> crashed dir dir' \<Longrightarrow> dir_logs A dir' (map seg_log gs)"
proof (induction gs arbitrary: dir dir')
  case Nil
  then show ?case by (simp add: crashed_def)
next
  case (Cons g gs)
  then obtain i f dir1 where dir: "dir = (i, f) # dir1" and g: "sealed_file A g (i, f)"
    and rest: "list_all2 (sealed_file A) gs dir1"
    by (auto simp: list_all2_Cons1)
  obtain f' dir1' where dir': "dir' = (i, f') # dir1'" "file_data f' = file_data f" "crashed dir1 dir1'"
    using Cons.prems(2) g unfolding dir crashed_def by (auto simp: list_all2_Cons1 sealed_file_def)
  have "closed_log A (file_data f) (seg_log g)"
    using g by (fastforce simp: sealed_file_def spec_ok_def spec_bytes_def closed_log_def)
  then show ?case using Cons.IH [OF rest dir'(3)] dir'(1,2) by (simp add: file_log_def)
qed

lemma crash_logs:
  assumes "dir_part A gs D dir" and "crashed dir dir'"
  shows "\<exists>ess k. dir_logs A dir' ess \<and> concat ess = take k (full_log gs) \<and> D \<le> k \<and> k \<le> length (full_log gs) \<and>
    sorted_wrt (<) (map fst dir')"
proof (cases "gs = []")
  case True
  then show ?thesis using assms by (auto simp: dir_part_def crashed_def)
next
  case False
  then obtain gs0 g dir0 i f where gs: "gs = gs0 @ [g]" and dir: "dir = dir0 @ [(i, f)]"
    and s: "list_all2 (sealed_file A) gs0 dir0" and p: "part_file A g (i, f)"
    and dur: "durable_upto A gs0 g f D"
    using assms(1) unfolding dir_part_def by (metis prod.exhaust_sel snd_conv)
  obtain dir0' f' n where dir': "dir' = dir0' @ [(i, f')]" and c: "crashed dir0 dir0'"
    and n: "file_durable f \<le> n" "n \<le> length (file_data f)" "file_data f' = take n (file_data f)"
    using assms(2) unfolding crashed_def dir by (auto simp: list_all2_append1 list_all2_Cons1)
  have "map fst dir' = map seg_id gs"
    using crashed_ids [OF assms(2)] sealed_ids [OF s] p by (simp add: gs dir part_file_def)
  then have ids: "sorted_wrt (<) (map fst dir')" using assms(1) by (simp add: dir_part_def)
  obtain m where m: "m \<le> length (seg_log g)" "file_log A (take n (file_data f)) (take m (seg_log g))"
    "\<forall>j \<le> length (seg_log g). length (open_bytes A g j) \<le> n \<longrightarrow> j \<le> m"
    using part_take_log [OF p n(2)] by blast
  have "dir_logs A dir' (map seg_log gs0 @ [take m (seg_log g)])"
    using sealed_logs [OF s c] m(2) n(3) by (auto simp: dir' intro!: list_all2_appendI)
  moreover have "concat (map seg_log gs0 @ [take m (seg_log g)]) = take (length (full_log gs0) + m) (full_log gs)"
    by (simp add: gs full_log_def)
  moreover have "D \<le> length (full_log gs0) + m"
    using dur m(3) n(1) unfolding durable_upto_def by (metis add_left_mono le0 order_trans)
  moreover have "length (full_log gs0) + m \<le> length (full_log gs)" using m(1) by (simp add: gs)
  ultimately show ?thesis using ids by blast
qed

lemma dir_files:
  assumes "sorted_wrt (<) (map fst (tf_dir fs))" and "dir_logs A (tf_dir fs) ess"
  shows "list_all2 (\<lambda>i es. \<exists>d. wal_file_bytes i fs = Some d \<and> file_log A d es) (list_wal_file_ids fs) ess \<and>
    distinct (list_wal_file_ids fs)"
proof -
  have d: "distinct (map fst (tf_dir fs))" and "sorted (map fst (tf_dir fs))"
    using assms(1) by (auto simp: strict_sorted_iff)
  then have ids: "list_wal_file_ids fs = map fst (tf_dir fs)" by (simp add: list_wal_file_ids_def sorted_sort_id)
  have "wal_file_bytes (fst e) fs = Some (file_data (snd e))" if "e \<in> set (tf_dir fs)" for e
    using map_of_is_SomeI [OF d, of "fst e" "snd e"] that by (simp add: wal_file_bytes_def get_file_def)
  then show ?thesis
    using assms(2) d by (auto simp: ids list_all2_conv_all_nth)
qed

text \<open>What a rebuild of the table receives: the partitions handed to a callback that keeps them all.\<close>

definition keep_partition :: "'b wal_recover_partition \<Rightarrow> 'b wal_recover_partition list \<Rightarrow> unit res \<times> 'b wal_recover_partition list" where
  "keep_partition p ps = (Inr (), ps @ [p])"

definition rebuilt :: "('s, 'b) arrow \<Rightarrow> file_index \<Rightarrow> table_fs \<Rightarrow> unit res \<times> 'b wal_recover_partition list" where
  "rebuilt A fi fs =
     (let (r, ps, _) = walk_unflushed_partitions A (max_lsn_in_sst_metas fi) (fi \<noteq> []) keep_partition [] fs
      in (r, ps))"

definition parts_of_logs :: "file_index \<Rightarrow> 'b log_entry list list \<Rightarrow> 'b wal_recover_partition list" where
  "parts_of_logs fi ess = map part_of (concat (map (seg_parts (max_lsn_in_sst_metas fi) (fi \<noteq> [])) ess))"

lemma fold_keep: "fold (\<lambda>p ps. ps @ [p]) xs ys = ys @ xs"
  by (induction xs arbitrary: ys) auto

lemma rebuilt_logs:
  fixes A :: "('s, 'b) arrow"
  assumes "sorted_wrt (<) (map fst (tf_dir fs))" and "dir_logs A (tf_dir fs) ess" and "good_io fs"
  shows "rebuilt A fi fs = (Inr (), parts_of_logs fi ess)"
proof -
  have k: "keep_partition p u = (Inr (), (\<lambda>p ps. ps @ [p]) p u)" for p :: "'b wal_recover_partition" and u
    by (simp add: keep_partition_def)
  have idl: "idle (walk_start [] :: ('s, 'b, 'b wal_recover_partition list) walk_state)"
    by (simp add: idle_def walk_start_def)
  obtain w' fs' where "walk_files A keep_partition (max_lsn_in_sst_metas fi) (fi \<noteq> []) (list_wal_file_ids fs)
      (walk_start [], fs) = (Inr (), w', fs')"
    and "w_user w' = fold (\<lambda>p ps. ps @ [p])
      (map part_of (concat (map (seg_parts (max_lsn_in_sst_metas fi) (fi \<noteq> [])) ess))) []"
    using walk_files_log [where f = keep_partition and upd = "\<lambda>p ps. ps @ [p]" and
        mx = "max_lsn_in_sst_metas fi" and hf = "fi \<noteq> []", OF k
        conjunct1 [OF dir_files [OF assms(1,2)]] conjunct2 [OF dir_files [OF assms(1,2)]] assms(3) idl]
    by (auto simp: walk_start_def)
  then show ?thesis
    by (simp add: rebuilt_def walk_unflushed_partitions_def parts_of_logs_def fold_keep walk_start_def)
qed

text \<open>The LSN range of a partition is the range of the LSNs of its batches.\<close>

definition exact_range :: "'b wal_recover_partition \<Rightarrow> (u64 \<times> 'b) list \<Rightarrow> bool" where
  "exact_range p g \<longleftrightarrow> rp_batches p = map snd g \<and> g \<noteq> [] \<and>
     (\<forall>l \<in> set (map fst g). 0 < l \<longrightarrow> rp_base_lsn p \<le> l \<and> l \<le> rp_max_lsn p) \<and>
     (if \<exists>l \<in> set (map fst g). 0 < l
      then 0 < rp_base_lsn p \<and> rp_base_lsn p \<in> set (map fst g) \<and> rp_max_lsn p \<in> set (map fst g)
      else rp_base_lsn p = 0 \<and> rp_max_lsn p = 0)"

lemma grp_max_spec: "(\<forall>l \<in> set (map fst g). l \<le> grp_max g) \<and> (grp_max g = 0 \<or> grp_max g \<in> set (map fst g))"
proof (induction g rule: rev_induct)
  case (snoc x g)
  then show ?case by (cases x) (auto simp: grp_snoc max_def intro: order_trans)
qed (simp add: grp_max_def)

lemma grp_base_spec:
  "(\<forall>l \<in> set (map fst g). 0 < l \<longrightarrow> grp_base g \<le> l) \<and>
   (if \<exists>l \<in> set (map fst g). 0 < l then 0 < grp_base g \<and> grp_base g \<in> set (map fst g) else grp_base g = 0)"
proof (induction g rule: rev_induct)
  case (snoc x g)
  then show ?case
    by (cases x) (auto simp: grp_snoc word_greater_zero_iff not_less intro: order_trans split: if_splits)
qed (simp add: grp_base_def)

lemma part_of_range: "g \<noteq> [] \<Longrightarrow> exact_range (part_of g) g"
  using grp_max_spec [of g] grp_base_spec [of g]
  by (cases "\<exists>l \<in> set (map fst g). 0 < l") (auto simp: exact_range_def part_of_def not_less)

lemma walk_groups_nonempty: "walk_groups mx hf es g = (gs, h) \<Longrightarrow> [] \<notin> set gs"
  by (induction mx hf es g arbitrary: gs h rule: walk_groups.induct)
    (auto simp: nonempty_def Let_def split: prod.splits if_splits)

lemma seg_parts_nonempty: "[] \<notin> set (seg_parts mx hf es)"
  using walk_groups_nonempty [of mx hf es "[]"]
  by (cases "walk_groups mx hf es []") (simp add: seg_parts_def nonempty_def)

lemma parts_of_logs_groups:
  obtains gs where "list_all2 exact_range (parts_of_logs fi ess) gs"
    and "concat gs = needed (max_lsn_in_sst_metas fi) (fi \<noteq> []) (log_pairs (concat ess))"
proof -
  let ?gs = "concat (map (seg_parts (max_lsn_in_sst_metas fi) (fi \<noteq> [])) ess)"
  have "list_all2 exact_range (map part_of ?gs) ?gs"
    by (auto simp: list.rel_map seg_parts_nonempty intro!: list.rel_refl_strong part_of_range)
  moreover have "log_pairs (es @ es') = log_pairs es @ log_pairs es'" for es es' :: "'a log_entry list"
    by (induction es rule: log_pairs.induct) auto
  then have "concat (concat (map (seg_parts mx hf) ess)) = needed mx hf (log_pairs (concat ess))" for mx hf
    by (induction ess) (auto simp: seg_parts_concat needed_def)
  ultimately show thesis using that by (simp add: parts_of_logs_def)
qed

lemma run_inv_rebuilt:
  fixes A :: "('s, 'b) arrow"
  assumes "run_inv A S C wk" and "crashed (tf_dir (wk_fs wk)) (tf_dir fs')" and "good_io fs'"
  shows "\<exists>k parts gs. C \<le> k \<and> k \<le> length S \<and> rebuilt A fi fs' = (Inr (), parts) \<and>
    list_all2 exact_range parts gs \<and>
    concat gs = needed (max_lsn_in_sst_metas fi) (fi \<noteq> []) (log_pairs (take k S))"
proof -
  obtain ss D where part: "dir_part A ss D (tf_dir (wk_fs wk))" and C: "C \<le> D" and pre: "prefix (full_log ss) S"
    using assms(1) wal_inv_part unfolding run_inv_def worker_ok_def worker_bad_def by (metis prefixI)
  obtain ess k where logs: "dir_logs A (tf_dir fs') ess" "concat ess = take k (full_log ss)"
    and k: "D \<le> k" "k \<le> length (full_log ss)" and ids: "sorted_wrt (<) (map fst (tf_dir fs'))"
    using crash_logs [OF part assms(2)] by blast
  have "concat ess = take k S" using pre k(2) logs(2) by (auto simp: prefix_def)
  moreover obtain gs where "list_all2 exact_range (parts_of_logs fi ess) gs"
    "concat gs = needed (max_lsn_in_sst_metas fi) (fi \<noteq> []) (log_pairs (concat ess))"
    by (rule parts_of_logs_groups)
  ultimately show ?thesis
    using rebuilt_logs [OF ids logs(1) assms(3)] C k prefix_length_le [OF pre]
    by (intro exI [of _ k] exI [of _ "parts_of_logs fi ess"] exI [of _ gs]) simp
qed

section \<open>Header scans of a log\<close>

lemma header_loop_frames:
  "list_all (frame_wf A) fs \<Longrightarrow>
   header_loop step stop st (frames_bytes fs @ t) =
     (case frame_run (\<lambda>st h _ _. step st h) t fs st of Go st' \<Rightarrow> header_loop step stop st' t | Done x \<Rightarrow> x)"
proof (induction fs arbitrary: st)
  case (Cons f fs)
  have "frame_header_decode (frame_header_encode (fst f) @ snd f @ frames_bytes fs @ t) =
      Inr (Some (fst f, snd f @ frames_bytes fs @ t))"
    using Cons.prems by (intro frame_header_decode_encode) (auto simp: frame_wf_def)
  moreover have "body_len (fst f) = length (snd f)"
    using Cons.prems by (simp add: frame_wf_def body_len_def)
  ultimately show ?case
    using Cons header_loop.simps [of step stop st "frames_bytes (f # fs) @ t"]
    by (auto simp: frame_bytes_def split: ctl.splits)
qed simp

lemma header_loop_grows:
  "hi \<le> snd (header_loop lsn_range_step (\<lambda>st. st) (lo, hi) r)"
proof (induction "length r" arbitrary: r lo hi rule: less_induct)
  case less
  show ?case
  proof (cases "\<exists>h r1. frame_header_decode r = Inr (Some (h, r1))")
    case True
    then obtain h r1 where d: "frame_header_decode r = Inr (Some (h, r1))" by blast
    then have "length r1 < length r"
      by (auto simp: frame_header_decode_def read_exact_def Let_def split: option.splits if_splits prod.splits)
    then have "x \<le> snd (header_loop lsn_range_step (\<lambda>st. st) (y, x) (drop (body_len h) r1))" for x y
      by (intro less) simp
    note this [of "max hi (fh_lsn h)"] this [of hi]
    then show ?thesis
      by (subst header_loop.simps) (auto simp: d lsn_range_step_def Let_def intro: order_trans)
  next
    case False
    then show ?thesis by (subst header_loop.simps) (auto split: sum.splits option.splits)
  qed
qed

lemma run_range:
  "\<exists>lo' hi'. frame_run (\<lambda>st h _ _. lsn_range_step st h) t (entry_frames A k es) (lo, hi) = Go (lo', hi') \<and>
     hi \<le> hi' \<and> (\<forall>p \<in> set (log_pairs es). fst p \<le> hi')"
proof (induction es arbitrary: k lo hi)
  case (Cons e es)
  show ?case
  proof (cases e)
    case (LBatch l b)
    let ?st = "if l > 0 then (min lo l, max hi l) else (lo, hi)"
    obtain lo' hi' where "frame_run (\<lambda>st h _ _. lsn_range_step st h) t (entry_frames A (k + 1) es) (fst ?st, snd ?st) = Go (lo', hi')"
      "snd ?st \<le> hi'" "\<forall>p \<in> set (log_pairs es). fst p \<le> hi'"
      using Cons.IH [of "k + 1" "fst ?st" "snd ?st"] by blast
    then show ?thesis
      by (cases "l > 0") (auto simp: LBatch lsn_range_step_def frame_of_def word_greater_zero_iff)
  next
    case (LEnd l c n)
    then show ?thesis using Cons.IH [of "k + 1" lo hi] by (simp add: lsn_range_step_def frame_of_def)
  qed
qed simp

lemma run_has_batches:
  "log_pairs es \<noteq> [] \<Longrightarrow> frame_run (\<lambda>_ h _ _. has_batches_step () h) t (entry_frames A k es) () = Done True"
proof (induction es arbitrary: k)
  case (Cons e es)
  then show ?case by (cases e) (auto simp: has_batches_step_def frame_of_def)
qed simp

lemma file_log_cases:
  assumes "file_log A d es"
  obtains "es = []" | now mid s t where "log_ok A s es" "d = seg_bytes A now mid s es @ t"
  using assms unfolding file_log_def open_log_def closed_log_def closed_bytes_def by metis

lemma file_log_range:
  assumes "file_log A d es" and "p \<in> set (log_pairs es)"
  shows "fst p \<le> snd (lsn_range_in_segment (Some d))" and "segment_has_batches (Some d)"
proof -
  obtain now mid s t where ok: "log_ok A s es" and d: "d = seg_bytes A now mid s es @ t"
    using assms by (auto elim: file_log_cases)
  have hdr: "segment_header_decode d = Inr (new_v1 now mid, frames_bytes (log_frames A s es) @ t)"
    by (simp add: d seg_bytes_def)
  note run = header_loop_frames [OF log_frames_wf [OF ok]]
  obtain lo' hi' where "frame_run (\<lambda>st h _ _. lsn_range_step st h) t (entry_frames A 1 es) (u64_max, 0) = Go (lo', hi')"
    and hi: "\<forall>p \<in> set (log_pairs es). fst p \<le> hi'"
    using run_range [of t A 1 es u64_max 0] by blast
  then have "header_loop lsn_range_step (\<lambda>st. st) (u64_max, 0) (frames_bytes (log_frames A s es) @ t) =
      header_loop lsn_range_step (\<lambda>st. st) (lo', hi') t"
    unfolding run by (simp add: log_frames_def schema_frame_def lsn_range_step_def frame_of_def)
  moreover have "fst p \<le> snd (header_loop lsn_range_step (\<lambda>st. st) (lo', hi') t)"
    using hi assms(2) header_loop_grows [of hi' lo' t] order_trans by blast
  ultimately show "fst p \<le> snd (lsn_range_in_segment (Some d))"
    by (auto simp: lsn_range_in_segment_def hdr Let_def split: prod.splits)
  have skip: "has_batches_step () (fst (schema_frame A s)) = Go ()"
    by (simp add: has_batches_step_def schema_frame_def frame_of_def)
  have "log_pairs es \<noteq> []" using assms(2) by auto
  then have "header_loop has_batches_step (\<lambda>_. False) () (frames_bytes (log_frames A s es) @ t)"
    unfolding run by (simp add: log_frames_def run_has_batches skip)
  then show "segment_has_batches (Some d)" by (simp add: segment_has_batches_def hdr)
qed

section \<open>Reclaiming WAL files\<close>

definition remove_wal_file :: "u64 \<Rightarrow> table_fs \<Rightarrow> unit res \<times> table_fs" where
  "remove_wal_file i fs =
     (if get_file i fs = None then (Inr (), fs)
      else if meta_ok (io_now fs)
      then (Inr (), (tick fs)\<lparr>tf_dir := filter (\<lambda>e. fst e \<noteq> i) (tf_dir fs)\<rparr>)
      else (Inl (Io ''remove''), tick fs))"

text \<open>\<open>keeps\<close> says which files the capture progress still needs, by their highest LSN.\<close>

fun gc_files :: "(u64 \<Rightarrow> bool) \<Rightarrow> file_index \<Rightarrow> u64 \<Rightarrow> u64 list \<Rightarrow> table_fs \<Rightarrow> unit res \<times> table_fs" where
  "gc_files keeps fi active [] fs = (Inr (), fs)"
| "gc_files keeps fi active (i # is) fs =
     (if i = active then gc_files keeps fi active is fs
      else
        let hi = snd (lsn_range_in_segment (wal_file_bytes i fs)) in
        if keeps hi then gc_files keeps fi active is fs
        else if \<not> can_drop_wal_file fs i fi then gc_files keeps fi active is fs
        else (case remove_wal_file i fs of
                (Inl e, fs') \<Rightarrow> (Inl e, fs')
              | (Inr _, fs') \<Rightarrow> gc_files keeps fi active is fs'))"

definition gc_sealed_wal_files :: "(u64 \<Rightarrow> bool) option \<Rightarrow> file_index \<Rightarrow> table_fs \<Rightarrow> unit res \<times> table_fs" where
  "gc_sealed_wal_files can_gc_lsn fi fs =
     (let ids = list_wal_file_ids fs in
      if ids = [] then (Inr (), fs)
      else gc_files (\<lambda>hi. case can_gc_lsn of None \<Rightarrow> False | Some g \<Rightarrow> hi > 0 \<and> \<not> g hi) fi (List.last ids) ids fs)"

definition gc_sealed_wal_files_at :: "file_index \<Rightarrow> table_fs \<Rightarrow> unit res \<times> table_fs" where
  "gc_sealed_wal_files_at fi fs =
     (let ids = list_wal_file_ids fs in
      if ids = [] then (Inr (), fs)
      else gc_files (\<lambda>hi. False) fi (List.last ids) ids fs)"

text \<open>A directory whose files hold logs, as pairs of the identifier and the log of each file.\<close>

definition holds_logs :: "('s, 'b) arrow \<Rightarrow> table_fs \<Rightarrow> (u64 \<times> 'b log_entry list) list \<Rightarrow> bool" where
  "holds_logs A fs ls \<longleftrightarrow> sorted_wrt (<) (map fst ls) \<and> map fst (tf_dir fs) = map fst ls \<and>
     dir_logs A (tf_dir fs) (map snd ls)"

definition reclaimable :: "file_index \<Rightarrow> 'b log_entry list \<Rightarrow> bool" where
  "reclaimable fi es \<longleftrightarrow> needed (max_lsn_in_sst_metas fi) (fi \<noteq> []) (log_pairs es) = []"

lemma foldl_max_ge: "(m :: u64) \<le> foldl max m xs \<and> (\<forall>x \<in> set xs. x \<le> foldl max m xs)"
proof (induction xs arbitrary: m)
  case (Cons x xs)
  from Cons [of "max m x"] show ?case by auto
qed simp

lemma covers_le_max: "covers_lsn fi l \<Longrightarrow> l \<le> max_lsn_in_sst_metas fi"
  using foldl_max_ge [of 0 "map sm_max_lsn fi"]
  by (auto simp: covers_lsn_def meta_covers_lsn_def max_lsn_in_sst_metas_def list_ex_iff intro: order_trans)

lemma can_drop_reclaimable:
  assumes "wal_file_bytes i fs = Some d" and "file_log A d es" and "can_drop_wal_file fs i fi"
    and lsn: "fi \<noteq> [] \<or> (\<forall>p \<in> set (log_pairs es). 0 < fst p)"
  shows "reclaimable fi es"
proof -
  have "\<not> batch_needs_recover (fst p) (max_lsn_in_sst_metas fi) (fi \<noteq> [])" if p: "p \<in> set (log_pairs es)" for p
  proof -
    let ?hi = "snd (lsn_range_in_segment (Some d))"
    have le: "fst p \<le> ?hi" and has: "segment_has_batches (Some d)"
      using file_log_range [OF assms(2) p] by simp_all
    show ?thesis
    proof (cases "?hi > 0")
      case True
      then have c: "covers_lsn fi ?hi" using assms(3) by (simp add: can_drop_wal_file_def assms(1))
      then have "fi \<noteq> []" by (auto simp: covers_lsn_def)
      then show ?thesis using covers_le_max [OF c] le by (auto simp: batch_needs_recover_def not_less)
    next
      case False
      then have "fst p = 0" using le by (simp add: word_greater_zero_iff)
      then show ?thesis using lsn p by (auto simp: batch_needs_recover_def)
    qed
  qed
  then show ?thesis by (auto simp: reclaimable_def needed_def filter_empty_conv)
qed

lemma holds_logs_file:
  assumes "holds_logs A fs ls" and "get_file i fs = Some f"
  obtains es where "(i, es) \<in> set ls" and "file_log A (file_data f) es"
proof -
  obtain n where n: "n < length (tf_dir fs)" "tf_dir fs ! n = (i, f)"
    using map_of_SomeD [of "tf_dir fs" i f] assms(2) by (auto simp: get_file_def in_set_conv_nth)
  have len: "length ls = length (tf_dir fs)"
    using assms(1) by (metis holds_logs_def length_map)
  then have "fst (ls ! n) = i" using assms(1) n nth_map [of n "tf_dir fs" fst] nth_map [of n ls fst]
    by (simp add: holds_logs_def)
  moreover have "file_log A (file_data f) (snd (ls ! n))"
    using assms(1) n len by (auto simp: holds_logs_def list_all2_conv_all_nth)
  ultimately show thesis using that [of "snd (ls ! n)"] n(1) len by (metis nth_mem prod.collapse)
qed

lemma holds_logs_filter:
  assumes "holds_logs A fs ls" and "tf_dir fs' = filter (\<lambda>e. P (fst e)) (tf_dir fs)"
  shows "holds_logs A fs' (filter (\<lambda>e. P (fst e)) ls)"
proof -
  have m: "map fst (filter (\<lambda>e. P (fst e)) (tf_dir fs)) = filter P (map fst (tf_dir fs))"
    "map fst (filter (\<lambda>e. P (fst e)) ls) = filter P (map fst ls)"
    by (simp_all add: filter_map comp_def)
  have "map fst dir = map fst ls \<Longrightarrow> dir_logs A dir (map snd ls) \<Longrightarrow>
      dir_logs A (filter (\<lambda>e. P (fst e)) dir) (map snd (filter (\<lambda>e. P (fst e)) ls))" for dir ls
  proof (induction dir arbitrary: ls)
    case (Cons e dir)
    then show ?case by (cases ls) auto
  qed auto
  then show ?thesis
    using assms by (simp add: holds_logs_def m sorted_wrt_filter)
qed

lemma gc_files_logs:
  assumes "fi \<noteq> [] \<or> (\<forall>e \<in> set ls. \<forall>p \<in> set (log_pairs (snd e)). 0 < fst p)"
  shows "\<lbrakk>gc_files keeps fi active is fs = (r, fs'); holds_logs A fs (filter Q ls)\<rbrakk> \<Longrightarrow>
    \<exists>P. holds_logs A fs' (filter P (filter Q ls)) \<and> (\<forall>e \<in> set (filter Q ls). \<not> P e \<longrightarrow> reclaimable fi (snd e))"
proof (induction "is" arbitrary: fs Q)
  case Nil
  then show ?case by (auto intro!: exI [of _ "\<lambda>_. True"])
next
  case (Cons i "is")
  show ?case
  proof (cases "gc_files keeps fi active (i # is) fs = gc_files keeps fi active is fs")
    case True
    then show ?thesis using Cons by simp
  next
    case False
    then obtain f where f: "get_file i fs = Some f" and drop: "can_drop_wal_file fs i fi" and
      cs: "\<not> meta_ok (io_now fs) \<and> fs' = tick fs \<or>
        gc_files keeps fi active is ((tick fs)\<lparr>tf_dir := filter (\<lambda>e. fst e \<noteq> i) (tf_dir fs)\<rparr>) = (r, fs')"
      using Cons.prems(1) by (auto simp: remove_wal_file_def Let_def split: if_splits option.splits)
    let ?ls = "filter Q ls" and ?Q = "\<lambda>e. Q e \<and> fst e \<noteq> i"
    from cs show ?thesis
    proof
      assume "\<not> meta_ok (io_now fs) \<and> fs' = tick fs"
      then have "holds_logs A fs' (filter (\<lambda>_. True) ?ls)" using Cons.prems(2) by (simp add: holds_logs_def tick_def)
      then show ?thesis by blast
    next
      assume gc: "gc_files keeps fi active is ((tick fs)\<lparr>tf_dir := filter (\<lambda>e. fst e \<noteq> i) (tf_dir fs)\<rparr>) = (r, fs')"
      obtain es where es: "(i, es) \<in> set ?ls" "file_log A (file_data f) es"
        using holds_logs_file [OF Cons.prems(2) f] by blast
      have "distinct (map fst ?ls)" using Cons.prems(2) by (simp add: holds_logs_def strict_sorted_iff)
      then have "\<forall>e \<in> set ?ls. fst e = i \<longrightarrow> e = (i, es)"
        using es(1) eq_key_imp_eq_value [of ?ls i es] by (metis prod.collapse)
      moreover have "reclaimable fi es"
        using es assms drop by (intro can_drop_reclaimable [of i fs "file_data f" A]) (force simp: wal_file_bytes_def f)+
      ultimately have i: "\<forall>e \<in> set ?ls. fst e = i \<longrightarrow> reclaimable fi (snd e)" by auto
      have "holds_logs A ((tick fs)\<lparr>tf_dir := filter (\<lambda>e. fst e \<noteq> i) (tf_dir fs)\<rparr>) (filter ?Q ls)"
        using holds_logs_filter [OF Cons.prems(2), where P = "\<lambda>j. j \<noteq> i"] by (simp add: conj_commute)
      from Cons.IH [OF gc this] obtain P where "holds_logs A fs' (filter P (filter ?Q ls))"
        and P: "\<forall>e \<in> set (filter ?Q ls). \<not> P e \<longrightarrow> reclaimable fi (snd e)" by blast
      then have "holds_logs A fs' (filter (\<lambda>e. fst e \<noteq> i \<and> P e) ?ls)" by (simp add: conj_ac)
      moreover have "\<forall>e \<in> set ?ls. \<not> (fst e \<noteq> i \<and> P e) \<longrightarrow> reclaimable fi (snd e)" using i P by auto
      ultimately show ?thesis by blast
    qed
  qed
qed

lemma reclaimable_parts: "reclaimable fi es \<Longrightarrow> seg_parts (max_lsn_in_sst_metas fi) (fi \<noteq> []) es = []"
proof -
  assume "reclaimable fi es"
  then have "concat (seg_parts (max_lsn_in_sst_metas fi) (fi \<noteq> []) es) = []"
    by (simp add: reclaimable_def seg_parts_concat)
  then show ?thesis using seg_parts_nonempty by (metis concat_eq_Nil_conv last_in_set)
qed

lemma parts_filter:
  "\<forall>e \<in> set ls. \<not> P e \<longrightarrow> reclaimable fi (snd e) \<Longrightarrow>
   parts_of_logs fi (map snd (filter P ls)) = parts_of_logs fi (map snd ls)"
  by (induction ls) (auto simp: parts_of_logs_def reclaimable_parts)

lemma gc_rebuilt:
  fixes A :: "('s, 'b) arrow"
  assumes "holds_logs A fs ls" and "fi \<noteq> [] \<or> (\<forall>e \<in> set ls. \<forall>p \<in> set (log_pairs (snd e)). 0 < fst p)"
    and "gc_files keeps fi active is fs = (r, fs')" and "good_io fs1" "tf_dir fs1 = tf_dir fs"
    and "good_io fs2" "tf_dir fs2 = tf_dir fs'"
  shows "rebuilt A fi fs2 = rebuilt A fi fs1"
proof -
  obtain P where P: "holds_logs A fs' (filter P ls)" "\<forall>e \<in> set ls. \<not> P e \<longrightarrow> reclaimable fi (snd e)"
    using gc_files_logs [OF assms(2,3), of A "\<lambda>_. True"] assms(1) by auto
  have "rebuilt A fi fs2 = (Inr (), parts_of_logs fi (map snd (filter P ls)))"
    using P(1) assms(6,7) by (intro rebuilt_logs) (simp_all add: holds_logs_def)
  moreover have "rebuilt A fi fs1 = (Inr (), parts_of_logs fi (map snd ls))"
    using assms(1,4,5) by (intro rebuilt_logs) (simp_all add: holds_logs_def)
  ultimately show ?thesis by (simp add: parts_filter [OF P(2)])
qed

section \<open>Properties\<close>

text \<open>
  What recovery has to rebuild: a batch with an LSN above that of every SST file, and a batch without an
  LSN if there is no SST file.
\<close>

definition beyond_ssts :: "file_index \<Rightarrow> u64 \<Rightarrow> bool" where
  "beyond_ssts fi l \<longleftrightarrow> (if l = 0 then fi = [] else \<forall>m \<in> set fi. sm_max_lsn m < l)"

lemma foldl_max_less: "foldl max m xs < (l :: u64) \<longleftrightarrow> m < l \<and> (\<forall>x \<in> set xs. x < l)"
  by (induction xs arbitrary: m) auto

lemma needed_beyond: "needed (max_lsn_in_sst_metas fi) (fi \<noteq> []) ps = filter (\<lambda>(l, b). beyond_ssts fi l) ps"
proof -
  have "batch_needs_recover l (max_lsn_in_sst_metas fi) (fi \<noteq> []) = beyond_ssts fi l" for l
    by (auto simp: batch_needs_recover_def beyond_ssts_def max_lsn_in_sst_metas_def foldl_max_less word_greater_zero_iff)
  then show ?thesis by (simp add: needed_def case_prod_unfold)
qed

text \<open>
  C1. Recovery after a crash rebuilds what was acknowledged. A worker on an empty directory executes
  any history of appends, flushes, rotations, memtable-ends and timed flushes under arbitrary I/O
  failures (none of them in a memtable-end write) on batches of less than four GiB, and the machine crashes. The recovery walk over the
  surviving files, run against any set of SST files and without I/O failures of its own, succeeds. For some point \<open>k\<close> of the log that is
  not before any acknowledged entry, the partitions it hands over contain, in log order and without
  omission or repetition, exactly the batches of the first \<open>k\<close> log entries whose LSN is above that of
  every SST file (a batch without an LSN counts if there is no SST file); no partition is empty, and its LSN range is the exact range of its batches.
\<close>
theorem crash_recovery_rebuilds_acknowledged:
  assumes "arrow_ok A" and "worker_new A p = Inr wk0" and "tf_dir (wp_fs p) = []"
    and "worker_run A xs (wk0, gb) [] 0 False = (wk, S, C, False)"
    and "list_all (wop_small A) xs" and "length xs < 2 ^ 64 - 1"
    and "crashed (tf_dir (wk_fs wk)) (tf_dir fs')" and "good_io fs'"
  shows "\<exists>k parts gs. C \<le> k \<and> k \<le> length S \<and> rebuilt A fi fs' = (Inr (), parts) \<and>
    list_all2 exact_range parts gs \<and>
    concat gs = filter (\<lambda>(l, b). beyond_ssts fi l) (log_pairs (take k S))"
  using worker_run_inv [OF worker_new_fresh [OF assms(2,3)] assms(4,1,5)] assms(6-8)
  unfolding needed_beyond [symmetric] by (intro run_inv_rebuilt) auto

text \<open>
  A worker that has acknowledged one waiting append with LSN 5, recovered against an SST that ends at
  LSN 4.
\<close>
theorem crash_recovery_rebuilds_acknowledged_witness:
  "\<exists>wk. worker_run raw_arrow [OpAppend [1] 5 True] (demo_worker (\<lambda>_. io_good), demo_budget) [] 0 False =
      (wk, [LBatch 5 [1]], 1, False) \<and>
    (\<exists>k parts gs. 1 \<le> k \<and> k \<le> length [LBatch 5 [1]] \<and> rebuilt raw_arrow [demo_meta 1 4] (wk_fs wk) = (Inr (), parts) \<and>
      list_all2 exact_range parts gs \<and>
      concat gs = [(5, [1])])"
proof -
  let ?io = "\<lambda>_ :: nat. io_good"
  have run: "worker_run raw_arrow [OpAppend [1] 5 True] (demo_worker ?io, demo_budget) [] 0 False =
      (demo_worker1 ?io, [LBatch 5 [1]], 1, False)"
    using demo_first_append [of ?io] by (simp add: demo_worker_def)
  have crash: "crashed (tf_dir (wk_fs (demo_worker1 ?io))) (tf_dir (wk_fs (demo_worker1 ?io)))"
    by (auto simp: crashed_def demo_worker1_def demo_fs_def demo_file1_def intro!: exI [of _ 113])
  have "tf_dir (wp_fs (demo_params ?io)) = []" by (simp add: demo_params_def demo_fs_def)
  moreover have "good_io (wk_fs (demo_worker1 ?io))" by (simp add: good_io_def demo_worker1_def demo_fs_def)
  ultimately obtain k parts gs where k: "1 \<le> k" "k \<le> length [LBatch 5 [1]]"
    and rb: "rebuilt raw_arrow [demo_meta 1 4] (wk_fs (demo_worker1 ?io)) = (Inr (), parts)" "list_all2 exact_range parts gs"
    and gs: "concat gs = filter (\<lambda>(l, b). beyond_ssts [demo_meta 1 4] l) (log_pairs (take k [LBatch 5 [1]]))"
    using crash_recovery_rebuilds_acknowledged [OF raw_arrow_ok demo_worker_new [of ?io] _ run _ _ crash, of "[demo_meta 1 4]"]
    by (auto simp: batch_small_def)
  have "k = 1" using k by simp
  then have "concat gs = [(5, [1])]"
    using gs by (simp add: beyond_ssts_def demo_meta_def from_identity_def from_parts_def)
  then show ?thesis
    using run k rb by (intro exI [of _ "demo_worker1 ?io"] conjI exI [of _ k] exI [of _ parts] exI [of _ gs]) simp_all
qed

text \<open>
  C2. Reclaiming WAL files never loses data. For a directory whose files hold logs (closed, open with any
  unreadable tail, or unreadable), whatever the capture progress and the SST index are and whichever
  removals fail, a restart after the reclaim rebuilds exactly what a restart before it would have
  rebuilt, partition by partition. Batches written without an LSN are covered by this as soon as the
  table has an SST file.
\<close>
theorem gc_keeps_recovery:
  assumes "holds_logs A fs ls"
    and "fi \<noteq> [] \<or> (\<forall>e \<in> set ls. \<forall>p \<in> set (log_pairs (snd e)). 0 < fst p)"
    and "gc_sealed_wal_files can_gc_lsn fi fs = (r, fs')"
  shows "rebuilt A fi (fs'\<lparr>tf_io := \<lambda>_. io_good\<rparr>) = rebuilt A fi (fs\<lparr>tf_io := \<lambda>_. io_good\<rparr>)"
proof (cases "list_wal_file_ids fs = []")
  case True
  then show ?thesis using assms(3) by (simp add: gc_sealed_wal_files_def)
next
  case False
  then show ?thesis
    using assms(3) by (intro gc_rebuilt [OF assms(1,2)]) (auto simp: gc_sealed_wal_files_def good_io_def Let_def)
qed

definition demo_two_files :: table_fs where
  "demo_two_files = (demo_fs (\<lambda>_. io_good))\<lparr>tf_dir := [(1, demo_file1),
     (2, \<lparr>file_data = seg_bytes raw_arrow 0 8 [] [LBatch 6 [2]] @ [0], file_durable = 0\<rparr>)]\<rparr>"

lemma demo_two_logs: "holds_logs raw_arrow demo_two_files [(1, [LBatch 5 [1]]), (2, [LBatch 6 [2]])]"
proof -
  have "log_ok raw_arrow [] [LBatch l [x]]" for l x
    by (simp add: log_ok_def schema_ok_def DEFAULT_WAL_BLOCK_MAX_BYTES_def size_consts)
  moreover have "torn raw_arrow [0]"
    by (simp add: torn_def read_frame_def frame_header_decode_def read_exact_def size_consts)
  ultimately have "file_log raw_arrow (seg_bytes raw_arrow 0 m [] [LBatch l [x]]) [LBatch l [x]]"
      "file_log raw_arrow (seg_bytes raw_arrow 0 m [] [LBatch l [x]] @ [0]) [LBatch l [x]]" for l x m
    unfolding file_log_def open_log_def by (metis append_Nil2 torn_Nil)+
  then show ?thesis by (simp add: holds_logs_def demo_two_files_def demo_file1_def)
qed

lemma demo_range: "lsn_range_in_segment (Some (seg_bytes raw_arrow 0 m [] [LBatch l [x]])) = (if l = 0 then (0, 0) else (l, l))"
proof -
  have ok: "log_ok raw_arrow [] [LBatch l [x]]"
    by (simp add: log_ok_def schema_ok_def DEFAULT_WAL_BLOCK_MAX_BYTES_def size_consts)
  have "header_loop lsn_range_step (\<lambda>st. st) st [] = st" for st
    by (simp add: header_loop.simps [of lsn_range_step] frame_header_decode_def read_exact_def size_consts)
  then have "header_loop lsn_range_step (\<lambda>st. st) (u64_max, 0) (frames_bytes (log_frames raw_arrow [] [LBatch l [x]])) =
      (if l = 0 then (u64_max, 0) else (l, l))"
    using header_loop_frames [OF log_frames_wf [OF ok], of lsn_range_step "\<lambda>st. st" "(u64_max, 0)" "[]"]
    by (simp add: log_frames_def lsn_range_step_def schema_frame_def frame_of_def word_greater_zero_iff)
  then show ?thesis by (simp add: lsn_range_in_segment_def seg_bytes_def)
qed

text \<open>Two files, the first of which (LSN 5) is reclaimed because an SST covers LSNs 1 to 5.\<close>
theorem gc_keeps_recovery_witness:
  "\<exists>fs'. gc_sealed_wal_files None [demo_meta 1 5] demo_two_files = (Inr (), fs') \<and> map fst (tf_dir fs') = [2] \<and>
    rebuilt raw_arrow [demo_meta 1 5] (fs'\<lparr>tf_io := \<lambda>_. io_good\<rparr>) =
    rebuilt raw_arrow [demo_meta 1 5] (demo_two_files\<lparr>tf_io := \<lambda>_. io_good\<rparr>)"
proof -
  have "wal_file_bytes 1 demo_two_files = Some (seg_bytes raw_arrow 0 7 [] [LBatch 5 [1]])"
    by (simp add: wal_file_bytes_def get_file_def demo_two_files_def demo_file1_def)
  then have drop: "can_drop_wal_file demo_two_files 1 [demo_meta 1 5]"
    by (simp add: can_drop_wal_file_def demo_range covers_lsn_def meta_covers_lsn_def demo_meta_def
        from_identity_def from_parts_def has_lsn_bounds_def)
  have ids: "list_wal_file_ids demo_two_files = [1, 2]"
    by (simp add: list_wal_file_ids_def demo_two_files_def)
  let ?fs = "(tick demo_two_files)\<lparr>tf_dir := filter (\<lambda>e. fst e \<noteq> 1) (tf_dir demo_two_files)\<rparr>"
  have rm: "remove_wal_file 1 demo_two_files = (Inr (), ?fs)"
    by (simp add: remove_wal_file_def get_file_def demo_two_files_def demo_fs_def io_now_def io_good_def)
  have gc: "gc_sealed_wal_files None [demo_meta 1 5] demo_two_files = (Inr (), ?fs)"
    by (simp add: gc_sealed_wal_files_def ids drop rm)
  show ?thesis
    using gc_keeps_recovery [OF demo_two_logs _ gc] gc by (simp add: demo_two_files_def)
qed

end
