(* ===== verification/Batch.thy ===== *)
theory Batch
  imports Sst "HOL-Library.Multiset"
begin

text \<open>
  Record batches and the mandatory time column (\<^verbatim>\<open>src/src/common/src/arrow/time_column.rs\<close>,
  \<^verbatim>\<open>batch_sort.rs\<close>). A batch is a schema with one array per field, and an array is a list of cells.
  The compute kernels of Arrow (\<^verbatim>\<open>take\<close>, \<^verbatim>\<open>concat_batches\<close>, \<^verbatim>\<open>filter_record_batch\<close>,
  \<^verbatim>\<open>interleave\<close>, \<^verbatim>\<open>lexsort_to_indices\<close>, \<^verbatim>\<open>RecordBatch::try_new\<close>, \<^verbatim>\<open>slice\<close>) are a parameter, and
  \<open>kernels_ok\<close> states what the code relies on. \<open>list_kernels\<close> is an instance on lists. The last
  section defines the rows of a batch and the newest-wins result that flush, compaction and scans
  promise.
\<close>

section \<open>Arrays, schemas, batches\<close>

datatype time_unit = Second | Millisecond | Microsecond | Nanosecond

datatype data_type = DInt64 | DTimestamp time_unit | DOther string

datatype scalar = SNull | SInt i64 | SBytes bytes

record field =
  fd_name :: string
  fd_type :: data_type
  fd_nullable :: bool

type_synonym schema = "field list"

record arrow_array =
  a_type :: data_type
  a_cells :: "scalar list"

record record_batch =
  rb_schema :: schema
  rb_columns :: "arrow_array list"

definition num_rows :: "record_batch \<Rightarrow> nat" where
  "num_rows b = (case rb_columns b of [] \<Rightarrow> 0 | c # _ \<Rightarrow> length (a_cells c))"

record kernels =
  k_take :: "arrow_array \<Rightarrow> nat list \<Rightarrow> arrow_array option"
  k_sort :: "arrow_array \<Rightarrow> nat list option"
  k_interleave :: "arrow_array list \<Rightarrow> (nat \<times> nat) list \<Rightarrow> arrow_array option"
  k_try_new :: "schema \<Rightarrow> arrow_array list \<Rightarrow> record_batch option"
  k_concat :: "schema \<Rightarrow> record_batch list \<Rightarrow> record_batch option"
  k_filter :: "record_batch \<Rightarrow> bool list \<Rightarrow> record_batch option"
  k_slice :: "record_batch \<Rightarrow> nat \<Rightarrow> nat \<Rightarrow> record_batch"

section \<open>The time column\<close>

definition TIMESTAMP_COLUMN :: string where
  "TIMESTAMP_COLUMN = ''time''"

fun index_of :: "string \<Rightarrow> schema \<Rightarrow> nat option" where
  "index_of n [] = None"
| "index_of n (f # fs) = (if fd_name f = n then Some 0 else map_option Suc (index_of n fs))"

definition time_column_index :: "schema \<Rightarrow> nat res" where
  "time_column_index s =
     (case index_of TIMESTAMP_COLUMN s of
        Some i \<Rightarrow> Inr i
      | None \<Rightarrow> Inl (Schema ''missing time column''))"

fun is_time_type :: "data_type \<Rightarrow> bool" where
  "is_time_type DInt64 = True"
| "is_time_type (DTimestamp u) = True"
| "is_time_type (DOther n) = False"

fun raw_i64 :: "scalar \<Rightarrow> i64" where
  "raw_i64 (SInt i) = i"
| "raw_i64 _ = 0"

definition time_value_at :: "arrow_array \<Rightarrow> nat \<Rightarrow> i64 res" where
  "time_value_at c row =
     (if is_time_type (a_type c) then Inr (raw_i64 (a_cells c ! row))
      else Inl (Schema ''time column must be BIGINT or TIMESTAMP''))"

definition time_values_slice :: "arrow_array \<Rightarrow> i64 list res" where
  "time_values_slice c =
     (if is_time_type (a_type c) then Inr (map raw_i64 (a_cells c))
      else Inl (Schema ''time column must be BIGINT or TIMESTAMP''))"

text \<open>\<^verbatim>\<open>values.windows(2).all(..)\<close>.\<close>

fun windows2_all :: "('a \<Rightarrow> 'a \<Rightarrow> bool) \<Rightarrow> 'a list \<Rightarrow> bool" where
  "windows2_all P (x # y # xs) \<longleftrightarrow> P x y \<and> windows2_all P (y # xs)"
| "windows2_all P _ \<longleftrightarrow> True"

fun sorted_loop :: "arrow_array \<Rightarrow> nat list \<Rightarrow> bool res" where
  "sorted_loop c [] = Inr True"
| "sorted_loop c (row # rest) =
     and_then (time_value_at c (row - 1)) (\<lambda>prev.
     and_then (time_value_at c row) (\<lambda>cur.
       if cur < prev then Inr False else sorted_loop c rest))"

definition is_sorted_by_time :: "record_batch \<Rightarrow> bool res" where
  "is_sorted_by_time b =
     (if num_rows b \<le> 1 then Inr True
      else and_then (time_column_index (rb_schema b)) (\<lambda>ts_idx.
        let c = rb_columns b ! ts_idx in
        if a_type c = DInt64 \<and> SNull \<notin> set (a_cells c)
        then Inr (windows2_all (\<lambda>x y. y \<ge> x) (map raw_i64 (a_cells c)))
        else sorted_loop c [1..<num_rows b]))"

fun take_columns :: "kernels \<Rightarrow> string \<Rightarrow> nat list \<Rightarrow> arrow_array list \<Rightarrow> arrow_array list res" where
  "take_columns K msg is [] = Inr []"
| "take_columns K msg is (c # cs) =
     and_then (case k_take K c is of None \<Rightarrow> Inl (Storage msg) | Some c' \<Rightarrow> Inr c') (\<lambda>c'.
     and_then (take_columns K msg is cs) (\<lambda>cs'. Inr (c' # cs')))"

definition new_batch :: "kernels \<Rightarrow> string \<Rightarrow> schema \<Rightarrow> arrow_array list \<Rightarrow> record_batch res" where
  "new_batch K msg s cs = (case k_try_new K s cs of None \<Rightarrow> Inl (Storage msg) | Some b \<Rightarrow> Inr b)"

definition sort_batch_by_time :: "kernels \<Rightarrow> record_batch \<Rightarrow> record_batch res" where
  "sort_batch_by_time K b =
     and_then (time_column_index (rb_schema b)) (\<lambda>ts_idx.
     and_then (case k_sort K (rb_columns b ! ts_idx) of
                 None \<Rightarrow> Inl (Storage ''sort by time'') | Some is \<Rightarrow> Inr is) (\<lambda>indices.
     and_then (take_columns K ''sort by time take'' indices (rb_columns b)) (\<lambda>columns.
       new_batch K ''arrow'' (rb_schema b) columns)))"

definition ensure_sorted_by_time :: "kernels \<Rightarrow> record_batch \<Rightarrow> record_batch res" where
  "ensure_sorted_by_time K b =
     and_then (is_sorted_by_time b) (\<lambda>ok. if ok then Inr b else sort_batch_by_time K b)"

section \<open>Well-formed batches and what the kernels promise\<close>

definition column_ok :: "nat \<Rightarrow> field \<Rightarrow> arrow_array \<Rightarrow> bool" where
  "column_ok n f c \<longleftrightarrow> a_type c = fd_type f \<and> length (a_cells c) = n \<and>
     (fd_nullable f \<or> SNull \<notin> set (a_cells c))"

definition batch_wf :: "schema \<Rightarrow> record_batch \<Rightarrow> bool" where
  "batch_wf s b \<longleftrightarrow> rb_schema b = s \<and> rb_columns b \<noteq> [] \<and> list_all2 (column_ok (num_rows b)) s (rb_columns b)"

text \<open>The schema of a table has a non-null time column of an integer or timestamp type.\<close>

definition time_idx :: "schema \<Rightarrow> nat" where
  "time_idx s = (case index_of TIMESTAMP_COLUMN s of Some i \<Rightarrow> i | None \<Rightarrow> 0)"

definition schema_wf :: "schema \<Rightarrow> bool" where
  "schema_wf s \<longleftrightarrow> (case index_of TIMESTAMP_COLUMN s of
      None \<Rightarrow> False
    | Some i \<Rightarrow> is_time_type (fd_type (s ! i)) \<and> \<not> fd_nullable (s ! i))"

definition pick :: "'a list \<Rightarrow> nat list \<Rightarrow> 'a list" where
  "pick xs is = map ((!) xs) is"

definition select :: "bool list \<Rightarrow> 'a list \<Rightarrow> 'a list" where
  "select bs xs = map snd (filter fst (zip bs xs))"

text \<open>
  Selection by in-range positions, an ordering permutation of a time column without nulls (in no
  particular order among equal values), concatenation of batches of one schema, filtering by a mask of
  the right length, and construction from columns that match the schema.
\<close>

definition kernels_ok :: "kernels \<Rightarrow> bool" where
  "kernels_ok K \<longleftrightarrow>
     (\<forall>c is. (\<forall>i \<in> set is. i < length (a_cells c)) \<longrightarrow>
        k_take K c is = Some (c\<lparr>a_cells := pick (a_cells c) is\<rparr>)) \<and>
     (\<forall>c. is_time_type (a_type c) \<and> SNull \<notin> set (a_cells c) \<longrightarrow>
        (\<exists>is. k_sort K c = Some is \<and> mset is = mset [0..<length (a_cells c)] \<and>
           sorted (map (\<lambda>i. raw_i64 (a_cells c ! i)) is))) \<and>
     (\<forall>cs is t. cs \<noteq> [] \<and> (\<forall>c \<in> set cs. a_type c = t) \<and>
        (\<forall>(j, r) \<in> set is. j < length cs \<and> r < length (a_cells (cs ! j))) \<longrightarrow>
        k_interleave K cs is = Some \<lparr>a_type = t, a_cells = map (\<lambda>(j, r). a_cells (cs ! j) ! r) is\<rparr>) \<and>
     (\<forall>s cs. batch_wf s \<lparr>rb_schema = s, rb_columns = cs\<rparr> \<longrightarrow>
        k_try_new K s cs = Some \<lparr>rb_schema = s, rb_columns = cs\<rparr>) \<and>
     (\<forall>s bs. bs \<noteq> [] \<and> (\<forall>b \<in> set bs. batch_wf s b) \<longrightarrow>
        k_concat K s bs = Some \<lparr>rb_schema = s, rb_columns =
          map (\<lambda>j. \<lparr>a_type = fd_type (s ! j), a_cells = concat (map (\<lambda>b. a_cells (rb_columns b ! j)) bs)\<rparr>)
            [0..<length s]\<rparr>) \<and>
     (\<forall>s b m. batch_wf s b \<and> length m = num_rows b \<longrightarrow>
        k_filter K b m = Some (b\<lparr>rb_columns := map (\<lambda>c. c\<lparr>a_cells := select m (a_cells c)\<rparr>) (rb_columns b)\<rparr>)) \<and>
     (\<forall>s b off len. batch_wf s b \<and> off + len \<le> num_rows b \<longrightarrow>
        k_slice K b off len =
          b\<lparr>rb_columns := map (\<lambda>c. c\<lparr>a_cells := take len (drop off (a_cells c))\<rparr>) (rb_columns b)\<rparr>)"

section \<open>Rows\<close>

type_synonym row = "scalar list"

definition rows :: "record_batch \<Rightarrow> row list" where
  "rows b = map (\<lambda>r. map (\<lambda>c. a_cells c ! r) (rb_columns b)) [0..<num_rows b]"

definition row_time :: "schema \<Rightarrow> row \<Rightarrow> i64" where
  "row_time s r = raw_i64 (r ! time_idx s)"

abbreviation all_rows :: "record_batch list \<Rightarrow> row list" where
  "all_rows bs \<equiv> concat (map rows bs)"

abbreviation batches_wf :: "schema \<Rightarrow> record_batch list \<Rightarrow> bool" where
  "batches_wf s bs \<equiv> \<forall>b \<in> set bs. batch_wf s b"

text \<open>
  The newest-wins result of a list of rows in the order they were written: one row per time, the last
  one written, in the order of time.
\<close>

definition newest_at :: "('r \<Rightarrow> i64) \<Rightarrow> 'r list \<Rightarrow> i64 \<Rightarrow> 'r option" where
  "newest_at k rs t = (let same = filter (\<lambda>r. k r = t) rs in if same = [] then None else Some (List.last same))"

definition newest :: "('r \<Rightarrow> i64) \<Rightarrow> 'r list \<Rightarrow> 'r list" where
  "newest k rs = map (\<lambda>t. the (newest_at k rs t)) (sorted_list_of_set (k ` set rs))"

lemma length_rows [simp]: "length (rows b) = num_rows b"
  by (simp add: rows_def)

lemma nth_rows: "r < num_rows b \<Longrightarrow> rows b ! r = map (\<lambda>c. a_cells c ! r) (rb_columns b)"
  by (simp add: rows_def)

lemma batch_wf_col:
  assumes "batch_wf s b" and "j < length s"
  shows "a_type (rb_columns b ! j) = fd_type (s ! j)" "length (a_cells (rb_columns b ! j)) = num_rows b"
    "fd_nullable (s ! j) \<or> SNull \<notin> set (a_cells (rb_columns b ! j))" "length (rb_columns b) = length s"
  using assms by (auto simp: batch_wf_def column_ok_def list_all2_conv_all_nth)

lemma batch_wf_schema: "batch_wf s b \<Longrightarrow> rb_schema b = s"
  by (simp add: batch_wf_def)

lemma batch_wf_len: "batch_wf s b \<Longrightarrow> length (rb_columns b) = length s"
  by (auto simp: batch_wf_def dest: list_all2_lengthD)

lemma batch_wf_cells: "batch_wf s b \<Longrightarrow> c \<in> set (rb_columns b) \<Longrightarrow> length (a_cells c) = num_rows b"
  by (auto simp: batch_wf_def column_ok_def list_all2_conv_all_nth in_set_conv_nth)

lemma index_of_less: "index_of n s = Some i \<Longrightarrow> i < length s"
  by (induction s arbitrary: i) (auto split: if_splits)

lemma schema_wf_idx:
  assumes "schema_wf s"
  shows "time_column_index s = Inr (time_idx s)" "time_idx s < length s"
    "is_time_type (fd_type (s ! time_idx s))" "\<not> fd_nullable (s ! time_idx s)"
  using assms index_of_less
  by (auto simp: schema_wf_def time_column_index_def time_idx_def split: option.splits)

lemma time_col:
  assumes "schema_wf s" and "batch_wf s b"
  shows "map raw_i64 (a_cells (rb_columns b ! time_idx s)) = map (row_time s) (rows b)"
    and "is_time_type (a_type (rb_columns b ! time_idx s))"
    and "SNull \<notin> set (a_cells (rb_columns b ! time_idx s))"
proof -
  note i = schema_wf_idx [OF assms(1)] and c = batch_wf_col [OF assms(2) schema_wf_idx(2) [OF assms(1)]]
  show "map raw_i64 (a_cells (rb_columns b ! time_idx s)) = map (row_time s) (rows b)"
    using i c by (intro nth_equalityI) (auto simp: row_time_def nth_rows)
  show "is_time_type (a_type (rb_columns b ! time_idx s))" "SNull \<notin> set (a_cells (rb_columns b ! time_idx s))"
    using i c by auto
qed

lemma time_values_wf:
  "schema_wf s \<Longrightarrow> batch_wf s b \<Longrightarrow> time_values_slice (rb_columns b ! time_idx s) = Inr (map (row_time s) (rows b))"
  by (simp add: time_values_slice_def time_col)

lemma time_value_wf:
  assumes "schema_wf s" and "batch_wf s b" and "r < num_rows b"
  shows "time_value_at (rb_columns b ! time_idx s) r = Inr (row_time s (rows b ! r))"
proof -
  let ?c = "rb_columns b ! time_idx s"
  have "raw_i64 (a_cells ?c ! r) = map raw_i64 (a_cells ?c) ! r"
    using assms(3) batch_wf_col(2) [OF assms(2) schema_wf_idx(2) [OF assms(1)]] by simp
  also have "\<dots> = map (row_time s) (rows b) ! r" by (simp only: time_col [OF assms(1,2)])
  finally show ?thesis using assms by (simp add: time_value_at_def time_col)
qed

text \<open>Batches built column by column.\<close>

definition cells_wf :: "schema \<Rightarrow> nat \<Rightarrow> (nat \<Rightarrow> scalar list) \<Rightarrow> bool" where
  "cells_wf s n f \<longleftrightarrow> s \<noteq> [] \<and> (\<forall>j < length s. length (f j) = n \<and> (fd_nullable (s ! j) \<or> SNull \<notin> set (f j)))"

definition of_cells :: "schema \<Rightarrow> (nat \<Rightarrow> scalar list) \<Rightarrow> record_batch" where
  "of_cells s f = \<lparr>rb_schema = s, rb_columns = map (\<lambda>j. \<lparr>a_type = fd_type (s ! j), a_cells = f j\<rparr>) [0..<length s]\<rparr>"

lemma of_cells_wf:
  assumes "cells_wf s n f"
  shows "batch_wf s (of_cells s f)" "num_rows (of_cells s f) = n"
    "rows (of_cells s f) = map (\<lambda>r. map (\<lambda>j. f j ! r) [0..<length s]) [0..<n]"
proof -
  show n: "num_rows (of_cells s f) = n"
    using assms by (cases s) (auto simp: of_cells_def num_rows_def cells_wf_def upt_conv_Cons simp del: upt_Suc)
  then show "batch_wf s (of_cells s f)"
    using assms by (auto simp: batch_wf_def cells_wf_def of_cells_def column_ok_def list_all2_conv_all_nth)
  show "rows (of_cells s f) = map (\<lambda>r. map (\<lambda>j. f j ! r) [0..<length s]) [0..<n]"
    by (simp add: rows_def n) (simp add: of_cells_def)
qed

lemma columns_of_cells:
  assumes "batch_wf s b"
  shows "b = of_cells s (\<lambda>j. a_cells (rb_columns b ! j))" "cells_wf s (num_rows b) (\<lambda>j. a_cells (rb_columns b ! j))"
proof -
  have cols: "rb_columns b = map (\<lambda>j. \<lparr>a_type = fd_type (s ! j), a_cells = a_cells (rb_columns b ! j)\<rparr>) [0..<length s]"
  proof (rule nth_equalityI)
    fix j
    assume "j < length (rb_columns b)"
    then have j: "j < length s" using batch_wf_len [OF assms] by simp
    have "rb_columns b ! j = \<lparr>a_type = fd_type (s ! j), a_cells = a_cells (rb_columns b ! j)\<rparr>"
      using batch_wf_col(1) [OF assms j] by (cases "rb_columns b ! j") simp
    then show "rb_columns b ! j =
        map (\<lambda>j. \<lparr>a_type = fd_type (s ! j), a_cells = a_cells (rb_columns b ! j)\<rparr>) [0..<length s] ! j"
      using j by (metis (no_types, lifting) add_0 nth_map_upt diff_zero)
  qed (simp add: batch_wf_len [OF assms])
  show "b = of_cells s (\<lambda>j. a_cells (rb_columns b ! j))"
  proof (rule record_batch.equality)
    show "rb_columns b = rb_columns (of_cells s (\<lambda>j. a_cells (rb_columns b ! j)))"
      unfolding of_cells_def record_batch.simps by (rule cols)
  qed (use assms in \<open>simp_all add: of_cells_def batch_wf_def\<close>)
  show "cells_wf s (num_rows b) (\<lambda>j. a_cells (rb_columns b ! j))"
    using assms batch_wf_col [OF assms] by (auto simp: cells_wf_def batch_wf_def)
qed

lemma row_cells: "batch_wf s b \<Longrightarrow> r < num_rows b \<Longrightarrow> rows b ! r = map (\<lambda>j. a_cells (rb_columns b ! j) ! r) [0..<length s]"
  by (intro nth_equalityI) (auto simp: nth_rows batch_wf_len)

section \<open>What the kernels do to the rows\<close>

lemma set_pick: "\<forall>i \<in> set is. i < length xs \<Longrightarrow> set (pick xs is) \<subseteq> set xs"
  by (auto simp: pick_def)

lemma length_pick: "length (pick xs is) = length is"
  by (simp add: pick_def)

lemma take_columns_ok:
  assumes "kernels_ok K"
  shows "(\<forall>c \<in> set cs. \<forall>i \<in> set is. i < length (a_cells c)) \<Longrightarrow>
    take_columns K msg is cs = Inr (map (\<lambda>c. c\<lparr>a_cells := pick (a_cells c) is\<rparr>) cs)"
  using assms by (induction cs) (auto simp: kernels_ok_def and_then_def)

lemma take_rows:
  assumes "kernels_ok K" and "batch_wf s b" and "\<forall>i \<in> set is. i < num_rows b"
  obtains b' where "and_then (take_columns K msg is (rb_columns b)) (new_batch K msg' s) = Inr b'"
    and "batch_wf s b'" and "rows b' = pick (rows b) is"
proof -
  let ?f = "\<lambda>j. pick (a_cells (rb_columns b ! j)) is"
  have cols: "map (\<lambda>c. c\<lparr>a_cells := pick (a_cells c) is\<rparr>) (rb_columns b) = rb_columns (of_cells s ?f)"
    using batch_wf_col [OF assms(2)] assms(2)
    by (intro nth_equalityI) (auto simp: of_cells_def batch_wf_len)
  have "set (?f j) \<subseteq> set (a_cells (rb_columns b ! j))" if "j < length s" for j
    using set_pick [of "is" "a_cells (rb_columns b ! j)"] assms(3) batch_wf_col(2) [OF assms(2) that] by simp
  then have wf: "cells_wf s (length is) ?f"
    using columns_of_cells(2) [OF assms(2)] unfolding cells_wf_def length_pick by blast
  have "k_try_new K s (rb_columns (of_cells s ?f)) = Some (of_cells s ?f)"
    using assms(1) of_cells_wf(1) [OF wf] by (auto simp: kernels_ok_def of_cells_def)
  moreover have "take_columns K msg is (rb_columns b) = Inr (rb_columns (of_cells s ?f))"
    using take_columns_ok [OF assms(1), of "rb_columns b" "is"] batch_wf_cells [OF assms(2)] assms(3) cols by auto
  moreover have "rows (of_cells s ?f) = pick (rows b) is"
    using of_cells_wf(3) [OF wf] assms(3) row_cells [OF assms(2)]
    by (intro nth_equalityI) (auto simp: pick_def)
  ultimately show thesis using that of_cells_wf(1) [OF wf] by (simp add: new_batch_def and_then_def)
qed

lemma kernels_sortD:
  "kernels_ok K \<Longrightarrow> is_time_type (a_type c) \<Longrightarrow> SNull \<notin> set (a_cells c) \<Longrightarrow>
   \<exists>is. k_sort K c = Some is \<and> mset is = mset [0..<length (a_cells c)] \<and>
     sorted (map (\<lambda>i. raw_i64 (a_cells c ! i)) is)"
  unfolding kernels_ok_def by blast

lemma sort_rows:
  assumes "kernels_ok K" and "schema_wf s" and "batch_wf s b"
  obtains b' where "sort_batch_by_time K b = Inr b'" and "batch_wf s b'" and "mset (rows b') = mset (rows b)"
    and "sorted (map (row_time s) (rows b'))"
proof -
  let ?c = "rb_columns b ! time_idx s"
  have n: "length (a_cells ?c) = num_rows b" using batch_wf_col(2) [OF assms(3) schema_wf_idx(2) [OF assms(2)]] .
  obtain "is" where k: "k_sort K ?c = Some is" and m: "mset is = mset [0..<num_rows b]"
    and srt: "sorted (map (\<lambda>i. raw_i64 (a_cells ?c ! i)) is)"
    using kernels_sortD [OF assms(1) time_col(2,3) [OF assms(2,3)]] unfolding n by blast
  have lt: "\<forall>i \<in> set is. i < num_rows b" using arg_cong [OF m, of set_mset] by auto
  obtain b' where b': "and_then (take_columns K ''sort by time take'' is (rb_columns b)) (new_batch K ''arrow'' s) = Inr b'"
    "batch_wf s b'" "rows b' = pick (rows b) is"
    using take_rows [OF assms(1,3) lt] by blast
  have "mset (rows b') = image_mset ((!) (rows b)) (mset [0..<num_rows b])"
    unfolding b'(3) pick_def mset_map m ..
  also have "\<dots> = mset (map ((!) (rows b)) [0..<length (rows b)])" by (simp only: mset_map length_rows)
  finally have ms: "mset (rows b') = mset (rows b)" by (simp only: map_nth)
  have "raw_i64 (a_cells ?c ! i) = row_time s (rows b ! i)" if "i \<in> set is" for i
    using time_value_wf [OF assms(2,3)] lt that time_col(2) [OF assms(2,3)] by (simp add: time_value_at_def)
  then have "map (\<lambda>i. raw_i64 (a_cells ?c ! i)) is = map (row_time s) (rows b')"
    by (simp add: b'(3) pick_def)
  then show thesis
    using that [OF _ b'(2) ms] srt b'(1)
    by (simp add: sort_batch_by_time_def batch_wf_schema [OF assms(3)] schema_wf_idx(1) [OF assms(2)] k and_then_def)
qed

lemma concat_rows:
  assumes "kernels_ok K" and "bs \<noteq> []" and "\<forall>b \<in> set bs. batch_wf s b"
  obtains b' where "k_concat K s bs = Some b'" and "batch_wf s b'" and "rows b' = concat (map rows bs)"
proof -
  let ?f = "\<lambda>bs j. concat (map (\<lambda>b. a_cells (rb_columns b ! j)) bs)"
  have k: "k_concat K s bs = Some (of_cells s (?f bs))"
    using assms unfolding kernels_ok_def of_cells_def by blast
  have ne: "s \<noteq> []" using assms(2,3) columns_of_cells(2) by (auto simp: cells_wf_def neq_Nil_conv)
  have wf: "cells_wf s (sum_list (map num_rows bs)) (?f bs)" if "\<forall>b \<in> set bs. batch_wf s b" for bs
    using that ne by (induction bs) (auto simp: cells_wf_def dest!: columns_of_cells(2))
  have "rows (of_cells s (?f bs)) = concat (map rows bs)" if "\<forall>b \<in> set bs. batch_wf s b" for bs
    using that
  proof (induction bs)
    case (Cons b bs)
    have wf': "\<forall>b \<in> set bs. batch_wf s b" and b: "batch_wf s b" using Cons.prems by simp_all
    have len: "length (a_cells (rb_columns b ! j)) = num_rows b" if "j < length s" for j
      using batch_wf_col(2) [OF b that] .
    have "rows (of_cells s (?f (b # bs))) ! r = (rows b @ rows (of_cells s (?f bs))) ! r"
      if "r < num_rows b + sum_list (map num_rows bs)" for r
      using that of_cells_wf(3) [OF wf [OF Cons.prems]] of_cells_wf(3) [OF wf [OF wf']] len row_cells [OF b]
      by (auto simp: nth_append)
    then show ?case
      using Cons.IH [OF wf'] of_cells_wf(2) [OF wf [OF Cons.prems]] of_cells_wf(2) [OF wf [OF wf']]
      by (intro nth_equalityI) (auto simp: length_concat comp_def)
  qed (simp add: rows_def of_cells_def num_rows_def ne upt_conv_Cons)
  then show thesis using that k of_cells_wf(1) [OF wf] assms(3) by blast
qed

lemma kernels_filterD:
  "kernels_ok K \<Longrightarrow> batch_wf s b \<Longrightarrow> length m = num_rows b \<Longrightarrow>
   k_filter K b m = Some (b\<lparr>rb_columns := map (\<lambda>c. c\<lparr>a_cells := select m (a_cells c)\<rparr>) (rb_columns b)\<rparr>)"
  unfolding kernels_ok_def by blast

lemma kernels_sliceD:
  "kernels_ok K \<Longrightarrow> batch_wf s b \<Longrightarrow> off + len \<le> num_rows b \<Longrightarrow>
   k_slice K b off len = b\<lparr>rb_columns := map (\<lambda>c. c\<lparr>a_cells := take len (drop off (a_cells c))\<rparr>) (rb_columns b)\<rparr>"
  unfolding kernels_ok_def by blast

lemma select_conv: "length m = length xs \<Longrightarrow> select m xs = pick xs (filter (\<lambda>i. m ! i) [0..<length xs])"
proof (induction xs arbitrary: m rule: rev_induct)
  case (snoc x xs)
  then obtain m' y where m: "m = m' @ [y]" "length m' = length xs"
    by (cases m rule: rev_cases) auto
  have "filter (\<lambda>i. (m' @ [y]) ! i) [0..<length xs] = filter (\<lambda>i. m' ! i) [0..<length xs]"
    using m(2) by (intro filter_cong) (auto simp: nth_append)
  then show ?case using snoc.IH [OF m(2)] m by (auto simp: select_def pick_def nth_append)
qed (simp add: select_def pick_def)

text \<open>Every column picks the same positions, so the rows do.\<close>

lemma pick_batch:
  assumes "batch_wf s b" and "\<forall>i \<in> set is. i < num_rows b"
  defines "b' \<equiv> b\<lparr>rb_columns := map (\<lambda>c. c\<lparr>a_cells := pick (a_cells c) is\<rparr>) (rb_columns b)\<rparr>"
  shows "batch_wf s b'" "rows b' = pick (rows b) is"
proof -
  let ?f = "\<lambda>j. pick (a_cells (rb_columns b ! j)) is"
  have "rb_columns b' = rb_columns (of_cells s ?f)"
    unfolding b'_def using batch_wf_col [OF assms(1)]
    by (intro nth_equalityI) (auto simp: of_cells_def batch_wf_len [OF assms(1)])
  then have b': "b' = of_cells s ?f"
    by (intro record_batch.equality) (simp_all add: b'_def of_cells_def batch_wf_schema [OF assms(1)])
  have "set (?f j) \<subseteq> set (a_cells (rb_columns b ! j))" if "j < length s" for j
    using set_pick [of "is" "a_cells (rb_columns b ! j)"] assms(2) batch_wf_col(2) [OF assms(1) that] by simp
  then have wf: "cells_wf s (length is) ?f"
    using columns_of_cells(2) [OF assms(1)] unfolding cells_wf_def length_pick by blast
  show "batch_wf s b'" unfolding b' by (rule of_cells_wf(1) [OF wf])
  show "rows b' = pick (rows b) is"
    unfolding b' of_cells_wf(3) [OF wf] using assms(2) row_cells [OF assms(1)]
    by (intro nth_equalityI) (auto simp: pick_def)
qed

lemma filter_rows:
  assumes "kernels_ok K" and "batch_wf s b" and "length m = num_rows b"
  obtains b' where "k_filter K b m = Some b'" and "batch_wf s b'" and "rows b' = select m (rows b)"
proof -
  let ?is = "filter (\<lambda>i. m ! i) [0..<num_rows b]"
  have eq: "map (\<lambda>c. c\<lparr>a_cells := select m (a_cells c)\<rparr>) (rb_columns b) =
      map (\<lambda>c. c\<lparr>a_cells := pick (a_cells c) ?is\<rparr>) (rb_columns b)"
    using batch_wf_cells [OF assms(2)] assms(3) by (auto simp: select_conv)
  show thesis
    using that [OF kernels_filterD [OF assms]] pick_batch [OF assms(2), of ?is] select_conv [of m "rows b"] assms(3)
    unfolding eq by simp
qed

lemma slice_pick: "off + len \<le> length xs \<Longrightarrow> take len (drop off xs) = pick xs [off..<off + len]"
  by (intro nth_equalityI) (auto simp: pick_def)

lemma slice_rows:
  assumes "kernels_ok K" and "batch_wf s b" and "off + len \<le> num_rows b"
  shows "batch_wf s (k_slice K b off len)" "rows (k_slice K b off len) = take len (drop off (rows b))"
proof -
  let ?is = "[off..<off + len]"
  have eq: "map (\<lambda>c. c\<lparr>a_cells := take len (drop off (a_cells c))\<rparr>) (rb_columns b) =
      map (\<lambda>c. c\<lparr>a_cells := pick (a_cells c) ?is\<rparr>) (rb_columns b)"
    using batch_wf_cells [OF assms(2)] assms(3) by (auto simp: slice_pick)
  show "batch_wf s (k_slice K b off len)" "rows (k_slice K b off len) = take len (drop off (rows b))"
    unfolding kernels_sliceD [OF assms] eq using pick_batch [OF assms(2), of ?is] assms(3) by (auto simp: slice_pick)
qed

fun interleave_columns ::
  "kernels \<Rightarrow> string \<Rightarrow> record_batch list \<Rightarrow> (nat \<times> nat) list \<Rightarrow> nat list \<Rightarrow> arrow_array list res" where
  "interleave_columns K msg bs is [] = Inr []"
| "interleave_columns K msg bs is (j # js) =
     and_then (case k_interleave K (map (\<lambda>b. rb_columns b ! j) bs) is of
                 None \<Rightarrow> Inl (Storage msg) | Some c \<Rightarrow> Inr c) (\<lambda>c.
     and_then (interleave_columns K msg bs is js) (\<lambda>cs. Inr (c # cs)))"

lemma kernels_interleaveD:
  "kernels_ok K \<Longrightarrow> cs \<noteq> [] \<Longrightarrow> \<forall>c \<in> set cs. a_type c = t \<Longrightarrow>
   \<forall>(j, r) \<in> set is. j < length cs \<and> r < length (a_cells (cs ! j)) \<Longrightarrow>
   k_interleave K cs is = Some \<lparr>a_type = t, a_cells = map (\<lambda>(j, r). a_cells (cs ! j) ! r) is\<rparr>"
  unfolding kernels_ok_def by blast

lemma interleave_rows:
  assumes "kernels_ok K" and "bs \<noteq> []" and wf: "\<forall>b \<in> set bs. batch_wf s b"
    and rng: "\<forall>(c, r) \<in> set is. c < length bs \<and> r < num_rows (bs ! c)"
  obtains b' where "and_then (interleave_columns K msg bs is [0..<length s]) (new_batch K msg' s) = Inr b'"
    and "batch_wf s b'" and "rows b' = map (\<lambda>(c, r). rows (bs ! c) ! r) is"
proof -
  let ?f = "\<lambda>j. map (\<lambda>(c, r). a_cells (rb_columns (bs ! c) ! j) ! r) is"
  have wfn: "batch_wf s (bs ! c)" if "c < length bs" for c using that wf by simp
  have k: "k_interleave K (map (\<lambda>b. rb_columns b ! j) bs) is = Some \<lparr>a_type = fd_type (s ! j), a_cells = ?f j\<rparr>"
    if "j < length s" for j
  proof -
    have "map (\<lambda>(c, r). a_cells (map (\<lambda>b. rb_columns b ! j) bs ! c) ! r) is = ?f j" using rng by auto
    moreover have "\<forall>(c, r) \<in> set is. c < length (map (\<lambda>b. rb_columns b ! j) bs) \<and>
        r < length (a_cells (map (\<lambda>b. rb_columns b ! j) bs ! c))"
      using rng batch_wf_col(2) [OF wfn that] by auto
    ultimately show ?thesis
      using kernels_interleaveD [OF assms(1), of "map (\<lambda>b. rb_columns b ! j) bs" "fd_type (s ! j)" "is"] assms(2)
        batch_wf_col(1) [OF _ that] wf by auto
  qed
  have "\<forall>j \<in> set js. j < length s \<Longrightarrow> interleave_columns K msg bs is js =
      Inr (map (\<lambda>j. \<lparr>a_type = fd_type (s ! j), a_cells = ?f j\<rparr>) js)" for js
    by (induction js) (simp_all add: k)
  then have cols: "interleave_columns K msg bs is [0..<length s] = Inr (rb_columns (of_cells s ?f))"
    by (simp add: of_cells_def)
  have nn: "fd_nullable (s ! j) \<or> SNull \<notin> set (?f j)" if j: "j < length s" for j
  proof (cases "fd_nullable (s ! j)")
    case False
    have "a_cells (rb_columns (bs ! c) ! j) ! r \<noteq> SNull" if "(c, r) \<in> set is" for c r
    proof -
      have "c < length bs" "r < num_rows (bs ! c)" using rng that by auto
      then show ?thesis
        using batch_wf_col(2,3) [OF wfn j, of c] False by (metis nth_mem)
    qed
    then have "x \<noteq> SNull" if "x \<in> set (?f j)" for x using that by fastforce
    then show ?thesis by blast
  qed simp
  obtain b0 where "batch_wf s b0" using assms(2) wf by (cases bs) auto
  then have cw: "cells_wf s (length is) ?f" using nn batch_wf_len [of s b0] by (auto simp: cells_wf_def batch_wf_def)
  have "k_try_new K s (rb_columns (of_cells s ?f)) = Some (of_cells s ?f)"
    using assms(1) of_cells_wf(1) [OF cw] by (auto simp: kernels_ok_def of_cells_def)
  moreover have "rows (of_cells s ?f) = map (\<lambda>(c, r). rows (bs ! c) ! r) is"
    unfolding of_cells_wf(3) [OF cw] using rng row_cells [OF wfn]
    by (intro nth_equalityI) (auto simp: case_prod_unfold)
  ultimately show thesis using that cols of_cells_wf(1) [OF cw] by (simp add: new_batch_def)
qed

section \<open>Newest wins\<close>

lemma newest_at_append: "newest_at k (xs @ ys) = newest_at k xs ++ newest_at k ys"
  by (rule ext) (simp add: newest_at_def map_add_def Let_def)

lemma newest_at_Nil [simp]: "newest_at k [] = Map.empty"
  by (rule ext) (simp add: newest_at_def)

lemma newest_at_None: "newest_at k rs t = None \<longleftrightarrow> t \<notin> k ` set rs"
  by (simp add: newest_at_def Let_def filter_empty_conv image_iff) (metis)

lemma newest_at_Some: "newest_at k rs t = Some r \<Longrightarrow> r \<in> set rs \<and> k r = t"
proof -
  let ?f = "filter (\<lambda>r. k r = t) rs"
  assume "newest_at k rs t = Some r"
  then have "?f \<noteq> []" "List.last ?f = r" by (simp_all add: newest_at_def Let_def split: if_splits)
  then have "r \<in> set ?f" by (metis last_in_set)
  then show ?thesis by simp
qed

lemma newest_at_dom: "dom (newest_at k rs) = k ` set rs"
  by (simp only: dom_def newest_at_None) simp

lemma newest_cong:
  assumes "newest_at k rs = newest_at k rs'"
  shows "newest k rs = newest k rs'"
  using assms newest_at_dom [of k rs] newest_at_dom [of k rs'] by (simp add: newest_def)

lemma newest_times: "map k (newest k rs) = sorted_list_of_set (k ` set rs)"
proof -
  have "k (the (newest_at k rs t)) = t" if "t \<in> k ` set rs" for t
    using that newest_at_None [of k rs t] newest_at_Some [of k rs t] by (cases "newest_at k rs t") auto
  then show ?thesis by (auto simp: newest_def intro!: map_idI)
qed

lemma newest_strict: "sorted_wrt (<) (map k (newest k rs))"
  by (simp add: newest_times)

lemma newest_at_strict:
  assumes "sorted_wrt (<) (map k rs)" and "r \<in> set rs"
  shows "newest_at k rs (k r) = Some r"
proof -
  obtain x where x: "newest_at k rs (k r) = Some x" using assms(2) newest_at_None [of k rs "k r"] by auto
  then have "x = r"
    using newest_at_Some [OF x] assms by (auto simp: strict_sorted_iff distinct_map dest: inj_onD)
  then show ?thesis using x by simp
qed

lemma newest_unique:
  assumes "sorted_wrt (<) (map k out)" and "k ` set out = k ` set rs"
    and "\<And>r. r \<in> set out \<Longrightarrow> newest_at k rs (k r) = Some r"
  shows "out = newest k rs"
proof -
  have "map k out = sorted_list_of_set (k ` set rs)"
    using assms(1) sorted_list_of_set.idem_if_sorted_distinct [of "map k out"]
    unfolding assms(2) [symmetric] by (simp add: strict_sorted_iff)
  then have "newest k rs = map (\<lambda>t. the (newest_at k rs t)) (map k out)"
    by (simp only: newest_def)
  also have "\<dots> = map (\<lambda>r. the (newest_at k rs (k r))) out" by simp
  also have "\<dots> = out" using assms(3) by (auto intro!: map_idI)
  finally show ?thesis ..
qed

lemma newest_at_newest [simp]: "newest_at k (newest k rs) = newest_at k rs"
proof
  fix t
  show "newest_at k (newest k rs) t = newest_at k rs t"
  proof (cases "t \<in> k ` set rs")
    case True
    then obtain r where r: "newest_at k rs t = Some r" using newest_at_None [of k rs t] by auto
    have "r \<in> set (newest k rs)" unfolding newest_def set_map using True r by (intro image_eqI [of _ _ t]) auto
    then show ?thesis using newest_at_strict [OF newest_strict] newest_at_Some [OF r] r by metis
  next
    case False
    then show ?thesis
      using newest_at_None [of k rs t] newest_at_None [of k "newest k rs" t] newest_times [of k rs]
      by (metis List.finite_set finite_imageI list.set_map set_sorted_list_of_set)
  qed
qed

lemma newest_idem: "sorted_wrt (<) (map k rs) \<Longrightarrow> newest k rs = rs"
  by (rule newest_unique [symmetric]) (simp_all add: newest_at_strict)

lemma newest_set: "set (newest k rs) \<subseteq> set rs"
proof
  fix r
  assume "r \<in> set (newest k rs)"
  then have "newest_at k rs (k r) = Some r"
    using newest_at_strict [OF newest_strict, of r k rs] by simp
  then show "r \<in> set rs" using newest_at_Some by metis
qed

text \<open>Merging already merged pieces changes nothing.\<close>

lemma newest_at_concat: "newest_at k (concat (map (newest k) rss)) = newest_at k (concat rss)"
  by (induction rss) (simp_all add: newest_at_append)

lemma newest_concat: "newest k (concat (map (newest k) rss)) = newest k (concat rss)"
  by (rule newest_cong) (rule newest_at_concat)

section \<open>Sorting a batch\<close>

lemma windows2_sorted_wrt: "transp P \<Longrightarrow> windows2_all P xs \<longleftrightarrow> sorted_wrt P xs"
proof (induction P xs rule: windows2_all.induct)
  case (1 P x y xs)
  then show ?case by (auto dest: transpD)
qed auto

lemma windows2_le: "windows2_all (\<lambda>x y. (x :: i64) \<le> y) xs \<longleftrightarrow> sorted xs"
  by (simp add: windows2_sorted_wrt transp_def)

lemma windows2_less: "windows2_all (\<lambda>x y. (x :: i64) < y) xs \<longleftrightarrow> sorted_wrt (<) xs"
  by (simp add: windows2_sorted_wrt transp_def)

lemma sorted_loop_wf:
  assumes "\<And>r. r < n \<Longrightarrow> time_value_at c r = Inr (ts ! r)" and "length ts = n"
  shows "0 < i \<Longrightarrow> i \<le> n \<Longrightarrow> sorted_loop c [i..<n] = Inr (windows2_all (\<le>) (drop (i - 1) ts))"
proof (induction "n - i" arbitrary: i)
  case 0
  then have "i = n" by simp
  with 0 assms(2) have "drop (i - 1) ts = [ts ! (n - 1)]" using Cons_nth_drop_Suc [of "n - 1" ts] by simp
  then show ?case using \<open>i = n\<close> by simp
next
  case (Suc m)
  then have i: "i < n" by simp
  have d: "drop (i - 1) ts = ts ! (i - 1) # ts ! i # drop (Suc i) ts"
    using i Suc.prems assms(2) Cons_nth_drop_Suc [of "i - 1" ts] Cons_nth_drop_Suc [of i ts] by simp
  have "sorted_loop c [Suc i..<n] = Inr (windows2_all (\<le>) (drop i ts))"
    using Suc.hyps(1) [of "Suc i"] Suc.hyps(2) i by simp
  moreover have "drop i ts = ts ! i # drop (Suc i) ts" using i assms(2) Cons_nth_drop_Suc [of i ts] by simp
  ultimately show ?case
    using i Suc.prems assms(1) [of "i - 1"] assms(1) [of i] unfolding d
    by (simp add: upt_conv_Cons not_less)
qed

lemma is_sorted_wf:
  assumes "schema_wf s" and "batch_wf s b"
  shows "is_sorted_by_time b = Inr (sorted (map (row_time s) (rows b)))"
proof (cases "num_rows b \<le> 1")
  case True
  then have "length (map (row_time s) (rows b)) \<le> 1" by simp
  then have "sorted (map (row_time s) (rows b))" by (cases "map (row_time s) (rows b)" rule: list.exhaust) auto
  then show ?thesis using True by (simp add: is_sorted_by_time_def)
next
  case False
  let ?ts = "map (row_time s) (rows b)"
  have "sorted_loop (rb_columns b ! time_idx s) [1..<num_rows b] = Inr (windows2_all (\<le>) ?ts)"
    using sorted_loop_wf [of "num_rows b" "rb_columns b ! time_idx s" ?ts 1] time_value_wf [OF assms] False by simp
  then show ?thesis
    using False schema_wf_idx(1) [OF assms(1)] batch_wf_schema [OF assms(2)] time_col(1) [OF assms]
    by (simp add: is_sorted_by_time_def windows2_le Let_def)
qed

section \<open>Kernels on lists\<close>

definition list_kernels :: kernels where
  "list_kernels = \<lparr>
     k_take = (\<lambda>c is. Some (c\<lparr>a_cells := pick (a_cells c) is\<rparr>)),
     k_sort = (\<lambda>c. Some (sort_key (\<lambda>i. raw_i64 (a_cells c ! i)) [0..<length (a_cells c)])),
     k_interleave = (\<lambda>cs is. case cs of [] \<Rightarrow> None
        | c # _ \<Rightarrow> Some \<lparr>a_type = a_type c, a_cells = map (\<lambda>(j, r). a_cells (cs ! j) ! r) is\<rparr>),
     k_try_new = (\<lambda>s cs. Some \<lparr>rb_schema = s, rb_columns = cs\<rparr>),
     k_concat = (\<lambda>s bs. Some \<lparr>rb_schema = s, rb_columns =
        map (\<lambda>j. \<lparr>a_type = fd_type (s ! j), a_cells = concat (map (\<lambda>b. a_cells (rb_columns b ! j)) bs)\<rparr>)
          [0..<length s]\<rparr>),
     k_filter = (\<lambda>b m. Some (b\<lparr>rb_columns := map (\<lambda>c. c\<lparr>a_cells := select m (a_cells c)\<rparr>) (rb_columns b)\<rparr>)),
     k_slice = (\<lambda>b off len. b\<lparr>rb_columns :=
        map (\<lambda>c. c\<lparr>a_cells := take len (drop off (a_cells c))\<rparr>) (rb_columns b)\<rparr>)\<rparr>"

lemma list_kernels_ok: "kernels_ok list_kernels"
  unfolding kernels_ok_def list_kernels_def by (auto split: list.splits)

definition demo_schema :: schema where
  "demo_schema = [\<lparr>fd_name = ''time'', fd_type = DInt64, fd_nullable = False\<rparr>,
     \<lparr>fd_name = ''v'', fd_type = DInt64, fd_nullable = True\<rparr>]"

definition demo_batch :: "(i64 \<times> i64) list \<Rightarrow> record_batch" where
  "demo_batch ps = \<lparr>rb_schema = demo_schema, rb_columns =
     [\<lparr>a_type = DInt64, a_cells = map (SInt \<circ> fst) ps\<rparr>, \<lparr>a_type = DInt64, a_cells = map (SInt \<circ> snd) ps\<rparr>]\<rparr>"

lemma demo_schema_wf: "schema_wf demo_schema" "time_idx demo_schema = 0"
  by (simp_all add: schema_wf_def demo_schema_def TIMESTAMP_COLUMN_def time_idx_def)

lemma demo_batch_wf [simp]: "batch_wf demo_schema (demo_batch ps)"
  by (auto simp: batch_wf_def demo_batch_def demo_schema_def column_ok_def num_rows_def)

lemma demo_batch_rows: "num_rows (demo_batch ps) = length ps" "rows (demo_batch ps) = map (\<lambda>(t, v). [SInt t, SInt v]) ps"
  "row_time demo_schema [SInt t, x] = t"
  by (auto simp: num_rows_def demo_batch_def rows_def row_time_def demo_schema_wf case_prod_unfold intro!: nth_equalityI)

section \<open>Properties\<close>

text \<open>
  C30. Sorting a write batch keeps its rows. For every batch that fits its schema,
  \<open>ensure_sorted_by_time\<close> succeeds, the result fits the schema, contains the same rows as the input
  (each as often as before, all columns moved together) in the order of time, and a batch that is in
  order already is returned as it is.
\<close>
theorem ensure_sorted_keeps_rows:
  assumes "kernels_ok K" and "schema_wf s" and "batch_wf s b"
  shows "\<exists>b'. ensure_sorted_by_time K b = Inr b' \<and> batch_wf s b' \<and> mset (rows b') = mset (rows b) \<and>
    sorted (map (row_time s) (rows b')) \<and> (sorted (map (row_time s) (rows b)) \<longrightarrow> b' = b)"
proof (cases "sorted (map (row_time s) (rows b))")
  case True
  then show ?thesis using assms(3) is_sorted_wf [OF assms(2,3)] by (simp add: ensure_sorted_by_time_def)
next
  case False
  obtain b' where "sort_batch_by_time K b = Inr b'" "batch_wf s b'" "mset (rows b') = mset (rows b)"
    "sorted (map (row_time s) (rows b'))"
    using sort_rows [OF assms] by blast
  then show ?thesis using False is_sorted_wf [OF assms(2,3)] by (simp add: ensure_sorted_by_time_def)
qed

theorem ensure_sorted_keeps_rows_witness:
  "\<exists>b'. ensure_sorted_by_time list_kernels (demo_batch [(3, 1), (1, 2)]) = Inr b' \<and> batch_wf demo_schema b' \<and>
    mset (rows b') = {#[SInt 3, SInt 1], [SInt 1, SInt 2]#} \<and> sorted (map (row_time demo_schema) (rows b'))"
  using ensure_sorted_keeps_rows [OF list_kernels_ok demo_schema_wf(1) demo_batch_wf, of "[(3, 1), (1, 2)]"]
  by (auto simp: demo_batch_rows)

end
