(* ===== verification/Dedup.thy ===== *)
theory Dedup
  imports Batch "HOL-Library.Product_Lexorder" "HOL-Library.AList"
begin

text \<open>
  Newest-wins deduplication by timestamp (\<^verbatim>\<open>src/src/storage/src/compaction/dedup.rs\<close>): the flush
  plan with its windowed output, the merge of whole batches, the merge of LSM layers, the filter for
  layers scanned from new to old, and the preparation of memtable chunks for a scan. A \<^verbatim>\<open>HashSet\<close> of
  timestamps is a list; the iteration order of a \<^verbatim>\<open>HashMap\<close> is an argument that permutes its entries.
\<close>

section \<open>Deduplication of batches\<close>

definition FLUSH_WINDOW_ROWS :: nat where
  "FLUSH_WINDOW_ROWS = 8192"

definition non_empty_batches :: "record_batch list \<Rightarrow> record_batch list" where
  "non_empty_batches bs = filter (\<lambda>b. num_rows b > 0) bs"

fun has_duplicate :: "i64 list \<Rightarrow> i64 list \<Rightarrow> bool" where
  "has_duplicate seen [] = False"
| "has_duplicate seen (v # vs) = (if v \<in> set seen then True else has_duplicate (v # seen) vs)"

definition batch_has_duplicate_timestamps :: "record_batch \<Rightarrow> bool res" where
  "batch_has_duplicate_timestamps b =
     and_then (time_column_index (rb_schema b)) (\<lambda>ts_idx.
     and_then (time_values_slice (rb_columns b ! ts_idx)) (\<lambda>values.
       if length values < 2 then Inr False
       else if windows2_all (<) values then Inr False
       else Inr (has_duplicate [] values)))"

definition take_batch_by_indices :: "kernels \<Rightarrow> record_batch \<Rightarrow> u32 list \<Rightarrow> record_batch res" where
  "take_batch_by_indices K b indices =
     and_then (take_columns K ''dedupe take'' (map unat indices) (rb_columns b))
       (new_batch K ''arrow'' (rb_schema b))"

text \<open>The rows kept after sorting by time and position: the last of every run of equal times.\<close>

definition keep_rows :: "i64 list \<Rightarrow> u32 list" where
  "keep_rows values =
     (let n = length values;
          order = sort_key (\<lambda>i. (values ! i, i)) [0..<n]
      in map (\<lambda>idx. of_nat (order ! idx))
           (filter (\<lambda>idx. idx + 1 = n \<or> values ! (order ! idx) \<noteq> values ! (order ! (idx + 1))) [0..<n]))"

definition dedupe_sorted_batch :: "kernels \<Rightarrow> record_batch \<Rightarrow> record_batch list res" where
  "dedupe_sorted_batch K merged =
     (if num_rows merged = 0 then Inr []
      else if num_rows merged = 1 then Inr [merged]
      else
        and_then (time_column_index (rb_schema merged)) (\<lambda>ts_idx.
        and_then (time_values_slice (rb_columns merged ! ts_idx)) (\<lambda>values.
        and_then (take_batch_by_indices K merged (keep_rows values)) (\<lambda>filtered.
          if num_rows filtered = 0 then Inr [] else Inr [filtered]))))"

definition dedupe_batches_newest_wins :: "kernels \<Rightarrow> record_batch list \<Rightarrow> schema \<Rightarrow> record_batch list res" where
  "dedupe_batches_newest_wins K batches s =
     (if batches = [] then Inr []
      else
        let non_empty = non_empty_batches batches in
        if non_empty = [] then Inr []
        else
          and_then (if length non_empty = 1 then map_sum id Not (batch_has_duplicate_timestamps (hd non_empty))
                    else Inr False) (\<lambda>single.
          if single then and_then (sort_batch_by_time K (hd non_empty)) (\<lambda>b. Inr [b])
          else (case k_concat K s non_empty of
                  None \<Rightarrow> Inl (Storage ''concat for dedupe'')
                | Some merged \<Rightarrow> dedupe_sorted_batch K merged)))"

definition prepare_flush_batch :: "kernels \<Rightarrow> record_batch list \<Rightarrow> schema \<Rightarrow> record_batch res" where
  "prepare_flush_batch K batches s =
     and_then (dedupe_batches_newest_wins K batches s) (\<lambda>out.
       case out of [] \<Rightarrow> Inl (Storage ''nothing to flush after dedupe'') | b # _ \<Rightarrow> Inr b)"

section \<open>The flush plan\<close>

record sorted_flush =
  sl_chunks :: "record_batch list"
  sl_coords :: "(u32 \<times> u32) list"
  sl_schema :: schema

datatype flush_plan = Streaming "record_batch list" | Sorted sorted_flush

fun ordered_loop :: "record_batch list \<Rightarrow> i64 option \<Rightarrow> bool res" where
  "ordered_loop [] prev_last = Inr True"
| "ordered_loop (b # bs) prev_last =
     (if num_rows b = 0 then ordered_loop bs prev_last
      else
        and_then (time_column_index (rb_schema b)) (\<lambda>ts_idx.
        and_then (time_values_slice (rb_columns b ! ts_idx)) (\<lambda>values.
          if \<not> windows2_all (<) values then Inr False
          else if (case prev_last of None \<Rightarrow> False | Some prev \<Rightarrow> values ! 0 \<le> prev) then Inr False
          else ordered_loop bs (Some (values ! (length values - 1))))))"

definition chunks_strictly_ordered :: "record_batch list \<Rightarrow> bool res" where
  "chunks_strictly_ordered chunks = ordered_loop chunks None"

fun build_entries :: "nat \<Rightarrow> record_batch list \<Rightarrow> (i64 \<times> u32 \<times> u32) list res" where
  "build_entries chunk_idx [] = Inr []"
| "build_entries chunk_idx (b # bs) =
     and_then (time_column_index (rb_schema b)) (\<lambda>ts_idx.
     and_then (time_values_slice (rb_columns b ! ts_idx)) (\<lambda>values.
     and_then (build_entries (Suc chunk_idx) bs) (\<lambda>rest.
       Inr (map (\<lambda>(row, ts). (ts, of_nat chunk_idx, of_nat row)) (List.enumerate 0 values) @ rest))))"

fun skip_run :: "i64 \<times> 'p \<Rightarrow> (i64 \<times> 'p) list \<Rightarrow> (i64 \<times> 'p) \<times> (i64 \<times> 'p) list" where
  "skip_run e [] = (e, [])"
| "skip_run e (e' # es) = (if fst e' = fst e then skip_run e' es else (e, e' # es))"

lemma skip_run_length: "length (snd (skip_run e es)) \<le> length es"
  by (induction e es rule: skip_run.induct) auto

function run_coords :: "(i64 \<times> 'p) list \<Rightarrow> 'p list" where
  "run_coords [] = []"
| "run_coords (e # es) = (let (l, rest) = skip_run e es in snd l # run_coords rest)"
  by pat_completeness auto
termination
  by (relation "measure length") (auto simp: le_imp_less_Suc skip_run_length dest: arg_cong [of _ _ "\<lambda>x. length (snd x)"])

definition sorted_flush_build :: "record_batch list \<Rightarrow> schema \<Rightarrow> sorted_flush res" where
  "sorted_flush_build chunks s =
     and_then (build_entries 0 chunks) (\<lambda>entries.
       if entries = [] then Inl (Storage ''nothing to flush after dedupe'')
       else Inr \<lparr>sl_chunks = chunks, sl_coords = run_coords (sort entries), sl_schema = s\<rparr>)"

definition plan_flush :: "record_batch list \<Rightarrow> schema \<Rightarrow> flush_plan res" where
  "plan_flush chunks s =
     (let non_empty = non_empty_batches chunks in
      if non_empty = [] then Inl (Storage ''nothing to flush'')
      else
        and_then (chunks_strictly_ordered non_empty) (\<lambda>ordered.
          if ordered then Inr (Streaming non_empty)
          else map_sum id Sorted (sorted_flush_build non_empty s)))"

text \<open>\<open>mem\<close> is \<^verbatim>\<open>RecordBatch::get_array_memory_size\<close>; a coordinate takes eight bytes.\<close>

definition transient_estimate :: "(record_batch \<Rightarrow> nat) \<Rightarrow> nat \<Rightarrow> sorted_flush \<Rightarrow> nat" where
  "transient_estimate mem window sf =
     (let coords_bytes = length (sl_coords sf) * 8;
          total_rows = sum_list (map num_rows (sl_chunks sf));
          total_bytes = sum_list (map mem (sl_chunks sf));
          window_bytes = (if total_rows = 0 then 0
            else min (2 ^ 64 - 1) (total_bytes * min window (length (sl_coords sf))) div total_rows)
      in coords_bytes + window_bytes)"

record sorted_flush_batches =
  sb_chunks :: "record_batch list"
  sb_coords :: "(u32 \<times> u32) list"
  sb_schema :: schema
  sb_window :: nat
  sb_cursor :: nat

definition window_batches :: "nat \<Rightarrow> sorted_flush \<Rightarrow> sorted_flush_batches" where
  "window_batches window sf = \<lparr>sb_chunks = sl_chunks sf, sb_coords = sl_coords sf, sb_schema = sl_schema sf,
     sb_window = max window 1, sb_cursor = 0\<rparr>"

definition sb_next :: "kernels \<Rightarrow> sorted_flush_batches \<Rightarrow> record_batch res option \<times> sorted_flush_batches" where
  "sb_next K it =
     (if sb_cursor it \<ge> length (sb_coords it) then (None, it)
      else
        let end = min (sb_cursor it + sb_window it) (length (sb_coords it));
            indices = map (\<lambda>(c, r). (unat c, unat r))
              (take (end - sb_cursor it) (drop (sb_cursor it) (sb_coords it)))
        in (Some (and_then (interleave_columns K ''interleave flush'' (sb_chunks it) indices [0..<length (sb_schema it)])
                    (new_batch K ''arrow'' (sb_schema it))),
            it\<lparr>sb_cursor := end\<rparr>))"

text \<open>The consumer of the iterator, up to its end or the first error.\<close>

partial_function (option) sb_collect :: "kernels \<Rightarrow> sorted_flush_batches \<Rightarrow> record_batch list res option" where
  "sb_collect K it =
     (case sb_next K it of
        (None, it') \<Rightarrow> Some (Inr [])
      | (Some r, it') \<Rightarrow>
          if isl r then Some (Inl (projl r))
          else Option.bind (sb_collect K it') (\<lambda>rest. Some (and_then rest (\<lambda>bs. Inr (projr r # bs)))))"

section \<open>Scans and layers\<close>

fun time_ordered_loop :: "record_batch list \<Rightarrow> i64 option \<Rightarrow> bool res" where
  "time_ordered_loop [] last_ts = Inr True"
| "time_ordered_loop (b # bs) last_ts =
     (if num_rows b = 0 then time_ordered_loop bs last_ts
      else
        and_then (batch_has_duplicate_timestamps b) (\<lambda>dup.
        if dup then Inr False
        else
          and_then (time_column_index (rb_schema b)) (\<lambda>ts_idx.
          and_then (time_value_at (rb_columns b ! ts_idx) 0) (\<lambda>first.
          and_then (time_value_at (rb_columns b ! ts_idx) (num_rows b - 1)) (\<lambda>chunk_last.
            if first > chunk_last then Inr False
            else if (case last_ts of None \<Rightarrow> False | Some prev \<Rightarrow> first \<le> prev) then Inr False
            else time_ordered_loop bs (Some chunk_last))))))"

definition batches_are_time_ordered :: "record_batch list \<Rightarrow> bool res" where
  "batches_are_time_ordered batches = time_ordered_loop batches None"

fun sort_all :: "kernels \<Rightarrow> record_batch list \<Rightarrow> record_batch list res" where
  "sort_all K [] = Inr []"
| "sort_all K (b # bs) =
     and_then (sort_batch_by_time K b) (\<lambda>b'. and_then (sort_all K bs) (\<lambda>bs'. Inr (b' # bs')))"

definition prepare_scan_batches :: "kernels \<Rightarrow> record_batch list \<Rightarrow> schema \<Rightarrow> record_batch list res" where
  "prepare_scan_batches K batches s =
     (let non_empty = non_empty_batches batches in
      if non_empty = [] then Inr []
      else if length non_empty = 1
      then and_then (batch_has_duplicate_timestamps (hd non_empty)) (\<lambda>dup.
             if dup then dedupe_batches_newest_wins K non_empty s
             else and_then (sort_batch_by_time K (hd non_empty)) (\<lambda>b. Inr [b]))
      else and_then (batches_are_time_ordered non_empty) (\<lambda>ordered.
             if ordered then sort_all K non_empty else dedupe_batches_newest_wins K non_empty s))"

fun filter_loop :: "arrow_array \<Rightarrow> nat list \<Rightarrow> i64 list \<Rightarrow> (bool list \<times> i64 list) res" where
  "filter_loop c [] seen = Inr ([], seen)"
| "filter_loop c (row # rest) seen =
     and_then (time_value_at c row) (\<lambda>t.
     and_then (filter_loop c rest (if t \<in> set seen then seen else t # seen)) (\<lambda>(keep, seen').
       Inr ((t \<notin> set seen) # keep, seen')))"

definition filter_batch_skip_seen_timestamps ::
  "kernels \<Rightarrow> record_batch \<Rightarrow> i64 list \<Rightarrow> (record_batch option \<times> i64 list) res" where
  "filter_batch_skip_seen_timestamps K b seen_ts =
     (if num_rows b = 0 then Inr (None, seen_ts)
      else
        and_then (time_column_index (rb_schema b)) (\<lambda>ts_idx.
        and_then (filter_loop (rb_columns b ! ts_idx) [0..<num_rows b] seen_ts) (\<lambda>(keep, seen').
          if \<not> list_ex (\<lambda>k. k) keep then Inr (None, seen')
          else (case k_filter K b keep of
                  None \<Rightarrow> Inl (Storage ''layer filter'')
                | Some b' \<Rightarrow> Inr (Some b', seen')))))"

definition needs_layer_dedupe :: "record_batch list list \<Rightarrow> bool res" where
  "needs_layer_dedupe layers =
     (let counts = map (\<lambda>layer. length (non_empty_batches layer)) layers;
          active_layers = length (filter (\<lambda>n. n > 0) counts);
          total_batches = sum_list counts
      in if active_layers > 1 \<or> total_batches > 1 then Inr True
         else (case find (list_ex (\<lambda>b. num_rows b > 0)) layers of
                 Some layer \<Rightarrow> (case find (\<lambda>b. num_rows b > 0) layer of
                                  Some b \<Rightarrow> batch_has_duplicate_timestamps b
                                | None \<Rightarrow> Inr False)
               | None \<Rightarrow> Inr False))"

type_synonym coord = "nat \<times> nat \<times> nat"

fun scan_rows :: "arrow_array \<Rightarrow> nat \<Rightarrow> nat \<Rightarrow> nat list \<Rightarrow> i64 list \<times> coord list \<Rightarrow> (i64 list \<times> coord list) res" where
  "scan_rows c layer batch [] st = Inr st"
| "scan_rows c layer batch (row # rest) st =
     and_then (time_value_at c row) (\<lambda>t.
       scan_rows c layer batch rest
         (if t \<in> set (fst st) then st else (t # fst st, snd st @ [(layer, batch, row)])))"

fun scan_batches :: "record_batch list \<Rightarrow> nat \<Rightarrow> nat list \<Rightarrow> i64 list \<times> coord list \<Rightarrow> (i64 list \<times> coord list) res" where
  "scan_batches layer_batches layer [] st = Inr st"
| "scan_batches layer_batches layer (i # is) st =
     (let b = layer_batches ! i in
      if num_rows b = 0 then scan_batches layer_batches layer is st
      else
        and_then (time_column_index (rb_schema b)) (\<lambda>ts_idx.
        and_then (scan_rows (rb_columns b ! ts_idx) layer i (rev [0..<num_rows b]) st) (\<lambda>st'.
          scan_batches layer_batches layer is st')))"

fun scan_layers :: "record_batch list list \<Rightarrow> nat list \<Rightarrow> i64 list \<times> coord list \<Rightarrow> (i64 list \<times> coord list) res" where
  "scan_layers layers [] st = Inr st"
| "scan_layers layers (i # is) st =
     and_then (scan_batches (layers ! i) i (rev [0..<length (layers ! i)]) st) (\<lambda>st'.
       scan_layers layers is st')"

type_synonym groups = "((nat \<times> nat) \<times> u32 list) list"

definition group_rows :: "coord list \<Rightarrow> groups" where
  "group_rows kept = foldl (\<lambda>g (l, b, r).
     AList.update (l, b) ((case map_of g (l, b) of None \<Rightarrow> [] | Some rs \<Rightarrow> rs) @ [of_nat r]) g) [] kept"

fun make_pieces :: "kernels \<Rightarrow> record_batch list list \<Rightarrow> schema \<Rightarrow> groups \<Rightarrow> record_batch list res" where
  "make_pieces K layers s [] = Inr []"
| "make_pieces K layers s (((l, b), indices) # gs) =
     and_then (and_then (take_columns K ''arrow'' (map unat indices) (rb_columns (layers ! l ! b)))
                 (new_batch K ''arrow'' s)) (\<lambda>piece.
     and_then (make_pieces K layers s gs) (\<lambda>pieces. Inr (piece # pieces)))"

definition materialize_kept_rows ::
  "kernels \<Rightarrow> (groups \<Rightarrow> groups) \<Rightarrow> record_batch list list \<Rightarrow> coord list \<Rightarrow> schema \<Rightarrow> record_batch list res" where
  "materialize_kept_rows K hash_order layers kept s =
     and_then (make_pieces K layers s (hash_order (group_rows kept))) (\<lambda>pieces.
       case pieces of
         [] \<Rightarrow> Inr []
       | [p] \<Rightarrow> and_then (sort_batch_by_time K p) (\<lambda>b. Inr [b])
       | _ \<Rightarrow> (case k_concat K s pieces of
                 None \<Rightarrow> Inl (Storage ''concat deduped pieces'')
               | Some merged \<Rightarrow> and_then (sort_batch_by_time K merged) (\<lambda>b. Inr [b])))"

definition merge_sst_layers ::
  "kernels \<Rightarrow> (groups \<Rightarrow> groups) \<Rightarrow> record_batch list list \<Rightarrow> schema \<Rightarrow> record_batch list res" where
  "merge_sst_layers K hash_order layers s =
     (let non_empty_layers = filter (list_ex (\<lambda>b. num_rows b > 0)) layers in
      if non_empty_layers = [] then Inr []
      else if length non_empty_layers = 1 then dedupe_batches_newest_wins K (hd non_empty_layers) s
      else
        and_then (scan_layers layers (rev [0..<length layers]) ([], [])) (\<lambda>(seen, kept).
          if kept = [] then Inr [] else materialize_kept_rows K hash_order layers kept s))"

end
