(* ===== verification/Dedup_Newest.thy ===== *)
theory Dedup_Newest
  imports Dedup
begin

text \<open>
  Correctness of the deduplication: every routine of \<^verbatim>\<open>dedup.rs\<close> computes the newest-wins result
  \<open>newest\<close> of the rows it is given.
\<close>

section \<open>The last entries of runs\<close>

fun run_lasts :: "(i64 \<times> 'p) list \<Rightarrow> (i64 \<times> 'p) list" where
  "run_lasts [] = []"
| "run_lasts [e] = [e]"
| "run_lasts (e # e' # es) = (if fst e' = fst e then run_lasts (e' # es) else e # run_lasts (e' # es))"

lemma skip_run_lasts: "skip_run e es = (l, rest) \<Longrightarrow> run_lasts (e # es) = l # run_lasts rest"
  by (induction e es rule: skip_run.induct) (auto split: if_splits)

lemma run_coords_lasts: "run_coords es = map snd (run_lasts es)"
proof (induction es rule: run_coords.induct)
  case (2 e es)
  obtain l rest where "skip_run e es = (l, rest)" by fastforce
  then show ?case using 2 skip_run_lasts [of e es l rest] by simp
qed simp

lemma filter_lasts:
  "map ((!) es) (filter (\<lambda>i. i + 1 = length es \<or> fst (es ! i) \<noteq> fst (es ! (i + 1))) [0..<length es]) = run_lasts es"
proof (induction es rule: run_lasts.induct)
  case (3 e e' es)
  have "[0..<length (e # e' # es)] = 0 # map Suc [0..<length (e' # es)]"
    by (simp only: map_Suc_upt length_Cons) (simp add: upt_conv_Cons del: upt_Suc)
  then show ?case using 3 by (simp add: filter_map comp_def cong: filter_cong del: upt_Suc)
qed auto

lemma run_lasts_spec:
  fixes es :: "(i64 \<times> 'p :: linorder) list"
  assumes "sorted es"
  shows "sorted_wrt (<) (map fst (run_lasts es)) \<and> set (run_lasts es) \<subseteq> set es \<and>
    fst ` set (run_lasts es) = fst ` set es \<and>
    (\<forall>e \<in> set (run_lasts es). \<forall>e' \<in> set es. fst e' = fst e \<longrightarrow> snd e' \<le> snd e)"
  using assms
proof (induction es rule: run_lasts.induct)
  case (3 e e' es)
  show ?case
  proof (cases "fst e' = fst e")
    case True
    then have IH: "sorted_wrt (<) (map fst (run_lasts (e' # es)))" "set (run_lasts (e' # es)) \<subseteq> set (e' # es)"
      "fst ` set (run_lasts (e' # es)) = fst ` set (e' # es)"
      "\<forall>x \<in> set (run_lasts (e' # es)). \<forall>y \<in> set (e' # es). fst y = fst x \<longrightarrow> snd y \<le> snd x"
      using 3 by simp_all
    have "snd e \<le> snd x" if "x \<in> set (run_lasts (e' # es))" "fst e = fst x" for x
    proof -
      have "e \<le> x" using 3(3) IH(2) that(1) by auto
      then show ?thesis using that(2) by (auto simp: less_eq_prod_def)
    qed
    then show ?thesis using True IH by auto
  next
    case False
    then have IH: "sorted_wrt (<) (map fst (run_lasts (e' # es)))" "set (run_lasts (e' # es)) \<subseteq> set (e' # es)"
      "fst ` set (run_lasts (e' # es)) = fst ` set (e' # es)"
      "\<forall>x \<in> set (run_lasts (e' # es)). \<forall>y \<in> set (e' # es). fst y = fst x \<longrightarrow> snd y \<le> snd x"
      using 3 by simp_all
    have "e \<le> e'" using 3(3) by simp
    then have lt: "fst e < fst e'" using False by (auto simp: less_eq_prod_def)
    have "fst e' \<le> fst x" if "x \<in> set (e' # es)" for x
      using that 3(3) by (auto simp: less_eq_prod_def)
    then have all: "fst e < fst x" if "x \<in> set (e' # es)" for x using that lt by fastforce
    have "\<forall>x \<in> set (run_lasts (e' # es)). fst e < fst x" using all IH(2) by blast
    moreover have "\<forall>x \<in> set (e' # es). fst x \<noteq> fst e" using all by fastforce
    moreover have "\<forall>x \<in> set (e' # es). fst e < fst x" using all by blast
    ultimately show ?thesis using False IH by auto
  qed
qed auto

section \<open>Positions of the newest rows\<close>

lemma newest_at_index:
  assumes "i < length rs" and "\<And>j. j < length rs \<Longrightarrow> k (rs ! j) = k (rs ! i) \<Longrightarrow> j \<le> i"
  shows "newest_at k rs (k (rs ! i)) = Some (rs ! i)"
proof -
  have "k r \<noteq> k (rs ! i)" if "r \<in> set (drop (Suc i) rs)" for r
  proof -
    obtain j where "r = rs ! (Suc i + j)" "Suc i + j < length rs"
      using \<open>r \<in> set (drop (Suc i) rs)\<close> by (auto simp: in_set_conv_nth)
    then show ?thesis using assms(2) [of "Suc i + j"] by auto
  qed
  then have "newest_at k (drop (Suc i) rs) (k (rs ! i)) = None"
    unfolding newest_at_None by force
  moreover have "newest_at k [rs ! i] (k (rs ! i)) = Some (rs ! i)" by (simp add: newest_at_def)
  ultimately show ?thesis
    using id_take_nth_drop [OF assms(1)] newest_at_append [of k "take i rs @ [rs ! i]" "drop (Suc i) rs"]
      newest_at_append [of k "take i rs" "[rs ! i]"]
    by (simp add: map_add_def)
qed

lemma newest_at_coord:
  assumes "c < length rss" and "r < length (rss ! c)"
    and "\<And>c' r'. c' < length rss \<Longrightarrow> r' < length (rss ! c') \<Longrightarrow> k (rss ! c' ! r') = k (rss ! c ! r) \<Longrightarrow> (c', r') \<le> (c, r)"
  shows "newest_at k (concat rss) (k (rss ! c ! r)) = Some (rss ! c ! r)"
proof -
  let ?t = "k (rss ! c ! r)"
  have "concat rss = concat (take c rss @ rss ! c # drop (Suc c) rss)" using id_take_nth_drop [OF assms(1)] by simp
  then have split: "concat rss = concat (take c rss) @ rss ! c @ concat (drop (Suc c) rss)" by simp
  have "k x \<noteq> ?t" if x: "x \<in> set (concat (drop (Suc c) rss))" for x
  proof
    assume kx: "k x = ?t"
    obtain xs where xs: "xs \<in> set (drop (Suc c) rss)" "x \<in> set xs" using x by auto
    obtain j where "j < length (drop (Suc c) rss)" "xs = drop (Suc c) rss ! j" using xs(1) by (metis in_set_conv_nth)
    then have j: "Suc c + j < length rss" "xs = rss ! (Suc c + j)" using assms(1) by simp_all
    obtain r' where r': "r' < length xs" "x = xs ! r'" using xs(2) by (auto simp: in_set_conv_nth)
    have "(Suc c + j, r') \<le> (c, r)" using assms(3) [OF j(1), of r'] r' kx j(2) by simp
    then show False by simp
  qed
  then have "newest_at k (concat (drop (Suc c) rss)) ?t = None" unfolding newest_at_None by force
  moreover have "newest_at k (rss ! c) ?t = Some (rss ! c ! r)"
    using assms(1,3) by (intro newest_at_index assms(2)) force
  ultimately show ?thesis by (simp add: split newest_at_append map_add_def)
qed

lemma set_pos:
  fixes es :: "(i64 \<times> 'p :: linorder) list"
  assumes "sorted es" and "\<And>e. e \<in> set es \<Longrightarrow> k (row (snd e)) = fst e"
    and "k ` set rs = fst ` set es"
    and "\<And>e. e \<in> set es \<Longrightarrow> \<forall>e' \<in> set es. fst e' = fst e \<longrightarrow> snd e' \<le> snd e \<Longrightarrow> newest_at k rs (fst e) = Some (row (snd e))"
  shows "map (row \<circ> snd) (run_lasts es) = newest k rs"
proof (rule newest_unique)
  note spec = run_lasts_spec [OF assms(1)]
  have keys: "map k (map (row \<circ> snd) (run_lasts es)) = map fst (run_lasts es)"
    using spec assms(2) by auto
  show "sorted_wrt (<) (map k (map (row \<circ> snd) (run_lasts es)))" unfolding keys using spec by blast
  show "k ` set (map (row \<circ> snd) (run_lasts es)) = k ` set rs"
    using arg_cong [OF keys, of set] spec assms(3) by (simp add: image_image)
  show "newest_at k rs (k r) = Some r" if "r \<in> set (map (row \<circ> snd) (run_lasts es))" for r
  proof -
    obtain e where e: "e \<in> set (run_lasts es)" "r = row (snd e)" using \<open>r \<in> _\<close> by auto
    then have "e \<in> set es" using spec by blast
    then show ?thesis using assms(2,4) [of e] spec e by auto
  qed
qed

lemma keep_rows_lasts:
  fixes vs :: "i64 list"
  defines "es \<equiv> sort (map (\<lambda>i. (vs ! i, i)) [0..<length vs])"
  shows "keep_rows vs = map (of_nat \<circ> snd) (run_lasts es)"
proof -
  let ?n = "length vs" and ?f = "\<lambda>i. (vs ! i, i)"
  let ?order = "sort_key ?f [0..<?n]"
  have es: "es = map ?f ?order"
    unfolding es_def
  proof (rule properties_for_sort)
    show "sorted (map ?f ?order)" by (rule sorted_sort_key)
    show "mset (map ?f ?order) = mset (map ?f [0..<?n])" unfolding mset_map mset_sort ..
  qed
  have len: "length es = ?n" "length ?order = ?n" by (simp_all add: es)
  have nth: "es ! i = (vs ! (?order ! i), ?order ! i)" if "i < ?n" for i using that by (simp add: es)
  have flt: "filter (\<lambda>i. i + 1 = ?n \<or> vs ! (?order ! i) \<noteq> vs ! (?order ! (i + 1))) [0..<?n] =
      filter (\<lambda>i. i + 1 = length es \<or> fst (es ! i) \<noteq> fst (es ! (i + 1))) [0..<length es]"
    unfolding len(1) by (rule filter_cong [OF refl]) (use nth in fastforce)
  have "keep_rows vs = map (\<lambda>i. of_nat (snd (es ! i)))
      (filter (\<lambda>i. i + 1 = length es \<or> fst (es ! i) \<noteq> fst (es ! (i + 1))) [0..<length es])"
    unfolding keep_rows_def Let_def flt by (rule map_cong [OF refl]) (auto simp: nth len)
  then show ?thesis
    unfolding filter_lasts [symmetric] by (simp only: map_map comp_def)
qed

lemma keep_rows_newest:
  assumes "length rs < 2 ^ 32"
  shows "pick rs (map unat (keep_rows (map k rs))) = newest k rs" "\<forall>i \<in> set (keep_rows (map k rs)). unat i < length rs"
proof -
  let ?vs = "map k rs"
  let ?es = "sort (map (\<lambda>i. (?vs ! i, i)) [0..<length ?vs])"
  have set: "set ?es = (\<lambda>i. (k (rs ! i), i)) ` {..<length rs}" by auto
  have srt: "sorted ?es" by simp
  note spec = run_lasts_spec [OF srt]
  have un: "unat (of_nat i :: u32) = i" if "i < length rs" for i
    using that assms by (simp add: unat_of_nat)
  have in_rng: "snd e < length rs" if "e \<in> set (run_lasts ?es)" for e using spec that set by fastforce
  have "map unat (keep_rows ?vs) = map snd (run_lasts ?es)"
    using in_rng un by (simp add: keep_rows_lasts)
  then have p: "pick rs (map unat (keep_rows ?vs)) = map ((!) rs \<circ> snd) (run_lasts ?es)" by (simp add: pick_def)
  show "pick rs (map unat (keep_rows ?vs)) = newest k rs"
    unfolding p
  proof (rule set_pos [OF srt])
    show "k (rs ! snd e) = fst e" if "e \<in> set ?es" for e using that unfolding set by auto
    have "set rs = (!) rs ` {..<length rs}" by (auto simp: set_conv_nth)
    then show "k ` set rs = fst ` set ?es" unfolding set by (simp add: image_image)
    show "newest_at k rs (fst e) = Some (rs ! snd e)"
      if "e \<in> set ?es" "\<forall>e' \<in> set ?es. fst e' = fst e \<longrightarrow> snd e' \<le> snd e" for e
      using that newest_at_index [of "snd e" rs k] unfolding set by auto
  qed
  show "\<forall>i \<in> set (keep_rows ?vs). unat i < length rs" using in_rng un by (auto simp: keep_rows_lasts)
qed

section \<open>Deduplication of batches\<close>

lemma non_empty_rows: "all_rows (non_empty_batches bs) = all_rows bs"
  by (induction bs) (auto simp: non_empty_batches_def rows_def)

lemma non_empty_wf: "batches_wf s bs \<Longrightarrow> batches_wf s (non_empty_batches bs)"
  by (auto simp: non_empty_batches_def)

lemma non_empty_pos: "b \<in> set (non_empty_batches bs) \<Longrightarrow> 0 < num_rows b"
  by (simp add: non_empty_batches_def)

lemma has_duplicate_iff: "has_duplicate seen vs \<longleftrightarrow> \<not> distinct vs \<or> set vs \<inter> set seen \<noteq> {}"
  by (induction seen vs rule: has_duplicate.induct) auto

lemma has_duplicate_wf:
  assumes "schema_wf s" and "batch_wf s b"
  shows "batch_has_duplicate_timestamps b = Inr (\<not> distinct (map (row_time s) (rows b)))"
proof -
  let ?ts = "map (row_time s) (rows b)"
  have "distinct ?ts" if "length ?ts < 2" using that by (cases ?ts rule: list.exhaust) (auto simp: less_Suc_eq)
  moreover have "distinct ?ts" if "windows2_all (<) ?ts" using that by (simp add: windows2_less strict_sorted_iff)
  ultimately show ?thesis
    using assms
    by (simp add: batch_has_duplicate_timestamps_def batch_wf_schema schema_wf_idx time_values_wf has_duplicate_iff)
qed

lemma newest_at_distinct: "distinct (map k rs) \<Longrightarrow> r \<in> set rs \<Longrightarrow> newest_at k rs (k r) = Some r"
proof -
  assume d: "distinct (map k rs)" and r: "r \<in> set rs"
  then obtain x where x: "newest_at k rs (k r) = Some x" using newest_at_None [of k rs "k r"] by auto
  then have "x \<in> set rs" "k x = k r" using newest_at_Some by metis+
  then show "newest_at k rs (k r) = Some r" using x d r by (auto simp: distinct_map dest: inj_onD)
qed

lemma newest_perm:
  assumes "mset out = mset rs" and "distinct (map k rs)" and "sorted (map k out)"
  shows "out = newest k rs"
proof (rule newest_unique)
  have set: "set out = set rs" using assms(1) by (metis set_mset_mset)
  have "distinct (map k out)" using assms(1,2) by (metis mset_eq_imp_distinct_iff mset_map)
  then show "sorted_wrt (<) (map k out)" using assms(3) by (simp add: strict_sorted_iff)
  show "k ` set out = k ` set rs" by (simp add: set)
  show "newest_at k rs (k r) = Some r" if "r \<in> set out" for r
    using that newest_at_distinct [OF assms(2)] by (simp add: set)
qed

lemma sort_newest:
  assumes "kernels_ok K" and "schema_wf s" and "batch_wf s b" and "distinct (map (row_time s) (rows b))"
  obtains b' where "sort_batch_by_time K b = Inr b'" and "batch_wf s b'" and "rows b' = newest (row_time s) (rows b)"
  using sort_rows [OF assms(1-3)] newest_perm [OF _ assms(4)] by metis

lemma dedupe_sorted_newest:
  assumes "kernels_ok K" and "schema_wf s" and "batch_wf s b" and "num_rows b < 2 ^ 32"
  shows "\<exists>out. dedupe_sorted_batch K b = Inr out \<and> batches_wf s out \<and> all_rows out = newest (row_time s) (rows b)"
proof -
  let ?k = "row_time s"
  consider (zero) "num_rows b = 0" | (one) "num_rows b = 1" | (more) "num_rows b > 1" by linarith
  then show ?thesis
  proof cases
    case zero
    then show ?thesis by (simp add: dedupe_sorted_batch_def rows_def newest_def)
  next
    case one
    then obtain r where "rows b = [r]" by (metis One_nat_def length_0_conv length_Suc_conv length_rows)
    then have "newest ?k (rows b) = rows b" by (intro newest_idem) simp
    then show ?thesis using one assms(3) by (simp add: dedupe_sorted_batch_def)
  next
    case more
    have keep: "pick (rows b) (map unat (keep_rows (map ?k (rows b)))) = newest ?k (rows b)"
      "\<forall>i \<in> set (map unat (keep_rows (map ?k (rows b)))). i < num_rows b"
      using keep_rows_newest [of "rows b" ?k] assms(4) by simp_all
    obtain b' where b': "take_batch_by_indices K b (keep_rows (map ?k (rows b))) = Inr b'" "batch_wf s b'"
      "rows b' = newest ?k (rows b)"
      using take_rows [OF assms(1,3) keep(2)] keep(1) batch_wf_schema [OF assms(3)]
      unfolding take_batch_by_indices_def by metis
    have "dedupe_sorted_batch K b = Inr (if num_rows b' = 0 then [] else [b'])"
      using more b'(1) assms by (simp add: dedupe_sorted_batch_def batch_wf_schema schema_wf_idx time_values_wf)
    then show ?thesis using b'(2,3) by (cases "num_rows b' = 0") (auto simp: rows_def)
  qed
qed

lemma dedupe_newest:
  assumes "kernels_ok K" and "schema_wf s" and "batches_wf s bs" and "length (all_rows bs) < 2 ^ 32"
  shows "\<exists>out. dedupe_batches_newest_wins K bs s = Inr out \<and> batches_wf s out \<and>
    all_rows out = newest (row_time s) (all_rows bs)"
proof -
  let ?ne = "non_empty_batches bs" and ?k = "row_time s"
  have wf: "batches_wf s ?ne" by (rule non_empty_wf [OF assms(3)])
  show ?thesis
  proof (cases "?ne = []")
    case True
    then have "all_rows bs = []" using non_empty_rows [of bs] by simp
    then show ?thesis using True by (simp add: dedupe_batches_newest_wins_def newest_def)
  next
    case False
    then have bs: "bs \<noteq> []" by (auto simp: non_empty_batches_def)
    show ?thesis
    proof (cases "length ?ne = 1 \<and> distinct (map ?k (rows (hd ?ne)))")
      case True
      then obtain b where b: "?ne = [b]" by (metis One_nat_def length_0_conv length_Suc_conv)
      obtain b' where "sort_batch_by_time K b = Inr b'" "batch_wf s b'" "rows b' = newest ?k (rows b)"
        using sort_newest [OF assms(1,2)] wf True b by (metis list.sel(1) list.set_intros(1))
      moreover have "rows b = all_rows bs" using non_empty_rows [of bs] b by simp
      ultimately show ?thesis
        using True b bs has_duplicate_wf [OF assms(2), of b] wf by (simp add: dedupe_batches_newest_wins_def)
    next
      case multi: False
      obtain m where m: "k_concat K s ?ne = Some m" "batch_wf s m" "rows m = all_rows ?ne"
        using concat_rows [OF assms(1) False wf] by blast
      have "(if length ?ne = 1 then map_sum id Not (batch_has_duplicate_timestamps (hd ?ne)) else Inr False) = Inr False"
        using has_duplicate_wf [OF assms(2), of "hd ?ne"] wf False multi by auto
      then have "dedupe_batches_newest_wins K bs s = dedupe_sorted_batch K m"
        using bs False m(1) by (simp add: dedupe_batches_newest_wins_def)
      moreover have "num_rows m < 2 ^ 32"
        using assms(4) m(3) non_empty_rows [of bs] by (metis length_rows)
      ultimately show ?thesis
        using dedupe_sorted_newest [OF assms(1,2) m(2)] m(3) non_empty_rows [of bs] by simp
    qed
  qed
qed

section \<open>The flush plan\<close>

lemma strict_append:
  "xs \<noteq> [] \<Longrightarrow> sorted_wrt (<) (xs @ ys) \<longleftrightarrow> sorted_wrt (<) xs \<and> sorted_wrt (<) (List.last xs # (ys :: i64 list))"
proof (induction xs rule: list_nonempty_induct)
  case (cons x xs)
  have "List.last xs \<in> set xs" using cons(1) by simp
  then have "x < List.last xs" if "\<forall>y \<in> set xs. x < y" using that by blast
  moreover have "List.last (x # xs) = List.last xs" using cons(1) by simp
  ultimately show ?case using cons(2) by (simp only: append_Cons sorted_wrt.simps set_append) (auto intro: order.strict_trans)
qed simp

lemma ordered_loop_wf:
  assumes "schema_wf s"
  shows "batches_wf s bs \<Longrightarrow> ordered_loop bs prev =
    Inr (sorted_wrt (<) ((case prev of None \<Rightarrow> [] | Some p \<Rightarrow> [p]) @ map (row_time s) (all_rows bs)))"
proof (induction bs arbitrary: prev)
  case Nil
  then show ?case by (simp split: option.splits)
next
  case (Cons b bs)
  let ?rest = "map (row_time s) (all_rows bs)"
  have wf: "batch_wf s b" and IH: "ordered_loop bs q =
      Inr (sorted_wrt (<) ((case q of None \<Rightarrow> [] | Some p \<Rightarrow> [p]) @ ?rest))" for q
    using Cons by simp_all
  show ?case
  proof (cases "num_rows b = 0")
    case True
    then have "rows b = []" by (metis length_0_conv length_rows)
    then show ?thesis using IH [of prev] True by simp
  next
    case False
    define ts where "ts = map (row_time s) (rows b)"
    have ne: "ts \<noteq> []" using False by (metis length_0_conv length_map length_rows ts_def)
    have "ordered_loop (b # bs) prev =
        (if \<not> sorted_wrt (<) ts then Inr False
         else if (case prev of None \<Rightarrow> False | Some p \<Rightarrow> hd ts \<le> p) then Inr False
         else ordered_loop bs (Some (List.last ts)))"
      using False time_values_wf [OF assms wf, folded ts_def] assms wf
      by (simp add: batch_wf_schema schema_wf_idx windows2_less hd_conv_nth [OF ne] last_conv_nth [OF ne]
          split: option.splits)
    moreover have "sorted_wrt (<) (ts @ ?rest) \<longleftrightarrow> sorted_wrt (<) ts \<and> sorted_wrt (<) (List.last ts # ?rest)"
      by (rule strict_append [OF ne])
    moreover have "sorted_wrt (<) (p # ts @ ?rest) \<longleftrightarrow> p < hd ts \<and> sorted_wrt (<) (ts @ ?rest)" for p
      using ne by (cases ts) (auto intro: order.strict_trans)
    moreover have "map (row_time s) (all_rows (b # bs)) = ts @ ?rest" by (simp add: ts_def)
    moreover have "ordered_loop bs (Some (List.last ts)) = Inr (sorted_wrt (<) (List.last ts # ?rest))"
      using IH [of "Some (List.last ts)"] by (simp only: option.case append_Cons append_Nil)
    ultimately show ?thesis by (cases prev) (simp_all only: option.case append_Nil append_Cons, auto simp: not_le)
  qed
qed

lemma set_concat_nth:
  "set (concat (map f bs)) = {f (bs ! i) ! r | i r. i < length bs \<and> r < length (f (bs ! i))}"
proof -
  have "set bs = (!) bs ` {..<length bs}" by (auto simp: set_conv_nth)
  then have "set (concat (map f bs)) = (\<Union>i \<in> {..<length bs}. set (f (bs ! i)))" by simp
  then show ?thesis by (auto simp: set_conv_nth)
qed

lemma unat_of_nat32: "n < 2 ^ 32 \<Longrightarrow> unat (of_nat n :: u32) = n"
  by (simp add: unat_of_nat)

definition entry_set :: "schema \<Rightarrow> nat \<Rightarrow> record_batch list \<Rightarrow> (i64 \<times> u32 \<times> u32) set" where
  "entry_set s c0 bs =
     (\<Union>i \<in> {..<length bs}. (\<lambda>r. (row_time s (rows (bs ! i) ! r), of_nat (c0 + i), of_nat r)) ` {..<num_rows (bs ! i)})"

lemma entry_set_Cons:
  "entry_set s c0 (b # bs) =
     (\<lambda>r. (row_time s (rows b ! r), of_nat c0, of_nat r)) ` {..<num_rows b} \<union> entry_set s (Suc c0) bs"
  unfolding entry_set_def length_Cons lessThan_Suc_eq_insert_0
  by (simp only: UN_insert UN_simps nth_Cons_0 nth_Cons_Suc add_Suc_right add_Suc add_0_right)

lemma build_entries_wf:
  assumes "schema_wf s"
  shows "batches_wf s bs \<Longrightarrow> \<exists>es. build_entries c0 bs = Inr es \<and> set es = entry_set s c0 bs"
proof (induction bs arbitrary: c0)
  case Nil
  then show ?case by (simp add: entry_set_def)
next
  case (Cons b bs)
  then obtain es where es: "build_entries (Suc c0) bs = Inr es" "set es = entry_set s (Suc c0) bs" by fastforce
  let ?f = "\<lambda>r. (row_time s (rows b ! r), of_nat c0 :: u32, of_nat r :: u32)"
  let ?new = "map (\<lambda>(row, ts). (ts, of_nat c0 :: u32, of_nat row :: u32)) (List.enumerate 0 (map (row_time s) (rows b)))"
  have b: "batch_wf s b" using Cons.prems by simp
  have "build_entries c0 (b # bs) = Inr (?new @ es)"
    using assms b es(1) by (simp add: batch_wf_schema schema_wf_idx time_values_wf)
  moreover have "?new = map ?f [0..<num_rows b]" by (intro nth_equalityI) (auto simp: nth_enumerate_eq)
  then have "set ?new = ?f ` {..<num_rows b}" by (simp add: lessThan_atLeast0)
  then have "set (?new @ es) = entry_set s c0 (b # bs)" unfolding set_append es(2) entry_set_Cons by simp
  ultimately show ?case by blast
qed

definition coord_row :: "record_batch list \<Rightarrow> u32 \<times> u32 \<Rightarrow> row" where
  "coord_row bs = (\<lambda>(c, r). rows (bs ! unat c) ! unat r)"

definition coords_ok :: "record_batch list \<Rightarrow> (u32 \<times> u32) list \<Rightarrow> bool" where
  "coords_ok bs cs \<longleftrightarrow> (\<forall>(c, r) \<in> set cs. unat c < length bs \<and> unat r < num_rows (bs ! unat c))"

lemma run_coords_newest:
  assumes "length bs < 2 ^ 32" and "\<forall>b \<in> set bs. num_rows b < 2 ^ 32"
    and "set es = entry_set s 0 bs"
  shows "map (coord_row bs) (run_coords (sort es)) = newest (row_time s) (all_rows bs) \<and> coords_ok bs (run_coords (sort es))"
proof -
  let ?k = "row_time s"
  have es: "set es = {(?k (rows (bs ! i) ! r), of_nat i, of_nat r) | i r. i < length bs \<and> r < num_rows (bs ! i)}"
    using assms(3) by (auto simp: entry_set_def)
  have un: "unat (of_nat i :: u32) = i" "unat (of_nat r :: u32) = r" if "i < length bs" "r < num_rows (bs ! i)" for i r
    using that assms(1,2) nth_mem [OF that(1)] by (auto intro!: unat_of_nat32 elim: order.strict_trans)
  have ent: "\<exists>i r. e = (?k (rows (bs ! i) ! r), of_nat i, of_nat r) \<and> i < length bs \<and> r < num_rows (bs ! i)"
    if "e \<in> set es" for e using that es by blast
  have mono: "(i, r) \<le> (j, q)" if "(of_nat i :: u32, of_nat r :: u32) \<le> (of_nat j, of_nat q)"
    "i < length bs" "r < num_rows (bs ! i)" "j < length bs" "q < num_rows (bs ! j)" for i r j q
    using that un [OF that(2,3)] un [OF that(4,5)] by (auto simp: less_eq_prod_def word_le_nat_alt word_less_nat_alt)
  have "map (coord_row bs \<circ> snd) (run_lasts (sort es)) = newest ?k (all_rows bs)"
  proof (rule set_pos)
    show "?k (coord_row bs (snd e)) = fst e" if e: "e \<in> set (sort es)" for e
      using ent [of e] e un by (auto simp: coord_row_def)
    have "?k ` set (all_rows bs) = {?k (rows (bs ! i) ! r) | i r. i < length bs \<and> r < num_rows (bs ! i)}"
      unfolding set_concat_nth by auto
    then show "?k ` set (all_rows bs) = fst ` set (sort es)" unfolding set_sort es by force
    show "newest_at ?k (all_rows bs) (fst e) = Some (coord_row bs (snd e))"
      if e: "e \<in> set (sort es)" and mx: "\<forall>e' \<in> set (sort es). fst e' = fst e \<longrightarrow> snd e' \<le> snd e" for e
    proof -
      obtain i r where ir: "e = (?k (rows (bs ! i) ! r), of_nat i, of_nat r)" "i < length bs" "r < num_rows (bs ! i)"
        using ent [of e] e by auto
      have "newest_at ?k (concat (map rows bs)) (?k (map rows bs ! i ! r)) = Some (map rows bs ! i ! r)"
      proof (rule newest_at_coord)
        fix j q
        assume jq: "j < length (map rows bs)" "q < length (map rows bs ! j)" "?k (map rows bs ! j ! q) = ?k (map rows bs ! i ! r)"
        have "(?k (rows (bs ! j) ! q), of_nat j, of_nat q) \<in> set (sort es)"
          using jq(1,2) unfolding set_sort es by auto
        then have "(of_nat j :: u32, of_nat q :: u32) \<le> (of_nat i, of_nat r)" using mx jq ir(1,2) by fastforce
        then show "(j, q) \<le> (i, r)" using mono [of j q i r] jq ir by simp
      qed (use ir in simp_all)
      then show ?thesis using ir un by (simp add: coord_row_def)
    qed
  qed simp
  moreover have "coords_ok bs (run_coords (sort es))"
  proof -
    have "set (run_coords (sort es)) \<subseteq> snd ` set es"
      using run_lasts_spec [of "sort es"] by (auto simp: run_coords_lasts)
    moreover have "unat (fst (snd e)) < length bs \<and> unat (snd (snd e)) < num_rows (bs ! unat (fst (snd e)))" if "e \<in> set es" for e
      using ent [OF that] un by auto
    ultimately show ?thesis unfolding coords_ok_def by (auto dest!: subsetD)
  qed
  ultimately show ?thesis by (simp add: run_coords_lasts)
qed

lemma sb_collect_rows:
  assumes "kernels_ok K"
  shows "\<lbrakk>sb_chunks it \<noteq> []; batches_wf s (sb_chunks it); coords_ok (sb_chunks it) (sb_coords it);
    0 < sb_window it; sb_schema it = s\<rbrakk> \<Longrightarrow>
    \<exists>out. sb_collect K it = Some (Inr out) \<and> batches_wf s out \<and>
      all_rows out = map (coord_row (sb_chunks it)) (drop (sb_cursor it) (sb_coords it)) \<and>
      (\<forall>b \<in> set out. 0 < num_rows b \<and> num_rows b \<le> sb_window it)"
proof (induction "length (sb_coords it) - sb_cursor it" arbitrary: it rule: less_induct)
  case less
  let ?n = "length (sb_coords it)" and ?c = "sb_cursor it"
  show ?case
  proof (cases "?n \<le> ?c")
    case True
    then show ?thesis by (subst sb_collect.simps) (simp add: sb_next_def)
  next
    case False
    let ?e = "min (?c + sb_window it) ?n"
    let ?w = "take (?e - ?c) (drop ?c (sb_coords it))"
    let ?is = "map (\<lambda>(c, r). (unat c, unat r)) ?w"
    have "set ?w \<subseteq> set (sb_coords it)" by (meson order_trans set_drop_subset set_take_subset)
    then have "\<forall>(c, r) \<in> set ?is. c < length (sb_chunks it) \<and> r < num_rows (sb_chunks it ! c)"
      using less.prems(3) unfolding coords_ok_def by fastforce
    then obtain b where b: "and_then (interleave_columns K ''interleave flush'' (sb_chunks it) ?is [0..<length s])
        (new_batch K ''arrow'' s) = Inr b" "batch_wf s b" "rows b = map (\<lambda>(c, r). rows (sb_chunks it ! c) ! r) ?is"
      using interleave_rows [OF assms less.prems(1,2)] by blast
    have rb: "rows b = map (coord_row (sb_chunks it)) ?w" unfolding b(3) by (auto simp: coord_row_def)
    have nb: "num_rows b = ?e - ?c" using arg_cong [OF rb, of length] False by simp
    have nxt: "sb_next K it = (Some (Inr b), it\<lparr>sb_cursor := ?e\<rparr>)"
      using False b(1) less.prems(5) by (simp add: sb_next_def Let_def)
    have "\<exists>out. sb_collect K (it\<lparr>sb_cursor := ?e\<rparr>) = Some (Inr out) \<and> batches_wf s out \<and>
      all_rows out = map (coord_row (sb_chunks it)) (drop ?e (sb_coords it)) \<and>
      (\<forall>b \<in> set out. 0 < num_rows b \<and> num_rows b \<le> sb_window it)"
      using less.hyps [of "it\<lparr>sb_cursor := ?e\<rparr>"] less.prems False by simp
    then obtain out where out: "sb_collect K (it\<lparr>sb_cursor := ?e\<rparr>) = Some (Inr out)" "batches_wf s out"
      "all_rows out = map (coord_row (sb_chunks it)) (drop ?e (sb_coords it))"
      "\<forall>b \<in> set out. 0 < num_rows b \<and> num_rows b \<le> sb_window it" by blast
    have d: "drop ?c (sb_coords it) = ?w @ drop ?e (sb_coords it)"
      using append_take_drop_id [of "?e - ?c" "drop ?c (sb_coords it)"] False by (simp add: min_def)
    have "all_rows (b # out) = map (coord_row (sb_chunks it)) (drop ?c (sb_coords it))"
      by (subst d) (simp add: rb out(3))
    moreover have "sb_collect K it = Some (Inr (b # out))"
      by (subst sb_collect.simps) (simp add: nxt out(1))
    moreover have "0 < num_rows b \<and> num_rows b \<le> sb_window it" using nb less.prems(4) False by auto
    ultimately show ?thesis using b(2) out(2,4) by (intro exI [of _ "b # out"]) simp
  qed
qed

lemma plan_flush_newest:
  assumes "kernels_ok K" and "schema_wf s" and "batches_wf s bs" and "all_rows bs \<noteq> []"
    and "length bs < 2 ^ 32" and "\<forall>b \<in> set bs. num_rows b < 2 ^ 32"
  shows "(\<exists>out. plan_flush bs s = Inr (Streaming out) \<and> batches_wf s out \<and> all_rows out = newest (row_time s) (all_rows bs)) \<or>
    (\<exists>sf. plan_flush bs s = Inr (Sorted sf) \<and> (\<forall>window. \<exists>out.
       sb_collect K (window_batches window sf) = Some (Inr out) \<and> batches_wf s out \<and>
       all_rows out = newest (row_time s) (all_rows bs) \<and> (\<forall>b \<in> set out. 0 < num_rows b \<and> num_rows b \<le> max window 1)))"
proof -
  let ?ne = "non_empty_batches bs" and ?k = "row_time s"
  have wf: "batches_wf s ?ne" by (rule non_empty_wf [OF assms(3)])
  have ne: "?ne \<noteq> []" using assms(4) non_empty_rows [of bs] by auto
  have ord: "chunks_strictly_ordered ?ne = Inr (sorted_wrt (<) (map ?k (all_rows bs)))"
    using ordered_loop_wf [OF assms(2) wf, of None] by (simp add: chunks_strictly_ordered_def non_empty_rows)
  show ?thesis
  proof (cases "sorted_wrt (<) (map ?k (all_rows bs))")
    case True
    then show ?thesis using ord ne wf by (simp add: plan_flush_def newest_idem non_empty_rows)
  next
    case False
    obtain es where es: "build_entries 0 ?ne = Inr es" "set es = entry_set s 0 ?ne"
      using build_entries_wf [OF assms(2) wf] by blast
    have "length ?ne < 2 ^ 32" "\<forall>b \<in> set ?ne. num_rows b < 2 ^ 32"
      using assms(5,6) le_less_trans [OF length_filter_le assms(5)] by (simp_all add: non_empty_batches_def)
    note coords = run_coords_newest [OF this es(2), unfolded non_empty_rows]
    have "es \<noteq> []" using es(2) ne non_empty_pos [of "hd ?ne" bs] by (cases ?ne) (auto simp: entry_set_Cons)
    then have plan: "plan_flush bs s = Inr (Sorted \<lparr>sl_chunks = ?ne, sl_coords = run_coords (sort es), sl_schema = s\<rparr>)"
      using ord ne False es(1) by (simp add: plan_flush_def sorted_flush_build_def)
    have "\<exists>out. sb_collect K (window_batches window \<lparr>sl_chunks = ?ne, sl_coords = run_coords (sort es), sl_schema = s\<rparr>) = Some (Inr out) \<and>
        batches_wf s out \<and> all_rows out = newest ?k (all_rows bs) \<and> (\<forall>b \<in> set out. 0 < num_rows b \<and> num_rows b \<le> max window 1)" for window
      using sb_collect_rows [OF assms(1), of "window_batches window \<lparr>sl_chunks = ?ne, sl_coords = run_coords (sort es), sl_schema = s\<rparr>" s]
        ne wf coords by (simp add: window_batches_def)
    then show ?thesis using plan by blast
  qed
qed

end
