(* ===== verification/Dedup_Layers.thy ===== *)
theory Dedup_Layers
  imports Dedup_Newest
begin

text \<open>
  Correctness of the layered merge \<^verbatim>\<open>merge_sst_layers\<close>: the rows it keeps while scanning the layers
  from new to old are the newest ones, and grouping them by source batch in any hash order and
  sorting the pieces gives the newest-wins result of the layers.
\<close>

section \<open>First rows seen\<close>

definition see :: "('c \<Rightarrow> i64) \<Rightarrow> i64 list \<times> 'c list \<Rightarrow> 'c \<Rightarrow> i64 list \<times> 'c list" where
  "see k st c = (if k c \<in> set (fst st) then st else (k c # fst st, snd st @ [c]))"

lemma foldl_see:
  "foldl (see k) ([], []) xs = (seen, kept) \<Longrightarrow> set seen = k ` set xs \<and> distinct (map k kept) \<and>
     set kept \<subseteq> set xs \<and> k ` set kept = k ` set xs \<and> (\<forall>c \<in> set kept. newest_at k (rev xs) (k c) = Some c)"
proof (induction xs arbitrary: seen kept rule: rev_induct)
  case (snoc x xs)
  obtain seen0 kept0 where st: "foldl (see k) ([], []) xs = (seen0, kept0)" by fastforce
  note IH = snoc.IH [OF st]
  have last: "see k (seen0, kept0) x = (seen, kept)" using snoc.prems st by simp
  have na: "newest_at k (x # rev xs) = newest_at k [x] ++ newest_at k (rev xs)"
    using newest_at_append [of k "[x]" "rev xs"] by simp
  show ?case
  proof (cases "k x \<in> set seen0")
    case True
    then have "seen = seen0" "kept = kept0" using last by (simp_all add: see_def)
    then show ?thesis using IH True by (auto simp: na map_add_def)
  next
    case False
    then have eq: "seen = k x # seen0" "kept = kept0 @ [x]" using last by (simp_all add: see_def)
    have "newest_at k (rev xs) (k x) = None" using False IH by (simp add: newest_at_None)
    moreover have "newest_at k [x] (k x) = Some x" by (simp add: newest_at_def)
    ultimately have "newest_at k (x # rev xs) (k x) = Some x" by (simp add: na map_add_def)
    moreover have "newest_at k (x # rev xs) (k c) = Some c" if "c \<in> set kept0" for c
      using IH that by (simp add: na map_add_def)
    ultimately show ?thesis using IH False by (auto simp: eq)
  qed
qed simp

lemma newest_at_map: "newest_at k (map f xs) t = map_option f (newest_at (k \<circ> f) xs t)"
  by (simp add: newest_at_def Let_def filter_map comp_def last_map)

section \<open>The scan over layers\<close>

definition coord3_row :: "record_batch list list \<Rightarrow> coord \<Rightarrow> row" where
  "coord3_row layers = (\<lambda>(l, b, r). rows (layers ! l ! b) ! r)"

definition coord_time :: "schema \<Rightarrow> record_batch list list \<Rightarrow> coord \<Rightarrow> i64" where
  "coord_time s layers c = row_time s (coord3_row layers c)"

definition batch_coords :: "nat \<Rightarrow> nat \<Rightarrow> record_batch \<Rightarrow> coord list" where
  "batch_coords l i b = map (\<lambda>r. (l, i, r)) [0..<num_rows b]"

definition layer_coords :: "nat \<Rightarrow> record_batch list \<Rightarrow> coord list" where
  "layer_coords l bs = concat (map (\<lambda>i. batch_coords l i (bs ! i)) [0..<length bs])"

definition flat_coords :: "record_batch list list \<Rightarrow> coord list" where
  "flat_coords layers = concat (map (\<lambda>l. layer_coords l (layers ! l)) [0..<length layers])"

lemma map_nth_upt: "map (\<lambda>i. f (xs ! i)) [0..<length xs] = map f xs"
  by (intro nth_equalityI) simp_all

lemma batch_coords_rows: "map (coord3_row layers) (batch_coords l i (layers ! l ! i)) = rows (layers ! l ! i)"
  by (intro nth_equalityI) (auto simp: batch_coords_def coord3_row_def)

lemma layer_coords_rows: "map (coord3_row layers) (layer_coords l (layers ! l)) = all_rows (layers ! l)"
  using map_nth_upt [of rows "layers ! l"]
  by (simp add: layer_coords_def map_concat comp_def batch_coords_rows)

lemma flat_coords_rows: "map (coord3_row layers) (flat_coords layers) = all_rows (concat layers)"
proof -
  have "all_rows (concat layers) = concat (map all_rows layers)" by (induction layers) auto
  then show ?thesis
    using map_nth_upt [of all_rows layers]
    by (simp only: flat_coords_def map_concat map_map comp_def layer_coords_rows)
qed

lemma scan_rows_wf:
  assumes "schema_wf s" and "batch_wf s (layers ! l ! i)"
  shows "\<forall>r \<in> set rs. r < num_rows (layers ! l ! i) \<Longrightarrow>
    scan_rows (rb_columns (layers ! l ! i) ! time_idx s) l i rs st =
      Inr (foldl (see (coord_time s layers)) st (map (\<lambda>r. (l, i, r)) rs))"
proof (induction rs arbitrary: st)
  case (Cons r rs)
  have "time_value_at (rb_columns (layers ! l ! i) ! time_idx s) r = Inr (row_time s (rows (layers ! l ! i) ! r))"
    using time_value_wf [OF assms] Cons.prems by simp
  then show ?case using Cons by (simp add: see_def coord_time_def coord3_row_def)
qed simp

lemma scan_batches_wf:
  assumes "schema_wf s" and "batches_wf s (layers ! l)"
  shows "\<forall>i \<in> set is. i < length (layers ! l) \<Longrightarrow>
    scan_batches (layers ! l) l is st =
      Inr (foldl (see (coord_time s layers)) st (concat (map (\<lambda>i. rev (batch_coords l i (layers ! l ! i))) is)))"
proof (induction "is" arbitrary: st)
  case (Cons i "is")
  let ?b = "layers ! l ! i"
  have wf: "batch_wf s ?b" using assms(2) Cons.prems by simp
  show ?case
  proof (cases "num_rows ?b = 0")
    case True
    then show ?thesis using Cons by (simp add: batch_coords_def)
  next
    case False
    have "scan_rows (rb_columns ?b ! time_idx s) l i (rev [0..<num_rows ?b]) st =
        Inr (foldl (see (coord_time s layers)) st (rev (batch_coords l i ?b)))"
      using scan_rows_wf [OF assms(1) wf, of "rev [0..<num_rows ?b]"] by (simp add: batch_coords_def rev_map)
    then show ?thesis
      using False Cons wf assms(1) by (simp add: Let_def batch_wf_schema schema_wf_idx)
  qed
qed simp

lemma scan_layers_wf:
  assumes "schema_wf s" and "\<forall>layer \<in> set layers. batches_wf s layer"
  shows "\<forall>l \<in> set ls. l < length layers \<Longrightarrow>
    scan_layers layers ls st =
      Inr (foldl (see (coord_time s layers)) st (concat (map (\<lambda>l. rev (layer_coords l (layers ! l))) ls)))"
proof (induction ls arbitrary: st)
  case (Cons l ls)
  have "layers ! l \<in> set layers" using Cons.prems by simp
  then have wf: "batches_wf s (layers ! l)" using assms(2) by blast
  have "concat (map (\<lambda>i. rev (batch_coords l i (layers ! l ! i))) (rev [0..<length (layers ! l)])) =
      rev (layer_coords l (layers ! l))"
    by (simp add: layer_coords_def rev_concat rev_map comp_def)
  then show ?case
    using scan_batches_wf [OF assms(1) wf, of "rev [0..<length (layers ! l)]"] Cons by simp
qed simp

lemma scan_all_layers:
  assumes "schema_wf s" and "\<forall>layer \<in> set layers. batches_wf s layer"
  shows "scan_layers layers (rev [0..<length layers]) ([], []) =
    Inr (foldl (see (coord_time s layers)) ([], []) (rev (flat_coords layers)))"
  using scan_layers_wf [OF assms, of "rev [0..<length layers]"]
  by (simp add: flat_coords_def rev_concat rev_map comp_def)

section \<open>Grouping and materializing\<close>

definition flat_groups :: "groups \<Rightarrow> coord list" where
  "flat_groups gs = concat (map (\<lambda>((l, b), rs). map (\<lambda>r. (l, b, unat r)) rs) gs)"

lemma flat_groups_mem: "((l, b), rs) \<in> set gs \<Longrightarrow> r \<in> set rs \<Longrightarrow> (l, b, unat r) \<in> set (flat_groups gs)"
  by (induction gs) (auto simp: flat_groups_def)

lemma update_group:
  "distinct (map fst g) \<Longrightarrow>
   mset (flat_groups (AList.update (l, b) ((case map_of g (l, b) of None \<Rightarrow> [] | Some rs \<Rightarrow> rs) @ [r]) g)) =
     add_mset (l, b, unat r) (mset (flat_groups g))"
proof (induction g)
  case (Cons e g)
  obtain l' b' rs where e: "e = ((l', b'), rs)" by (metis prod.exhaust)
  show ?case
  proof (cases "(l', b') = (l, b)")
    case True
    then show ?thesis by (simp add: e flat_groups_def)
  next
    case False
    then show ?thesis using Cons by (auto simp: e flat_groups_def)
  qed
qed (simp add: flat_groups_def)

lemma group_rows_flat:
  "\<forall>(l, b, r) \<in> set kept. r < 2 ^ 32 \<Longrightarrow>
   mset (flat_groups (group_rows kept)) = mset kept \<and> distinct (map fst (group_rows kept))"
proof (induction kept rule: rev_induct)
  case (snoc c kept)
  obtain l b r where c: "c = (l, b, r)" by (metis prod.exhaust)
  have r: "unat (of_nat r :: u32) = r" using snoc.prems by (intro unat_of_nat32) (simp add: c)
  have IH: "mset (flat_groups (group_rows kept)) = mset kept" "distinct (map fst (group_rows kept))"
    using snoc by auto
  show ?case
    using update_group [OF IH(2), of l b "of_nat r"] IH(1) distinct_update [OF IH(2)]
    by (simp add: group_rows_def c r)
qed (simp add: group_rows_def flat_groups_def)

definition group_ok :: "record_batch list list \<Rightarrow> schema \<Rightarrow> (nat \<times> nat) \<times> u32 list \<Rightarrow> bool" where
  "group_ok layers s g \<longleftrightarrow> (case g of ((l, b), rs) \<Rightarrow>
     rs \<noteq> [] \<longrightarrow> batch_wf s (layers ! l ! b) \<and> (\<forall>r \<in> set rs. unat r < num_rows (layers ! l ! b)))"

lemma group_rows_nonempty: "g \<in> set (group_rows kept) \<Longrightarrow> snd g \<noteq> []"
proof (induction kept arbitrary: g rule: rev_induct)
  case (snoc c kept)
  obtain l b r where c: "c = (l, b, r)" by (metis prod.exhaust)
  let ?v = "(case map_of (group_rows kept) (l, b) of None \<Rightarrow> [] | Some rs \<Rightarrow> rs) @ [of_nat r]"
  have "set (AList.update (l, b) v G) \<subseteq> insert ((l, b), v) (set G)" for v and G :: groups
    by (induction G) auto
  then have "g \<in> insert ((l, b), ?v) (set (group_rows kept))"
    using snoc.prems unfolding group_rows_def c by auto
  then show ?case using snoc.IH [of g] by auto
qed (simp add: group_rows_def)

lemma make_pieces_rows:
  assumes "kernels_ok K"
  shows "\<forall>g \<in> set gs. group_ok layers s g \<and> snd g \<noteq> [] \<Longrightarrow>
    \<exists>ps. make_pieces K layers s gs = Inr ps \<and> batches_wf s ps \<and> length ps = length gs \<and>
      all_rows ps = map (coord3_row layers) (flat_groups gs)"
proof (induction gs)
  case (Cons g gs)
  obtain l b rs where g: "g = ((l, b), rs)" by (metis prod.exhaust)
  have ok: "batch_wf s (layers ! l ! b)" "\<forall>i \<in> set (map unat rs). i < num_rows (layers ! l ! b)"
    using Cons.prems by (auto simp: g group_ok_def)
  obtain p where p: "and_then (take_columns K ''arrow'' (map unat rs) (rb_columns (layers ! l ! b))) (new_batch K ''arrow'' s) = Inr p"
    "batch_wf s p" "rows p = pick (rows (layers ! l ! b)) (map unat rs)"
    using take_rows [OF assms ok] by blast
  obtain ps where ps: "make_pieces K layers s gs = Inr ps" "batches_wf s ps" "length ps = length gs"
    "all_rows ps = map (coord3_row layers) (flat_groups gs)"
    using Cons by auto
  have "make_pieces K layers s (g # gs) = Inr (p # ps)" using p(1) ps(1) by (simp add: g)
  moreover have "rows p = map (coord3_row layers) (map (\<lambda>r. (l, b, unat r)) rs)"
    by (simp add: p(3) pick_def coord3_row_def)
  ultimately show ?case using p(2) ps by (simp add: g flat_groups_def)
qed (simp add: flat_groups_def)

lemma mset_flat_perm: "mset gs = mset gs' \<Longrightarrow> mset (flat_groups gs) = mset (flat_groups gs')"
proof -
  let ?f = "\<lambda>((l, b), rs). map (\<lambda>r. (l, b, unat r)) rs"
  have "mset (flat_groups gs) = sum_mset (image_mset (mset \<circ> ?f) (mset gs))" for gs
    by (induction gs) (auto simp: flat_groups_def)
  then show "mset gs = mset gs' \<Longrightarrow> ?thesis" by metis
qed

lemma materialize_rows:
  assumes "kernels_ok K" and "schema_wf s" and "\<And>gs. mset (hash_order gs) = mset gs"
    and "\<forall>layer \<in> set layers. batches_wf s layer \<and> (\<forall>b \<in> set layer. num_rows b < 2 ^ 32)"
    and kept: "set kept \<subseteq> set (flat_coords layers)" "kept \<noteq> []" "distinct (map (coord_time s layers) kept)"
  shows "\<exists>b. materialize_kept_rows K hash_order layers kept s = Inr [b] \<and> batch_wf s b \<and>
    rows b = newest (row_time s) (map (coord3_row layers) kept)"
proof -
  let ?gs = "hash_order (group_rows kept)" and ?k = "row_time s"
  have crd: "batch_wf s (layers ! l ! b) \<and> r < num_rows (layers ! l ! b) \<and> num_rows (layers ! l ! b) < 2 ^ 32"
    if "(l, b, r) \<in> set (flat_coords layers)" for l b r
  proof -
    have "l < length layers" "b < length (layers ! l)" "r < num_rows (layers ! l ! b)"
      using that by (auto simp: flat_coords_def layer_coords_def batch_coords_def)
    then show ?thesis using assms(4) nth_mem [of l layers] nth_mem [of b "layers ! l"] by blast
  qed
  have "r < 2 ^ 32" if "(l, b, r) \<in> set kept" for l b r
    using crd [of l b r] kept(1) that by (meson order.strict_trans subsetD)
  then have small: "\<forall>(l, b, r) \<in> set kept. r < 2 ^ 32" by blast
  have flat: "mset (flat_groups ?gs) = mset kept"
    using group_rows_flat [OF small] mset_flat_perm [OF assms(3), of "group_rows kept"] by simp
  have setflat: "set (flat_groups ?gs) = set kept" using arg_cong [OF flat, of set_mset] by simp
  have gset: "set ?gs = set (group_rows kept)" using arg_cong [OF assms(3), of set_mset] by simp
  have "group_ok layers s g \<and> snd g \<noteq> []" if g: "g \<in> set ?gs" for g
  proof -
    obtain l b rs where lb: "g = ((l, b), rs)" by (metis prod.exhaust)
    have mem: "(l, b, unat r) \<in> set (flat_coords layers)" if "r \<in> set rs" for r
      using flat_groups_mem [OF g [unfolded lb] that] setflat kept(1) by blast
    have rs: "rs \<noteq> []" using g gset group_rows_nonempty [of g kept] by (simp add: lb)
    then have "hd rs \<in> set rs" by simp
    then have "batch_wf s (layers ! l ! b)" using crd [OF mem] by blast
    moreover have "\<forall>r \<in> set rs. unat r < num_rows (layers ! l ! b)" using crd [OF mem] by blast
    ultimately show ?thesis using rs by (simp add: group_ok_def lb)
  qed
  then obtain ps where ps: "make_pieces K layers s ?gs = Inr ps" "batches_wf s ps" "length ps = length ?gs"
    "all_rows ps = map (coord3_row layers) (flat_groups ?gs)"
    using make_pieces_rows [OF assms(1), of ?gs] by blast
  have ms: "mset (all_rows ps) = mset (map (coord3_row layers) kept)" by (simp add: ps(4) flat)
  have dk: "distinct (map ?k (map (coord3_row layers) kept))"
    using kept(3) by (simp add: comp_def coord_time_def [abs_def])
  have ne: "ps \<noteq> []" using ms kept(2) by auto
  have "\<exists>b. materialize_kept_rows K hash_order layers kept s = Inr [b] \<and> batch_wf s b \<and>
      mset (rows b) = mset (all_rows ps) \<and> sorted (map ?k (rows b))"
  proof (cases "length ps = 1")
    case True
    then obtain p where "ps = [p]" by (metis One_nat_def length_0_conv length_Suc_conv)
    moreover obtain b where "sort_batch_by_time K p = Inr b" "batch_wf s b" "mset (rows b) = mset (rows p)" "sorted (map ?k (rows b))"
      using sort_rows [OF assms(1,2), of p] ps(2) calculation by auto
    ultimately show ?thesis using ps(1) by (simp add: materialize_kept_rows_def)
  next
    case False
    then obtain p q qs where pqs: "ps = p # q # qs" using ne by (metis One_nat_def length_Cons list.exhaust list.size(3))
    obtain m where m: "k_concat K s ps = Some m" "batch_wf s m" "rows m = all_rows ps"
      using concat_rows [OF assms(1) ne ps(2)] by blast
    obtain b where "sort_batch_by_time K m = Inr b" "batch_wf s b" "mset (rows b) = mset (rows m)" "sorted (map ?k (rows b))"
      using sort_rows [OF assms(1,2) m(2)] by blast
    then show ?thesis using ps(1) m pqs by (simp add: materialize_kept_rows_def)
  qed
  then show ?thesis using newest_perm [OF _ dk] ms by metis
qed

lemma kept_newest:
  assumes "foldl (see (coord_time s layers)) ([], []) (rev (flat_coords layers)) = (seen, kept)"
  shows "newest (row_time s) (map (coord3_row layers) kept) = newest (row_time s) (all_rows (concat layers))"
proof (rule newest_cong, rule ext)
  fix t
  let ?k = "row_time s" and ?f = "coord3_row layers"
  have kf: "?k \<circ> ?f = coord_time s layers" by (rule ext) (simp add: coord_time_def)
  note see = foldl_see [OF assms, unfolded set_rev rev_rev_ident]
  have "newest_at (coord_time s layers) kept t = newest_at (coord_time s layers) (flat_coords layers) t"
  proof (cases "t \<in> coord_time s layers ` set kept")
    case True
    then obtain c where c: "c \<in> set kept" "t = coord_time s layers c" by blast
    then show ?thesis using see newest_at_distinct [of "coord_time s layers" kept c] by simp
  next
    case False
    then show ?thesis using see by (simp add: newest_at_None [THEN iffD2])
  qed
  then show "newest_at ?k (map ?f kept) t = newest_at ?k (all_rows (concat layers)) t"
    unfolding flat_coords_rows [symmetric] newest_at_map kf by simp
qed

lemma single_layer_rows:
  assumes "filter (list_ex (\<lambda>b. num_rows b > 0)) layers = [layer]"
  shows "all_rows (concat layers) = all_rows layer" "layer \<in> set layers"
proof -
  have empty: "all_rows l = []" if "\<not> list_ex (\<lambda>b. num_rows b > 0) l" for l
    using that by (auto simp: list_ex_iff rows_def)
  have "all_rows (concat layers) = all_rows (concat (filter (list_ex (\<lambda>b. num_rows b > 0)) layers))"
    using empty by (induction layers) auto
  then show "all_rows (concat layers) = all_rows layer" by (simp add: assms)
  have "layer \<in> set (filter (list_ex (\<lambda>b. num_rows b > 0)) layers)" by (simp add: assms)
  then show "layer \<in> set layers" by simp
qed

lemma merge_layers_newest:
  assumes "kernels_ok K" and "schema_wf s" and "\<And>gs. mset (hash_order gs) = mset gs"
    and wf: "\<forall>layer \<in> set layers. batches_wf s layer" and small: "length (all_rows (concat layers)) < 2 ^ 32"
  shows "\<exists>out. merge_sst_layers K hash_order layers s = Inr out \<and> batches_wf s out \<and>
    all_rows out = newest (row_time s) (all_rows (concat layers))"
proof -
  let ?ne = "filter (list_ex (\<lambda>b. num_rows b > 0)) layers"
  obtain seen kept where sk: "foldl (see (coord_time s layers)) ([], []) (rev (flat_coords layers)) = (seen, kept)" by fastforce
  consider (none) "?ne = []" | (one) layer where "?ne = [layer]" | (many) "length ?ne > 1"
    by (cases ?ne rule: remdups_adj.cases) auto
  then show ?thesis
  proof cases
    case none
    then have "\<forall>layer \<in> set layers. \<forall>b \<in> set layer. rows b = []"
      by (simp add: filter_empty_conv list_ex_iff) (metis length_0_conv length_rows)
    then have "all_rows (concat layers) = []" by simp
    then show ?thesis using none by (simp add: merge_sst_layers_def newest_def)
  next
    case one
    then show ?thesis
      using dedupe_newest [OF assms(1,2), of layer] single_layer_rows [OF one] wf small by (simp add: merge_sst_layers_def)
  next
    case many
    have "num_rows b < 2 ^ 32" if "b \<in> set layer" "layer \<in> set layers" for b layer
    proof -
      have "num_rows b \<in> set (map num_rows (concat layers))" using that by auto
      then have "num_rows b \<le> sum_list (map num_rows (concat layers))" by (intro member_le_sum_list) simp_all
      then show ?thesis using small by (simp add: length_concat comp_def)
    qed
    then have wf': "\<forall>layer \<in> set layers. batches_wf s layer \<and> (\<forall>b \<in> set layer. num_rows b < 2 ^ 32)" using wf by blast
    obtain layer b where "layer \<in> set layers" "b \<in> set layer" "num_rows b > 0"
    proof -
      have "?ne \<noteq> []" using many by auto
      then show thesis using that hd_in_set [of ?ne] by (auto simp: list_ex_iff)
    qed
    moreover from this(3) have "rows b \<noteq> []" by (metis length_greater_0_conv length_rows)
    ultimately have "all_rows (concat layers) \<noteq> []" by auto
    then have ne: "flat_coords layers \<noteq> []" using flat_coords_rows [of layers] by auto
    note see = foldl_see [OF sk, unfolded set_rev]
    then have "kept \<noteq> []" using ne by auto
    have sub: "set kept \<subseteq> set (flat_coords layers)" and dist: "distinct (map (coord_time s layers) kept)" using see by blast+
    obtain b where "materialize_kept_rows K hash_order layers kept s = Inr [b]" "batch_wf s b"
      "rows b = newest (row_time s) (map (coord3_row layers) kept)"
      using materialize_rows [OF assms(1-3) wf' sub \<open>kept \<noteq> []\<close> dist] by blast
    moreover have "merge_sst_layers K hash_order layers s = materialize_kept_rows K hash_order layers kept s"
    proof -
      have "?ne \<noteq> []" "length ?ne \<noteq> 1" using many by auto
      moreover have "scan_layers layers (rev [0..<length layers]) ([], []) = Inr (seen, kept)"
        using scan_all_layers [OF assms(2) wf] sk by simp
      ultimately show ?thesis using \<open>kept \<noteq> []\<close> by (simp add: merge_sst_layers_def)
    qed
    ultimately show ?thesis using kept_newest [OF sk] by simp
  qed
qed

section \<open>Chunks of sorted writes\<close>

lemma time_ordered_loop_wf:
  assumes "schema_wf s"
  shows "batches_wf s bs \<Longrightarrow> \<forall>b \<in> set bs. sorted (map (row_time s) (rows b)) \<Longrightarrow>
    time_ordered_loop bs prev = ordered_loop bs prev"
proof (induction bs arbitrary: prev)
  case (Cons b bs)
  show ?case
  proof (cases "num_rows b = 0")
    case True
    then show ?thesis using Cons by simp
  next
    case False
    define ts where "ts = map (row_time s) (rows b)"
    have wf: "batch_wf s b" and srt: "sorted ts" using Cons.prems by (simp_all add: ts_def)
    have len: "length ts = num_rows b" by (simp add: ts_def)
    have strict: "sorted_wrt (<) ts \<longleftrightarrow> distinct ts" using srt by (simp add: strict_sorted_iff)
    have vals: "time_value_at (rb_columns b ! time_idx s) r = Inr (ts ! r)" if "r < num_rows b" for r
      using time_value_wf [OF assms wf that] that by (simp add: ts_def)
    have "ts ! 0 \<le> ts ! (num_rows b - 1)" using False len by (intro sorted_nth_mono [OF srt]) auto
    then show ?thesis
      using False Cons wf assms time_values_wf [OF assms wf, folded ts_def] has_duplicate_wf [OF assms wf, folded ts_def]
        vals [of 0] vals [of "num_rows b - 1"]
      by (simp add: batch_wf_schema schema_wf_idx windows2_less strict len)
  qed
qed simp

lemma sort_all_strict:
  assumes "kernels_ok K" and "schema_wf s"
  shows "batches_wf s bs \<Longrightarrow> \<forall>b \<in> set bs. sorted_wrt (<) (map (row_time s) (rows b)) \<Longrightarrow>
    \<exists>out. sort_all K bs = Inr out \<and> batches_wf s out \<and> all_rows out = all_rows bs"
proof (induction bs)
  case (Cons b bs)
  obtain b' where b': "sort_batch_by_time K b = Inr b'" "batch_wf s b'" "rows b' = newest (row_time s) (rows b)"
    using sort_newest [OF assms, of b] Cons.prems by (auto simp: strict_sorted_iff)
  obtain out where "sort_all K bs = Inr out" "batches_wf s out" "all_rows out = all_rows bs" using Cons by auto
  then show ?case using b' Cons.prems by (simp add: newest_idem)
qed simp

lemma strict_concat: "sorted_wrt P (concat xss) \<Longrightarrow> xs \<in> set xss \<Longrightarrow> sorted_wrt P xs"
  by (induction xss) (auto simp: sorted_wrt_append)

lemma prepare_scan_sorted:
  assumes "kernels_ok K" and "schema_wf s" and "batches_wf s bs" and "length (all_rows bs) < 2 ^ 32"
    and "\<forall>b \<in> set bs. sorted (map (row_time s) (rows b))"
  shows "\<exists>out. prepare_scan_batches K bs s = Inr out \<and> batches_wf s out \<and> all_rows out = newest (row_time s) (all_rows bs)"
proof -
  let ?ne = "non_empty_batches bs" and ?k = "row_time s"
  have wf: "batches_wf s ?ne" and srt: "\<forall>b \<in> set ?ne. sorted (map ?k (rows b))"
    using non_empty_wf [OF assms(3)] assms(5) by (auto simp: non_empty_batches_def)
  note dd = dedupe_newest [OF assms(1,2) wf, unfolded non_empty_rows, OF assms(4)]
  consider (none) "?ne = []" | (one) b where "?ne = [b]" | (many) "?ne \<noteq> []" "length ?ne \<noteq> 1"
    by (metis One_nat_def length_0_conv length_Suc_conv)
  then show ?thesis
  proof cases
    case none
    then have "all_rows bs = []" using non_empty_rows [of bs] by simp
    then show ?thesis using none by (simp add: prepare_scan_batches_def newest_def)
  next
    case one
    then have b: "rows b = all_rows bs" "batch_wf s b" using non_empty_rows [of bs] wf by auto
    show ?thesis
    proof (cases "distinct (map ?k (rows b))")
      case True
      then obtain b' where "sort_batch_by_time K b = Inr b'" "batch_wf s b'" "rows b' = newest ?k (rows b)"
        using sort_newest [OF assms(1,2) b(2)] by blast
      then show ?thesis using True one b has_duplicate_wf [OF assms(2) b(2)] by (simp add: prepare_scan_batches_def)
    next
      case False
      then show ?thesis using one b dd has_duplicate_wf [OF assms(2) b(2)] by (simp add: prepare_scan_batches_def)
    qed
  next
    case many
    have ord: "batches_are_time_ordered ?ne = Inr (sorted_wrt (<) (map ?k (all_rows bs)))"
      using time_ordered_loop_wf [OF assms(2) wf srt, of None] ordered_loop_wf [OF assms(2) wf, of None]
      by (simp add: batches_are_time_ordered_def non_empty_rows)
    show ?thesis
    proof (cases "sorted_wrt (<) (map ?k (all_rows bs))")
      case True
      have "sorted_wrt (<) (concat (map (map ?k \<circ> rows) ?ne))" 
        using True unfolding non_empty_rows [of bs, symmetric] by (simp add: map_concat)
      then have "\<forall>b \<in> set ?ne. sorted_wrt (<) (map ?k (rows b))" using strict_concat by fastforce
      then obtain out where "sort_all K ?ne = Inr out" "batches_wf s out" "all_rows out = all_rows ?ne"
        using sort_all_strict [OF assms(1,2) wf] by blast
      then show ?thesis using many ord True by (simp add: prepare_scan_batches_def non_empty_rows newest_idem)
    next
      case False
      then show ?thesis using many ord dd by (simp add: prepare_scan_batches_def)
    qed
  qed
qed

section \<open>Properties\<close>

text \<open>
  C24. The plan by which a memtable is flushed is correct. Whatever the order and the duplicates among the
  chunks of a memtable, \<open>plan_flush\<close> succeeds, and its output, either the chunks themselves or the
  windows the sorted plan materializes one at a time, contains for every timestamp of the chunks exactly
  the row written last, in strictly increasing order of time. The windowed output ends, for every
  configured window size, and no window is empty or larger than the window size (at least one row).
\<close>
theorem flush_plan_newest_wins:
  assumes "kernels_ok K" and "schema_wf s" and "batches_wf s bs" and "all_rows bs \<noteq> []"
    and "length bs < 2 ^ 32" and "\<forall>b \<in> set bs. num_rows b < 2 ^ 32"
  shows "(\<exists>out. plan_flush bs s = Inr (Streaming out) \<and> batches_wf s out \<and> all_rows out = newest (row_time s) (all_rows bs)) \<or>
    (\<exists>sf. plan_flush bs s = Inr (Sorted sf) \<and> (\<forall>window. \<exists>out.
       sb_collect K (window_batches window sf) = Some (Inr out) \<and> batches_wf s out \<and>
       all_rows out = newest (row_time s) (all_rows bs) \<and> (\<forall>b \<in> set out. 0 < num_rows b \<and> num_rows b \<le> max window 1)))"
  by (rule plan_flush_newest [OF assms])

lemma demo_newest:
  "newest (row_time demo_schema) [[SInt 1, SInt 0], [SInt 5, SInt 1], [SInt 3, SInt 2], [SInt 5, SInt 9]] =
     [[SInt 1, SInt 0], [SInt 3, SInt 2], [SInt 5, SInt 9]]"
  by (rule newest_unique [symmetric]) (auto simp: demo_batch_rows newest_at_def)

theorem flush_plan_newest_wins_witness:
  "\<exists>sf. plan_flush [demo_batch [(1, 0), (5, 1), (3, 2)], demo_batch [(5, 9)]] demo_schema = Inr (Sorted sf) \<and>
     (\<exists>out. sb_collect list_kernels (window_batches 2 sf) = Some (Inr out) \<and>
       all_rows out = [[SInt 1, SInt 0], [SInt 3, SInt 2], [SInt 5, SInt 9]])"
proof -
  let ?bs = "[demo_batch [(1, 0), (5, 1), (3, 2)], demo_batch [(5, 9)]]"
  have "chunks_strictly_ordered ?bs = Inr False"
    using ordered_loop_wf [OF demo_schema_wf(1), of ?bs None]
    by (simp add: chunks_strictly_ordered_def demo_batch_rows)
  then have "plan_flush ?bs demo_schema \<noteq> Inr (Streaming out)" for out
    by (cases "sorted_flush_build ?bs demo_schema") (simp_all add: plan_flush_def non_empty_batches_def demo_batch_rows)
  moreover have "batches_wf demo_schema ?bs" "all_rows ?bs \<noteq> []" "length ?bs < 2 ^ 32" "\<forall>b \<in> set ?bs. num_rows b < 2 ^ 32"
    by (simp_all add: demo_batch_rows)
  ultimately obtain sf where "plan_flush ?bs demo_schema = Inr (Sorted sf)" "\<exists>out. sb_collect list_kernels (window_batches 2 sf) = Some (Inr out) \<and>
      all_rows out = newest (row_time demo_schema) (all_rows ?bs)"
    using flush_plan_newest_wins [OF list_kernels_ok demo_schema_wf(1), of ?bs] by blast
  then show ?thesis by (simp add: demo_batch_rows demo_newest)
qed

text \<open>
  C26. The merge of LSM layers is correct. For layers given from old to new,
  \<open>merge_sst_layers\<close> succeeds and returns for every timestamp exactly the row of the newest layer, and within a layer
  of the latest batch and row, in strictly increasing order of time. The result does not depend on the
  order in which the hash map of kept rows is iterated.
\<close>
theorem merge_layers_newest_wins:
  assumes "kernels_ok K" and "schema_wf s" and "\<And>gs. mset (hash_order gs) = mset gs"
    and "\<forall>layer \<in> set layers. batches_wf s layer" and "length (all_rows (concat layers)) < 2 ^ 32"
  shows "\<exists>out. merge_sst_layers K hash_order layers s = Inr out \<and> batches_wf s out \<and>
    all_rows out = newest (row_time s) (all_rows (concat layers))"
  by (rule merge_layers_newest [OF assms])

theorem merge_layers_newest_wins_witness:
  "\<exists>out. merge_sst_layers list_kernels rev [[demo_batch [(1, 0), (5, 1), (3, 2)]], [demo_batch [(5, 9)]]] demo_schema = Inr out \<and>
     all_rows out = [[SInt 1, SInt 0], [SInt 3, SInt 2], [SInt 5, SInt 9]]"
  using merge_layers_newest_wins [OF list_kernels_ok demo_schema_wf(1), of rev
      "[[demo_batch [(1, 0), (5, 1), (3, 2)]], [demo_batch [(5, 9)]]]"]
  by (auto simp: demo_batch_rows demo_newest)

text \<open>
  C27. Deduplication of the batches of one layer is correct: the output of
  \<open>dedupe_batches_newest_wins\<close> contains for every timestamp exactly the row written last, in strictly
  increasing order of time.
\<close>
theorem dedupe_batches_correct:
  assumes "kernels_ok K" and "schema_wf s" and "batches_wf s bs" and "length (all_rows bs) < 2 ^ 32"
  shows "\<exists>out. dedupe_batches_newest_wins K bs s = Inr out \<and> batches_wf s out \<and>
    all_rows out = newest (row_time s) (all_rows bs)"
  by (rule dedupe_newest [OF assms])

theorem dedupe_batches_correct_witness:
  "\<exists>out. dedupe_batches_newest_wins list_kernels [demo_batch [(1, 0), (5, 1), (3, 2)], demo_batch [(5, 9)]] demo_schema = Inr out \<and>
     all_rows out = [[SInt 1, SInt 0], [SInt 3, SInt 2], [SInt 5, SInt 9]]"
  using dedupe_batches_correct [OF list_kernels_ok demo_schema_wf(1),
      of "[demo_batch [(1, 0), (5, 1), (3, 2)], demo_batch [(5, 9)]]"]
  by (auto simp: demo_batch_rows demo_newest)

text \<open>
  C28. The preparation of memtable chunks for a scan is correct when every chunk is sorted by time: the
  prepared batches contain for every timestamp exactly the row written last, in strictly increasing order.
\<close>
theorem scan_of_sorted_chunks:
  assumes "kernels_ok K" and "schema_wf s" and "batches_wf s bs" and "length (all_rows bs) < 2 ^ 32"
    and "\<forall>b \<in> set bs. sorted (map (row_time s) (rows b))"
  shows "\<exists>out. prepare_scan_batches K bs s = Inr out \<and> batches_wf s out \<and> all_rows out = newest (row_time s) (all_rows bs)"
  by (rule prepare_scan_sorted [OF assms])

theorem scan_of_sorted_chunks_witness:
  "\<exists>out. prepare_scan_batches list_kernels [demo_batch [(1, 0), (5, 1)], demo_batch [(3, 2), (5, 9)]] demo_schema = Inr out \<and>
     all_rows out = [[SInt 1, SInt 0], [SInt 3, SInt 2], [SInt 5, SInt 9]]"
  using scan_of_sorted_chunks [OF list_kernels_ok demo_schema_wf(1),
      of "[demo_batch [(1, 0), (5, 1)], demo_batch [(3, 2), (5, 9)]]"]
  by (auto simp: demo_batch_rows demo_newest)

text \<open>
  C29. A memtable chunk that holds several writes need not be sorted, and then the preparation of a scan is
  wrong. The check for ordered chunks compares only the first and the last time of each chunk. For a chunk
  with the times 1, 5, 3 (a write of 1 and 5 followed by a write of 3) and a chunk with a later write of
  time 5, both rows of time 5 are returned, the overwritten one first.
\<close>
theorem scan_of_unsorted_chunk_returns_overwritten:
  "\<exists>out. prepare_scan_batches list_kernels [demo_batch [(1, 0), (5, 1), (3, 2)], demo_batch [(5, 9)]] demo_schema = Inr out \<and>
     all_rows out = [[SInt 1, SInt 0], [SInt 3, SInt 2], [SInt 5, SInt 1], [SInt 5, SInt 9]]"
proof -
  let ?a = "demo_batch [(1, 0), (5, 1), (3, 2)]" and ?b = "demo_batch [(5, 9)]"
  have nd: "batch_has_duplicate_timestamps ?a = Inr False" "batch_has_duplicate_timestamps ?b = Inr False"
    using has_duplicate_wf [OF demo_schema_wf(1)] by (simp_all add: demo_batch_rows)
  have tv: "time_value_at (rb_columns (demo_batch ps) ! 0) r = Inr (fst (ps ! r))" if "r < length ps" for ps r
    using that by (simp add: time_value_at_def demo_batch_def)
  have "batches_are_time_ordered [?a, ?b] = Inr True"
    using schema_wf_idx(1) [OF demo_schema_wf(1)] batch_wf_schema [OF demo_batch_wf]
    by (simp add: batches_are_time_ordered_def nd demo_batch_rows tv demo_schema_wf)
  moreover obtain a' where "sort_batch_by_time list_kernels ?a = Inr a'" "batch_wf demo_schema a'"
    "rows a' = newest (row_time demo_schema) (rows ?a)"
    using sort_newest [OF list_kernels_ok demo_schema_wf(1), of ?a] by (auto simp: demo_batch_rows)
  moreover obtain b' where "sort_batch_by_time list_kernels ?b = Inr b'" "batch_wf demo_schema b'"
    "rows b' = newest (row_time demo_schema) (rows ?b)"
    using sort_newest [OF list_kernels_ok demo_schema_wf(1), of ?b] by (auto simp: demo_batch_rows)
  moreover have "newest (row_time demo_schema) (rows ?a) = [[SInt 1, SInt 0], [SInt 3, SInt 2], [SInt 5, SInt 1]]"
    by (rule newest_unique [symmetric]) (auto simp: demo_batch_rows newest_at_def)
  moreover have "newest (row_time demo_schema) (rows ?b) = [[SInt 5, SInt 9]]"
    by (rule newest_unique [symmetric]) (auto simp: demo_batch_rows newest_at_def)
  ultimately show ?thesis
    by (simp add: prepare_scan_batches_def non_empty_batches_def demo_batch_rows)
qed

end
