(* ===== verification/Memtable.thy ===== *)
theory Memtable
  imports Batch Budget
begin

text \<open>
  The write buffer of a table (\<^verbatim>\<open>src/src/storage/src/memtable/builders.rs\<close>, \<^verbatim>\<open>table.rs\<close>): a buffer that
  cuts the incoming batches into chunks of a fixed number of rows, and the memtable around it with its
  sealed chunks, its LSN span and its charge on the memory controller. An operation returns its result
  and the state it leaves behind, also when it fails. \<open>mem\<close> is \<^verbatim>\<open>RecordBatch::get_array_memory_size\<close>.
\<close>

section \<open>Batch buffer\<close>

record batch_buffer =
  bb_schema :: schema
  bb_buffer :: "record_batch list"
  bb_rows :: nat
  bb_capacity :: nat

definition coalesce_batches :: "kernels \<Rightarrow> schema \<Rightarrow> record_batch list \<Rightarrow> record_batch list res" where
  "coalesce_batches K s batches =
     (case batches of
        [] \<Rightarrow> Inr []
      | [b] \<Rightarrow> Inr [b]
      | _ \<Rightarrow> (case k_concat K s batches of None \<Rightarrow> Inl (Arrow ''concat_batches'') | Some b \<Rightarrow> Inr [b]))"

definition buffer_new :: "schema \<Rightarrow> nat \<Rightarrow> batch_buffer" where
  "buffer_new s capacity = \<lparr>bb_schema = s, bb_buffer = [], bb_rows = 0, bb_capacity = max capacity 1\<rparr>"

definition buffer_is_empty :: "batch_buffer \<Rightarrow> bool" where
  "buffer_is_empty bb \<longleftrightarrow> bb_rows bb = 0"

definition buffer_ram_cost :: "(record_batch \<Rightarrow> nat) \<Rightarrow> batch_buffer \<Rightarrow> nat" where
  "buffer_ram_cost mem bb = sum_list (map mem (bb_buffer bb))"

text \<open>The loop of \<^verbatim>\<open>extract_capacity_batch\<close>: the collected pieces and what stays in the buffer.\<close>

fun take_front :: "kernels \<Rightarrow> nat \<Rightarrow> record_batch list \<Rightarrow> record_batch list \<times> record_batch list" where
  "take_front K needed [] = ([], [])"
| "take_front K needed (front # buf) =
     (if needed = 0 then ([], front # buf)
      else if num_rows front \<le> needed
      then (let (chunks, rest) = take_front K (needed - num_rows front) buf in (front # chunks, rest))
      else ([k_slice K front 0 needed], k_slice K front needed (num_rows front - needed) # buf))"

definition extract_capacity_batch :: "kernels \<Rightarrow> batch_buffer \<Rightarrow> record_batch res \<times> batch_buffer" where
  "extract_capacity_batch K bb =
     (let (chunks, rest) = take_front K (bb_capacity bb) (bb_buffer bb);
          bb' = bb\<lparr>bb_buffer := rest, bb_rows := bb_rows bb - bb_capacity bb\<rparr>
      in (case k_concat K (bb_schema bb) chunks of
            None \<Rightarrow> (Inl (Arrow ''concat_batches''), bb')
          | Some b \<Rightarrow> (Inr b, bb')))"

partial_function (option) emit_loop ::
  "kernels \<Rightarrow> record_batch list \<Rightarrow> batch_buffer \<Rightarrow> (record_batch list res \<times> batch_buffer) option" where
  "emit_loop K completed bb =
     (if bb_rows bb \<ge> bb_capacity bb
      then let r = extract_capacity_batch K bb in
           if isl (fst r) then Some (Inl (projl (fst r)), snd r)
           else emit_loop K (completed @ [projr (fst r)]) (snd r)
      else Some (Inr completed, bb))"

definition buffer_append_batch ::
  "kernels \<Rightarrow> record_batch \<Rightarrow> batch_buffer \<Rightarrow> (record_batch list res \<times> batch_buffer) option" where
  "buffer_append_batch K b bb =
     (if num_rows b = 0 then Some (Inr [], bb)
      else if rb_schema b \<noteq> bb_schema bb then Some (Inl (Schema ''Memtable batch schema mismatch''), bb)
      else emit_loop K [] (bb\<lparr>bb_buffer := bb_buffer bb @ [b], bb_rows := bb_rows bb + num_rows b\<rparr>))"

definition buffer_finish :: "kernels \<Rightarrow> batch_buffer \<Rightarrow> record_batch option res \<times> batch_buffer" where
  "buffer_finish K bb =
     (if buffer_is_empty bb then (Inr None, bb)
      else (case k_concat K (bb_schema bb) (bb_buffer bb) of
              None \<Rightarrow> (Inl (Arrow ''concat_batches''), bb)
            | Some b \<Rightarrow> (Inr (Some b), bb\<lparr>bb_buffer := [], bb_rows := 0\<rparr>)))"

section \<open>Memtable\<close>

record mem_table =
  mt_id :: u64
  mt_schema :: schema
  mt_frozen :: "record_batch list"
  mt_active :: batch_buffer
  mt_frozen_ram :: nat
  mt_charged :: nat
  mt_ram :: nat
  mt_base_lsn :: u64
  mt_max_lsn :: u64
  mt_max_size :: nat
  mt_target :: nat

record mem_layout =
  ml_total_rows :: nat
  ml_full_chunks :: nat
  ml_tail_rows :: nat
  ml_chunk_size :: nat
  ml_ram_cost :: nat
  ml_charged_bytes :: nat

definition with_target_batch_size :: "u64 \<Rightarrow> schema \<Rightarrow> nat \<Rightarrow> nat \<Rightarrow> mem_table" where
  "with_target_batch_size i s max_size target =
     (let t = max target 1 in
      \<lparr>mt_id = i, mt_schema = s, mt_frozen = [], mt_active = buffer_new s t, mt_frozen_ram = 0, mt_charged = 0,
       mt_ram = 0, mt_base_lsn = 0, mt_max_lsn = 0, mt_max_size = max_size, mt_target = t\<rparr>)"

definition memtable_new :: "u64 \<Rightarrow> schema \<Rightarrow> nat \<Rightarrow> nat \<Rightarrow> mem_table" where
  "memtable_new i s max_size batch_max_rows = with_target_batch_size i s max_size (max batch_max_rows 1)"

definition record_lsn :: "u64 \<Rightarrow> mem_table \<Rightarrow> mem_table" where
  "record_lsn lsn t =
     (if lsn = 0 then t
      else t\<lparr>mt_max_lsn := max (mt_max_lsn t) lsn,
             mt_base_lsn := (if mt_base_lsn t = 0 \<or> lsn < mt_base_lsn t then lsn else mt_base_lsn t)\<rparr>)"

definition lsn_span :: "mem_table \<Rightarrow> u64 \<times> u64" where
  "lsn_span t =
     (let base = mt_base_lsn t; mx = mt_max_lsn t in
      if base = 0 \<and> mx = 0 then (0, 0)
      else if mx < base then (base, base)
      else (base, mx))"

definition sync_charged_to_ram ::
  "bool \<Rightarrow> mem_table \<Rightarrow> memory_controller \<Rightarrow> unit res \<times> mem_table \<times> memory_controller" where
  "sync_charged_to_ram allow_reserve t m =
     (let ram = mt_ram t; charged = mt_charged t in
      if ram = charged then (Inr (), t, m)
      else if ram > charged
      then (let delta = ram - charged in
            if \<not> allow_reserve then (Inr (), t\<lparr>mt_charged := ram\<rparr>, reserve_unchecked delta m)
            else (case try_reserve delta m of
                    (False, m') \<Rightarrow> (Inl (MemoryLimitExceeded (used_bytes m') (limit_bytes m')), t, m')
                  | (True, m') \<Rightarrow> (Inr (), t\<lparr>mt_charged := ram\<rparr>, m')))
      else (Inr (), t\<lparr>mt_charged := ram\<rparr>, mem_release (charged - ram) m))"

text \<open>
  An insert holds the lock of the active buffer only for \<open>insert_append\<close>; the chunks it cut are published
  by \<open>insert_publish\<close> after that lock is released.
\<close>

definition insert_append ::
  "kernels \<Rightarrow> (record_batch \<Rightarrow> nat) \<Rightarrow> record_batch \<Rightarrow> mem_table \<Rightarrow>
   ((record_batch list \<times> nat) res \<times> mem_table) option" where
  "insert_append K mem b t =
     (case buffer_append_batch K b (mt_active t) of
        None \<Rightarrow> None
      | Some (Inl e, bb) \<Rightarrow> Some (Inl e, t\<lparr>mt_active := bb\<rparr>)
      | Some (Inr frozen, bb) \<Rightarrow> Some (Inr (frozen, buffer_ram_cost mem bb), t\<lparr>mt_active := bb\<rparr>))"

definition insert_publish ::
  "(record_batch \<Rightarrow> nat) \<Rightarrow> record_batch list \<Rightarrow> nat \<Rightarrow> mem_table \<Rightarrow> memory_controller \<Rightarrow>
   bool res \<times> mem_table \<times> memory_controller" where
  "insert_publish mem new_frozen active_ram t m =
     (let t1 = (if new_frozen \<noteq> []
                then t\<lparr>mt_frozen_ram := mt_frozen_ram t + sum_list (map mem new_frozen),
                       mt_frozen := mt_frozen t @ new_frozen\<rparr>
                else t);
          t2 = t1\<lparr>mt_ram := mt_frozen_ram t1 + active_ram\<rparr>
      in (case sync_charged_to_ram True t2 m of
            (Inl e, t3, m3) \<Rightarrow> (Inl e, t3, m3)
          | (Inr _, t3, m3) \<Rightarrow> (Inr (mt_ram t3 \<ge> mt_max_size t3), t3, m3)))"

definition insert_for_table ::
  "kernels \<Rightarrow> (record_batch \<Rightarrow> nat) \<Rightarrow> record_batch \<Rightarrow> mem_table \<Rightarrow> memory_controller \<Rightarrow>
   (bool res \<times> mem_table \<times> memory_controller) option" where
  "insert_for_table K mem b t m =
     (if num_rows b = 0 then Some (Inr False, t, m)
      else if rb_schema b \<noteq> mt_schema t
      then Some (Inl (Schema ''memtable batch schema mismatch with table schema''), t, m)
      else (case insert_append K mem b t of
              None \<Rightarrow> None
            | Some (Inl e, t') \<Rightarrow> Some (Inl e, t', m)
            | Some (Inr (new_frozen, active_ram), t') \<Rightarrow> Some (insert_publish mem new_frozen active_ram t' m)))"

definition flush_active_buffer ::
  "kernels \<Rightarrow> (record_batch \<Rightarrow> nat) \<Rightarrow> mem_table \<Rightarrow> unit res \<times> mem_table" where
  "flush_active_buffer K mem t =
     (case buffer_finish K (mt_active t) of
        (Inl e, bb) \<Rightarrow> (Inl e, t\<lparr>mt_active := bb\<rparr>)
      | (Inr tail, bb) \<Rightarrow>
          let t1 = t\<lparr>mt_active := bb, mt_ram := mt_frozen_ram t\<rparr> in
          (case tail of
             None \<Rightarrow> (Inr (), t1)
           | Some b \<Rightarrow> (Inr (), t1\<lparr>mt_frozen_ram := mt_frozen_ram t1 + mem b, mt_ram := mt_ram t1 + mem b,
                                   mt_frozen := mt_frozen t1 @ [b]\<rparr>)))"

definition seal ::
  "kernels \<Rightarrow> (record_batch \<Rightarrow> nat) \<Rightarrow> mem_table \<Rightarrow> memory_controller \<Rightarrow> unit res \<times> mem_table \<times> memory_controller" where
  "seal K mem t m =
     (case flush_active_buffer K mem t of
        (Inl e, t') \<Rightarrow> (Inl e, t', m)
      | (Inr _, t') \<Rightarrow> sync_charged_to_ram False t' m)"

definition layout :: "mem_table \<Rightarrow> mem_layout" where
  "layout t =
     (let size = mt_target t;
          full = filter (\<lambda>b. num_rows b = size) (mt_frozen t);
          other = filter (\<lambda>b. num_rows b \<noteq> size) (mt_frozen t)
      in \<lparr>ml_total_rows = sum_list (map num_rows (mt_frozen t)) + bb_rows (mt_active t),
          ml_full_chunks = length full,
          ml_tail_rows = bb_rows (mt_active t) + sum_list (map num_rows other),
          ml_chunk_size = size, ml_ram_cost = mt_ram t, ml_charged_bytes = mt_charged t\<rparr>)"

definition snapshot_chunks ::
  "kernels \<Rightarrow> (record_batch \<Rightarrow> nat) \<Rightarrow> mem_table \<Rightarrow> memory_controller \<Rightarrow>
   (record_batch list \<times> mem_layout) res \<times> mem_table \<times> memory_controller" where
  "snapshot_chunks K mem t m =
     (case seal K mem t m of
        (Inl e, t', m') \<Rightarrow> (Inl e, t', m')
      | (Inr _, t', m') \<Rightarrow> (Inr (mt_frozen t', layout t'), t', m'))"

definition release_memory ::
  "kernels \<Rightarrow> mem_table \<Rightarrow> memory_controller \<Rightarrow> mem_table \<times> memory_controller" where
  "release_memory K t m =
     (t\<lparr>mt_charged := 0, mt_ram := 0, mt_frozen_ram := 0, mt_active := snd (buffer_finish K (mt_active t)),
        mt_frozen := []\<rparr>,
      if mt_charged t > 0 then mem_release (mt_charged t) m else m)"

definition drop_memtable :: "mem_table \<Rightarrow> memory_controller \<Rightarrow> memory_controller" where
  "drop_memtable t m = (if mt_charged t > 0 then mem_release (mt_charged t) m else m)"

fun insert_each ::
  "kernels \<Rightarrow> (record_batch \<Rightarrow> nat) \<Rightarrow> record_batch list \<Rightarrow> mem_table \<Rightarrow> memory_controller \<Rightarrow>
   (unit res \<times> mem_table \<times> memory_controller) option" where
  "insert_each K mem [] t m = Some (Inr (), t, m)"
| "insert_each K mem (b # bs) t m =
     (case insert_for_table K mem b t m of
        None \<Rightarrow> None
      | Some (Inl e, t', m') \<Rightarrow> Some (Inl e, t', m')
      | Some (Inr _, t', m') \<Rightarrow> insert_each K mem bs t' m')"

text \<open>A memtable that is not returned is dropped.\<close>

definition from_batches ::
  "kernels \<Rightarrow> (record_batch \<Rightarrow> nat) \<Rightarrow> u64 \<Rightarrow> schema \<Rightarrow> nat \<Rightarrow> nat \<Rightarrow> record_batch list \<Rightarrow> memory_controller \<Rightarrow>
   (mem_table res \<times> memory_controller) option" where
  "from_batches K mem i s max_size batch_max_rows batches m =
     (let t = memtable_new i s max_size batch_max_rows in
      if batches = [] then Some (Inr t, m)
      else (case coalesce_batches K s batches of
              Inl e \<Rightarrow> Some (Inl e, drop_memtable t m)
            | Inr coalesced \<Rightarrow>
                (case insert_each K mem coalesced t m of
                   None \<Rightarrow> None
                 | Some (Inl e, t', m') \<Rightarrow> Some (Inl e, drop_memtable t' m')
                 | Some (Inr _, t', m') \<Rightarrow> Some (Inr t', m'))))"

section \<open>Rows\<close>

text \<open>The rows of a memtable in the order they were written, and its invariant.\<close>

definition mt_rows :: "mem_table \<Rightarrow> row list" where
  "mt_rows t = all_rows (mt_frozen t) @ all_rows (bb_buffer (mt_active t))"

definition buffer_inv :: "schema \<Rightarrow> nat \<Rightarrow> batch_buffer \<Rightarrow> bool" where
  "buffer_inv s n bb \<longleftrightarrow> bb_schema bb = s \<and> bb_capacity bb = n \<and> 0 < n \<and> batches_wf s (bb_buffer bb) \<and>
     bb_rows bb = length (all_rows (bb_buffer bb))"

definition mt_inv :: "schema \<Rightarrow> mem_table \<Rightarrow> bool" where
  "mt_inv s t \<longleftrightarrow> mt_schema t = s \<and> buffer_inv s (mt_target t) (mt_active t) \<and>
     bb_rows (mt_active t) < mt_target t \<and> batches_wf s (mt_frozen t) \<and>
     (\<forall>b \<in> set (mt_frozen t). num_rows b \<le> mt_target t)"

lemma take_front_rows:
  assumes "kernels_ok K"
  shows "batches_wf s buf \<Longrightarrow> needed \<le> length (all_rows buf) \<Longrightarrow> take_front K needed buf = (cs, rest) \<Longrightarrow>
    batches_wf s cs \<and> batches_wf s rest \<and> all_rows cs = take needed (all_rows buf) \<and>
    all_rows rest = drop needed (all_rows buf)"
proof (induction buf arbitrary: needed cs rest)
  case (Cons front buf)
  consider "needed = 0" | "needed \<noteq> 0" "num_rows front \<le> needed" | "needed \<noteq> 0" "needed < num_rows front"
    by linarith
  then show ?case
  proof cases
    case 2
    obtain cs' where tf: "take_front K (needed - num_rows front) buf = (cs', rest)" and cs: "cs = front # cs'"
      using Cons.prems(3) 2 by (auto split: prod.splits)
    show ?thesis
      using Cons.IH [OF _ _ tf] Cons.prems(1,2) 2 cs by (simp add: le_diff_conv add.commute)
  next
    case 3
    then show ?thesis
      using Cons.prems slice_rows [OF assms, of s front 0 needed]
        slice_rows [OF assms, of s front needed "num_rows front - needed"] by auto
  qed (use Cons.prems in auto)
qed simp

lemma extract_rows:
  assumes "kernels_ok K" and "buffer_inv s n bb" and "n \<le> bb_rows bb"
  obtains b bb' where "extract_capacity_batch K bb = (Inr b, bb')" and "buffer_inv s n bb'"
    and "batch_wf s b" and "num_rows b = n" and "rows b @ all_rows (bb_buffer bb') = all_rows (bb_buffer bb)"
    and "bb_rows bb' = bb_rows bb - n"
proof -
  obtain cs rest where tf: "take_front K n (bb_buffer bb) = (cs, rest)" by fastforce
  have bb: "bb_capacity bb = n" "bb_schema bb = s" "0 < n" "batches_wf s (bb_buffer bb)"
    "bb_rows bb = length (all_rows (bb_buffer bb))" using assms(2) by (simp_all add: buffer_inv_def)
  note tr = take_front_rows [OF assms(1) bb(4) _ tf]
  have r: "batches_wf s cs" "batches_wf s rest" "all_rows cs = take n (all_rows (bb_buffer bb))"
    "all_rows rest = drop n (all_rows (bb_buffer bb))" using tr assms(3) bb(5) by auto
  have "length (all_rows cs) = n" using r(3) bb(5) assms(3) by simp
  then have "cs \<noteq> []" using bb(3) by auto
  then obtain b where b: "k_concat K s cs = Some b" "batch_wf s b" "rows b = all_rows cs"
    using concat_rows [OF assms(1) _ r(1)] by blast
  have "num_rows b = n"
    using arg_cong [OF b(3), of length] r(3) bb(5) assms(3) by simp
  then show ?thesis
    using that [of b "bb\<lparr>bb_buffer := rest, bb_rows := bb_rows bb - n\<rparr>"] b r bb tf
    by (simp add: extract_capacity_batch_def buffer_inv_def)
qed

text \<open>The extraction loop ends, and cuts the buffered rows into chunks of the capacity.\<close>

lemma emit_loop_rows:
  assumes "kernels_ok K"
  shows "buffer_inv s n bb \<Longrightarrow> \<exists>cs bb'. emit_loop K done bb = Some (Inr (done @ cs), bb') \<and>
    buffer_inv s n bb' \<and> bb_rows bb' < n \<and> batches_wf s cs \<and> (\<forall>c \<in> set cs. num_rows c = n) \<and>
    all_rows cs @ all_rows (bb_buffer bb') = all_rows (bb_buffer bb)"
proof (induction "bb_rows bb" arbitrary: bb "done" rule: less_induct)
  case less
  have n: "bb_capacity bb = n" "0 < n" using less.prems by (simp_all add: buffer_inv_def)
  show ?case
  proof (cases "n \<le> bb_rows bb")
    case True
    from extract_rows [OF assms less.prems this] obtain b bb' where
      x: "extract_capacity_batch K bb = (Inr b, bb')" "buffer_inv s n bb'" "batch_wf s b" "num_rows b = n"
        "rows b @ all_rows (bb_buffer bb') = all_rows (bb_buffer bb)" "bb_rows bb' = bb_rows bb - n" .
    have "bb_rows bb' < bb_rows bb" using x(6) True n by simp
    from less.hyps [OF this x(2), of "done @ [b]"] obtain cs bb2 where
      "emit_loop K (done @ [b]) bb' = Some (Inr (done @ b # cs), bb2)" "buffer_inv s n bb2" "bb_rows bb2 < n"
      "batches_wf s cs" "\<forall>c \<in> set cs. num_rows c = n"
      "all_rows cs @ all_rows (bb_buffer bb2) = all_rows (bb_buffer bb')" by auto
    then show ?thesis
      using x n True by (intro exI [of _ "b # cs"] exI [of _ bb2]) (simp add: emit_loop.simps [of K "done" bb])
  next
    case False
    then show ?thesis using less.prems n by (auto simp: emit_loop.simps)
  qed
qed

lemma append_rows:
  assumes "kernels_ok K" and "buffer_inv s n bb" and "batch_wf s b" and "bb_rows bb < n"
  obtains cs bb' where "buffer_append_batch K b bb = Some (Inr cs, bb')" and "buffer_inv s n bb'"
    and "bb_rows bb' < n" and "batches_wf s cs" and "\<forall>c \<in> set cs. num_rows c = n"
    and "all_rows cs @ all_rows (bb_buffer bb') = all_rows (bb_buffer bb) @ rows b"
proof (cases "num_rows b = 0")
  case True
  then have "rows b = []" by (simp add: rows_def)
  then show ?thesis using that [of "[]" bb] assms True by (simp add: buffer_append_batch_def)
next
  case False
  let ?bb = "bb\<lparr>bb_buffer := bb_buffer bb @ [b], bb_rows := bb_rows bb + num_rows b\<rparr>"
  have "buffer_inv s n ?bb" using assms(2,3) by (auto simp: buffer_inv_def)
  from emit_loop_rows [OF assms(1) this, of "[]"] show ?thesis
    using that False assms(2,3) by (auto simp: buffer_append_batch_def buffer_inv_def batch_wf_schema)
qed

lemma finish_rows:
  assumes "kernels_ok K" and "buffer_inv s n bb"
  obtains bs bb' where "buffer_finish K bb = (Inr (if bs = [] then None else Some (List.hd bs)), bb')"
    and "length bs \<le> 1" and "buffer_inv s n bb'" and "bb_rows bb' = 0" and "batches_wf s bs"
    and "all_rows bs = all_rows (bb_buffer bb)" and "all_rows (bb_buffer bb') = []"
proof (cases "bb_rows bb = 0")
  case True
  then show ?thesis using that [of "[]" bb] assms by (simp add: buffer_finish_def buffer_is_empty_def buffer_inv_def)
next
  case False
  have w: "batches_wf s (bb_buffer bb)" "bb_buffer bb \<noteq> []" "bb_schema bb = s"
    using assms(2) False by (auto simp: buffer_inv_def)
  from concat_rows [OF assms(1) w(2,1)] obtain b where
    "k_concat K s (bb_buffer bb) = Some b" "batch_wf s b" "rows b = all_rows (bb_buffer bb)" .
  then show ?thesis
    using that [of "[b]" "bb\<lparr>bb_buffer := [], bb_rows := 0\<rparr>"] False w assms(2)
    by (simp add: buffer_finish_def buffer_is_empty_def buffer_inv_def)
qed

section \<open>Memtable operations keep the rows\<close>

lemma sync_charge_only:
  assumes "sync_charged_to_ram a t m = (r, t', m')"
  shows "t' = t\<lparr>mt_charged := mt_charged t'\<rparr>" and "\<not> a \<Longrightarrow> r = Inr ()"
    and "r = Inl e \<Longrightarrow> e = MemoryLimitExceeded (used_bytes m') (limit_bytes m')"
  using assms by (auto simp: sync_charged_to_ram_def Let_def split: if_splits prod.splits bool.splits)

lemma charge_only_inv:
  assumes "t' = t\<lparr>mt_charged := c\<rparr>"
  shows "mt_inv s t' = mt_inv s t" and "mt_rows t' = mt_rows t" and "mt_target t' = mt_target t"
    and "mt_frozen t' = mt_frozen t" and "mt_active t' = mt_active t"
  using assms by (simp_all add: mt_inv_def mt_rows_def)

lemma publish_rows:
  assumes "insert_publish mem cs ram t m = (r, t', m')"
  shows "mt_frozen t' = mt_frozen t @ cs" and "mt_active t' = mt_active t" and "mt_schema t' = mt_schema t"
    and "mt_target t' = mt_target t"
    and "r = Inl e \<Longrightarrow> e = MemoryLimitExceeded (used_bytes m') (limit_bytes m')"
proof -
  let ?t1 = "if cs \<noteq> [] then t\<lparr>mt_frozen_ram := mt_frozen_ram t + sum_list (map mem cs), mt_frozen := mt_frozen t @ cs\<rparr> else t"
  let ?t2 = "?t1\<lparr>mt_ram := mt_frozen_ram ?t1 + ram\<rparr>"
  obtain r3 t3 m3 where sy: "sync_charged_to_ram True ?t2 m = (r3, t3, m3)" by (metis prod_cases3)
  have eq: "t' = t3" "m' = m3" "r = (case r3 of Inl e \<Rightarrow> Inl e | Inr _ \<Rightarrow> Inr (mt_ram t3 \<ge> mt_max_size t3))"
    using assms sy by (auto simp: insert_publish_def Let_def split: sum.splits)
  have "mt_frozen t3 = mt_frozen ?t2" "mt_active t3 = mt_active ?t2" "mt_schema t3 = mt_schema ?t2"
    "mt_target t3 = mt_target ?t2"
    by (subst sync_charge_only(1) [OF sy], simp)+
  then show "mt_frozen t' = mt_frozen t @ cs" "mt_active t' = mt_active t" "mt_schema t' = mt_schema t"
    "mt_target t' = mt_target t" by (simp_all add: eq)
  show "e = MemoryLimitExceeded (used_bytes m') (limit_bytes m')" if "r = Inl e"
    using that eq sync_charge_only(3) [OF sy, of e] by (simp split: sum.splits)
qed

lemma insert_append_rows:
  assumes "kernels_ok K" and "mt_inv s t" and "batch_wf s b"
  obtains cs bb where "insert_append K mem b t = Some (Inr (cs, buffer_ram_cost mem bb), t\<lparr>mt_active := bb\<rparr>)"
    and "buffer_inv s (mt_target t) bb" and "bb_rows bb < mt_target t" and "batches_wf s cs"
    and "\<forall>c \<in> set cs. num_rows c = mt_target t"
    and "all_rows cs @ all_rows (bb_buffer bb) = all_rows (bb_buffer (mt_active t)) @ rows b"
proof -
  have i: "buffer_inv s (mt_target t) (mt_active t)" "bb_rows (mt_active t) < mt_target t"
    using assms(2) by (simp_all add: mt_inv_def)
  from append_rows [OF assms(1) i(1) assms(3) i(2)] show ?thesis
    using that by (fastforce simp: insert_append_def)
qed

lemma insert_rows:
  assumes "kernels_ok K" and "mt_inv s t" and "batch_wf s b"
  obtains r t' m' where "insert_for_table K mem b t m = Some (r, t', m')" and "mt_inv s t'"
    and "mt_rows t' = mt_rows t @ rows b" and "mt_target t' = mt_target t"
    and "\<forall>e. r = Inl e \<longrightarrow> e = MemoryLimitExceeded (used_bytes m') (limit_bytes m')"
proof (cases "num_rows b = 0")
  case True
  then have "rows b = []" by (simp add: rows_def)
  then show ?thesis using that [of "Inr False" t m] assms True by (simp add: insert_for_table_def)
next
  case False
  from insert_append_rows [OF assms, of mem] obtain cs bb where
    a: "insert_append K mem b t = Some (Inr (cs, buffer_ram_cost mem bb), t\<lparr>mt_active := bb\<rparr>)"
      "buffer_inv s (mt_target t) bb" "bb_rows bb < mt_target t" "batches_wf s cs"
      "\<forall>c \<in> set cs. num_rows c = mt_target t"
      "all_rows cs @ all_rows (bb_buffer bb) = all_rows (bb_buffer (mt_active t)) @ rows b" .
  obtain r t' m' where p: "insert_publish mem cs (buffer_ram_cost mem bb) (t\<lparr>mt_active := bb\<rparr>) m = (r, t', m')"
    by (metis prod_cases3)
  note pr = publish_rows [OF p]
  have "insert_for_table K mem b t m = Some (r, t', m')"
    using False assms(2,3) a(1) p by (simp add: insert_for_table_def batch_wf_schema mt_inv_def)
  moreover have "mt_inv s t'" using assms(2) a pr by (auto simp: mt_inv_def)
  moreover have "mt_rows t' = mt_rows t @ rows b" using a(6) pr by (simp add: mt_rows_def)
  ultimately show ?thesis using that pr by simp
qed

lemma seal_rows:
  assumes "kernels_ok K" and "mt_inv s t"
  obtains t' m' where "seal K mem t m = (Inr (), t', m')" and "mt_inv s t'" and "mt_target t' = mt_target t"
    and "all_rows (mt_frozen t') = mt_rows t" and "all_rows (bb_buffer (mt_active t')) = []"
    and "bb_rows (mt_active t') = 0"
proof -
  have i: "buffer_inv s (mt_target t) (mt_active t)" using assms(2) by (simp add: mt_inv_def)
  from finish_rows [OF assms(1) i] obtain bs bb where
    f: "buffer_finish K (mt_active t) = (Inr (if bs = [] then None else Some (List.hd bs)), bb)" "length bs \<le> 1"
      "buffer_inv s (mt_target t) bb" "bb_rows bb = 0" "batches_wf s bs"
      "all_rows bs = all_rows (bb_buffer (mt_active t))" "all_rows (bb_buffer bb) = []" .
  have len: "num_rows b \<le> mt_target t" if "b \<in> set bs" for b
  proof -
    have "num_rows b \<le> length (all_rows bs)" using that by (cases bs) (use f(2) in auto)
    also have "\<dots> = bb_rows (mt_active t)" using i by (simp add: f(6) buffer_inv_def)
    finally show ?thesis using assms(2) by (simp add: mt_inv_def)
  qed
  obtain t1 where t1: "flush_active_buffer K mem t = (Inr (), t1)" "mt_frozen t1 = mt_frozen t @ bs"
      "mt_active t1 = bb" "mt_schema t1 = mt_schema t" "mt_target t1 = mt_target t"
    using f(1,2) by (cases bs) (simp_all add: flush_active_buffer_def Let_def)
  obtain r t' m' where sy: "sync_charged_to_ram False t1 m = (r, t', m')" by (metis prod_cases3)
  note c = charge_only_inv [OF sync_charge_only(1) [OF sy]]
  have "mt_inv s t1" using assms(2) t1 f len by (auto simp: mt_inv_def)
  then show ?thesis
    using that [of t' m'] t1 f sy sync_charge_only(2) [OF sy] c by (simp add: seal_def mt_rows_def)
qed

lemma layout_rows:
  assumes "mt_inv s t"
  shows "ml_total_rows (layout t) = length (mt_rows t)"
    and "ml_full_chunks (layout t) * ml_chunk_size (layout t) + ml_tail_rows (layout t) = length (mt_rows t)"
proof -
  have r: "length (all_rows bs) = sum_list (map num_rows bs)" for bs by (induction bs) auto
  have c: "sum_list (map num_rows bs) =
      length (filter (\<lambda>b. num_rows b = n) bs) * n + sum_list (map num_rows (filter (\<lambda>b. num_rows b \<noteq> n) bs))" for bs n
    by (induction bs) auto
  have b: "bb_rows (mt_active t) = length (all_rows (bb_buffer (mt_active t)))"
    using assms by (simp add: mt_inv_def buffer_inv_def)
  show "ml_total_rows (layout t) = length (mt_rows t)"
    unfolding layout_def Let_def mt_rows_def length_append r [symmetric] by (simp add: b)
  show "ml_full_chunks (layout t) * ml_chunk_size (layout t) + ml_tail_rows (layout t) = length (mt_rows t)"
    unfolding layout_def Let_def mt_rows_def length_append r using c [of "mt_frozen t" "mt_target t"] by (simp add: b r)
qed

lemma new_memtable_inv:
  "mt_inv s (memtable_new i s mx n)" "mt_rows (memtable_new i s mx n) = []" "mt_target (memtable_new i s mx n) = max n 1"
  by (simp_all add: memtable_new_def with_target_batch_size_def mt_inv_def mt_rows_def buffer_new_def buffer_inv_def
      Let_def)

text \<open>A history of a memtable: writes, LSN records and the seals of readers and of the flush.\<close>

datatype mem_op = MInsert record_batch | MRecord u64 | MSeal

fun mem_run ::
  "kernels \<Rightarrow> (record_batch \<Rightarrow> nat) \<Rightarrow> mem_op list \<Rightarrow> mem_table \<Rightarrow> memory_controller \<Rightarrow>
   (mem_table \<times> memory_controller) option" where
  "mem_run K mem [] t m = Some (t, m)"
| "mem_run K mem (MInsert b # ops) t m =
     Option.bind (insert_for_table K mem b t m) (\<lambda>(_, t', m'). mem_run K mem ops t' m')"
| "mem_run K mem (MRecord l # ops) t m = mem_run K mem ops (record_lsn l t) m"
| "mem_run K mem (MSeal # ops) t m = (case seal K mem t m of (_, t', m') \<Rightarrow> mem_run K mem ops t' m')"

fun inserted :: "mem_op list \<Rightarrow> record_batch list" where
  "inserted [] = []"
| "inserted (MInsert b # ops) = b # inserted ops"
| "inserted (_ # ops) = inserted ops"

lemma record_lsn_rows:
  "mt_inv s (record_lsn l t) = mt_inv s t" "mt_rows (record_lsn l t) = mt_rows t"
  "mt_target (record_lsn l t) = mt_target t"
  by (simp_all add: record_lsn_def mt_inv_def mt_rows_def)

lemma mem_run_rows:
  assumes "kernels_ok K"
  shows "mt_inv s t \<Longrightarrow> batches_wf s (inserted ops) \<Longrightarrow> \<exists>t' m'. mem_run K mem ops t m = Some (t', m') \<and>
    mt_inv s t' \<and> mt_target t' = mt_target t \<and> mt_rows t' = mt_rows t @ all_rows (inserted ops)"
proof (induction ops arbitrary: t m)
  case (Cons op ops)
  show ?case
  proof (cases op)
    case (MInsert b)
    then have "batch_wf s b" and rest: "batches_wf s (inserted ops)" using Cons.prems(2) by auto
    from insert_rows [OF assms Cons.prems(1) this(1), of mem m] obtain r t' m' where
      "insert_for_table K mem b t m = Some (r, t', m')" "mt_inv s t'" "mt_rows t' = mt_rows t @ rows b"
      "mt_target t' = mt_target t" "\<forall>e. r = Inl e \<longrightarrow> e = MemoryLimitExceeded (used_bytes m') (limit_bytes m')" .
    then show ?thesis using Cons.IH [OF _ rest, of t' m'] MInsert by simp
  next
    case (MRecord l)
    then show ?thesis using Cons.IH [of "record_lsn l t" m] Cons.prems by (simp add: record_lsn_rows)
  next
    case MSeal
    from seal_rows [OF assms Cons.prems(1), of mem m] obtain t' m' where
      l: "seal K mem t m = (Inr (), t', m')" "mt_inv s t'" "mt_target t' = mt_target t"
      "all_rows (mt_frozen t') = mt_rows t" "all_rows (bb_buffer (mt_active t')) = []"
      "bb_rows (mt_active t') = 0" .
    have "mt_rows t' = mt_rows t" unfolding mt_rows_def [of t'] l(4,5) by simp
    then show ?thesis using Cons.IH [of t' m'] Cons.prems MSeal l by simp
  qed
qed simp

section \<open>Memory charge\<close>

text \<open>\<open>other\<close> is what the rest of the system has reserved on the controller.\<close>

lemma sync_charge:
  assumes "sync_charged_to_ram a t m = (r, t', m')" and "used_bytes m = other + mt_charged t"
    and "limit_bytes m < usize_max" and "other + mt_ram t \<le> usize_max"
  shows "used_bytes m' = other + mt_charged t' \<and> limit_bytes m' = limit_bytes m \<and>
    (r = Inr () \<longrightarrow> mt_charged t' = mt_ram t') \<and>
    (a \<and> used_bytes m \<le> limit_bytes m \<longrightarrow> used_bytes m' \<le> limit_bytes m)"
proof (cases "mt_ram t > mt_charged t")
  case True
  show ?thesis
  proof (cases a)
    case True
    obtain ok m1 where tr: "try_reserve (mt_ram t - mt_charged t) m = (ok, m1)" by fastforce
    show ?thesis
    proof (cases ok)
      case ok: True
      have "m1 = m\<lparr>used_bytes := used_bytes m + (mt_ram t - mt_charged t)\<rparr> \<and>
          used_bytes m + (mt_ram t - mt_charged t) \<le> limit_bytes m"
        using try_reserve_True [OF assms(3), of "mt_ram t - mt_charged t" m1] tr ok \<open>mt_ram t > mt_charged t\<close> by simp
      then show ?thesis
        using assms(1,2) tr True \<open>mt_ram t > mt_charged t\<close> ok by (auto simp: sync_charged_to_ram_def Let_def)
    next
      case False
      then have "m1 = m" using try_reserve_False [of "mt_ram t - mt_charged t" m m1] tr by simp
      then show ?thesis
        using assms(1,2) tr True \<open>mt_ram t > mt_charged t\<close> False
        by (auto simp: sync_charged_to_ram_def Let_def)
    qed
  next
    case False
    then show ?thesis
      using assms \<open>mt_ram t > mt_charged t\<close>
      by (auto simp: sync_charged_to_ram_def Let_def reserve_unchecked_def usize_wrap_def usize_max_def)
  qed
next
  case False
  then show ?thesis
    using assms(1,2) by (auto simp: sync_charged_to_ram_def mem_release_def Let_def split: if_splits)
qed

lemma insert_publish_charge:
  assumes "insert_publish mem cs ram t m = (r, t', m')" and "used_bytes m = other + mt_charged t"
    and "limit_bytes m < usize_max" and "other + mt_ram t' \<le> usize_max"
  shows "used_bytes m' = other + mt_charged t' \<and> limit_bytes m' = limit_bytes m \<and>
    (\<not> isl r \<longrightarrow> mt_charged t' = mt_ram t') \<and> (used_bytes m \<le> limit_bytes m \<longrightarrow> used_bytes m' \<le> limit_bytes m)"
proof -
  let ?t1 = "if cs \<noteq> [] then t\<lparr>mt_frozen_ram := mt_frozen_ram t + sum_list (map mem cs), mt_frozen := mt_frozen t @ cs\<rparr> else t"
  let ?t2 = "?t1\<lparr>mt_ram := mt_frozen_ram ?t1 + ram\<rparr>"
  obtain r3 t3 m3 where sy: "sync_charged_to_ram True ?t2 m = (r3, t3, m3)" by (metis prod_cases3)
  have eq: "t' = t3" "m' = m3" "isl r = isl r3"
    using assms(1) sy by (auto simp: insert_publish_def Let_def split: sum.splits)
  have "mt_ram t3 = mt_ram ?t2" by (subst sync_charge_only(1) [OF sy], simp)
  moreover have "mt_charged ?t2 = mt_charged t" by simp
  ultimately have "used_bytes m3 = other + mt_charged t3 \<and> limit_bytes m3 = limit_bytes m \<and>
      (r3 = Inr () \<longrightarrow> mt_charged t3 = mt_ram t3) \<and> (True \<and> used_bytes m \<le> limit_bytes m \<longrightarrow> used_bytes m3 \<le> limit_bytes m)"
    using assms(2-) eq(1) by (intro sync_charge [OF sy]) (simp_all only:)
  then show ?thesis by (cases r3) (auto simp: eq)
qed

section \<open>Properties\<close>

text \<open>
  C31. A memtable loses, invents and reorders nothing: after any history of inserts, LSN records and seals
  of a new memtable every insert has returned, and a snapshot succeeds and returns chunks of at most the
  configured number of rows whose rows are exactly the rows of all the inserted batches in the order of
  their insertion. This includes the batches whose insert was refused for lack of memory. The layout counts
  these rows, and full chunks and tail add up to them.
\<close>

theorem memtable_snapshot_exact:
  assumes "kernels_ok K" and "batches_wf s (inserted ops)"
  shows "\<exists>t m chunks lay t' m'. mem_run K mem ops (memtable_new i s mx n) m0 = Some (t, m) \<and>
    snapshot_chunks K mem t m = (Inr (chunks, lay), t', m') \<and>
    all_rows chunks = all_rows (inserted ops) \<and> batches_wf s chunks \<and>
    (\<forall>c \<in> set chunks. num_rows c \<le> max n 1) \<and>
    ml_total_rows lay = length (all_rows (inserted ops)) \<and>
    ml_full_chunks lay * ml_chunk_size lay + ml_tail_rows lay = length (all_rows (inserted ops))"
proof -
  from mem_run_rows [OF assms(1) new_memtable_inv(1) assms(2), of mem i mx n m0] obtain t m where
    r: "mem_run K mem ops (memtable_new i s mx n) m0 = Some (t, m)" "mt_inv s t" "mt_target t = max n 1"
      "mt_rows t = all_rows (inserted ops)" by (auto simp: new_memtable_inv)
  from seal_rows [OF assms(1) r(2), of mem m] obtain t' m' where
    l: "seal K mem t m = (Inr (), t', m')" "mt_inv s t'" "mt_target t' = mt_target t"
      "all_rows (mt_frozen t') = mt_rows t" "all_rows (bb_buffer (mt_active t')) = []"
      "bb_rows (mt_active t') = 0" .
  have rows: "mt_rows t' = mt_rows t" using l(4,5) by (simp add: mt_rows_def)
  show ?thesis
    using r l layout_rows [OF l(2)] rows
    by (intro exI [of _ t] exI [of _ m] exI [of _ "mt_frozen t'"] exI [of _ "layout t'"] exI [of _ t'] exI [of _ m'])
      (simp add: snapshot_chunks_def mt_inv_def)
qed

theorem memtable_snapshot_exact_witness:
  "\<exists>t m chunks lay t' m'.
    mem_run list_kernels num_rows [MInsert (demo_batch [(1, 1), (2, 2), (3, 3)]), MSeal, MInsert (demo_batch [(1, 4)])]
      (memtable_new 1 demo_schema 100 2) \<lparr>limit_bytes = 2, soft_threshold_bytes = 0, used_bytes = 0\<rparr> = Some (t, m) \<and>
    snapshot_chunks list_kernels num_rows t m = (Inr (chunks, lay), t', m') \<and>
    all_rows chunks = [[SInt 1, SInt 1], [SInt 2, SInt 2], [SInt 3, SInt 3], [SInt 1, SInt 4]]"
  using memtable_snapshot_exact [OF list_kernels_ok, of
      "[MInsert (demo_batch [(1, 1), (2, 2), (3, 3)]), MSeal, MInsert (demo_batch [(1, 4)])]" demo_schema num_rows 1 100 2
      "\<lparr>limit_bytes = 2, soft_threshold_bytes = 0, used_bytes = 0\<rparr>"]
  by (auto simp: demo_batch_rows)

text \<open>
  C33. A seal by a reader between the two critical sections of an insert changes the order of the rows:
  the rows that stay in the buffer come before the chunks the insert had cut, although they were written
  later. With the seal after the insert the order is that of the writes. An overwritten row can become
  the newest one this way.
\<close>

theorem seal_inside_insert_reorders:
  assumes "kernels_ok K" and "mt_inv s t" and "batch_wf s b"
  shows "\<exists>cs ram t1 tail t2 m2. insert_append K mem b t = Some (Inr (cs, ram), t1) \<and>
    seal K mem t1 m = (Inr (), t2, m2) \<and>
    all_rows cs @ tail = all_rows (bb_buffer (mt_active t)) @ rows b \<and> length tail < mt_target t \<and>
    length (all_rows cs) = length cs * mt_target t \<and>
    (case insert_publish mem cs ram t2 m2 of (_, t3, _) \<Rightarrow>
      mt_rows t3 = all_rows (mt_frozen t) @ tail @ all_rows cs) \<and>
    (case insert_publish mem cs ram t1 m of (_, t3, m3) \<Rightarrow> \<forall>r t4 m4. seal K mem t3 m3 = (r, t4, m4) \<longrightarrow>
      mt_rows t4 = all_rows (mt_frozen t) @ all_rows cs @ tail)"
proof -
  from insert_append_rows [OF assms, of mem] obtain cs bb where
    a: "insert_append K mem b t = Some (Inr (cs, buffer_ram_cost mem bb), t\<lparr>mt_active := bb\<rparr>)"
      "buffer_inv s (mt_target t) bb" "bb_rows bb < mt_target t" "batches_wf s cs"
      "\<forall>c \<in> set cs. num_rows c = mt_target t"
      "all_rows cs @ all_rows (bb_buffer bb) = all_rows (bb_buffer (mt_active t)) @ rows b" .
  let ?t1 = "t\<lparr>mt_active := bb\<rparr>" and ?tail = "all_rows (bb_buffer bb)" and ?ram = "buffer_ram_cost mem bb"
  have len: "length ?tail < mt_target t" using a(2,3) by (simp add: buffer_inv_def)
  have inv1: "mt_inv s ?t1" using assms(2) a(2,3) by (simp add: mt_inv_def)
  from seal_rows [OF assms(1) inv1, of mem m] obtain t2 m2 where
    l: "seal K mem ?t1 m = (Inr (), t2, m2)" "mt_inv s t2" "mt_target t2 = mt_target ?t1"
      "all_rows (mt_frozen t2) = mt_rows ?t1" "all_rows (bb_buffer (mt_active t2)) = []"
      "bb_rows (mt_active t2) = 0" .
  have raced: "mt_rows t3 = all_rows (mt_frozen t) @ ?tail @ all_rows cs"
    if p: "insert_publish mem cs ?ram t2 m2 = (r3, t3, m3)" for r3 t3 m3
    using l(4,5) publish_rows(1,2) [OF p] by (simp add: mt_rows_def)
  have ordered: "mt_rows t4 = all_rows (mt_frozen t) @ all_rows cs @ ?tail"
    if p: "insert_publish mem cs ?ram ?t1 m = (r3, t3, m3)" and sl: "seal K mem t3 m3 = (r, t4, m4)" for r3 t3 m3 r t4 m4
  proof -
    note pr = publish_rows [OF p]
    have "mt_inv s t3" using inv1 a(4,5) pr by (auto simp: mt_inv_def)
    from seal_rows [OF assms(1) this, of mem m3] obtain t5 m5 where
      "seal K mem t3 m3 = (Inr (), t5, m5)" "mt_inv s t5" "mt_target t5 = mt_target t3"
      "all_rows (mt_frozen t5) = mt_rows t3" "all_rows (bb_buffer (mt_active t5)) = []"
      "bb_rows (mt_active t5) = 0" .
    then show ?thesis using sl pr by (simp add: mt_rows_def)
  qed
  have size: "length (all_rows cs) = length cs * mt_target t" using a(5) by (induction cs) auto
  obtain r3 t3 m3 where p1: "insert_publish mem cs ?ram t2 m2 = (r3, t3, m3)" by (metis prod_cases3)
  obtain r4 t4 m4 where p2: "insert_publish mem cs ?ram ?t1 m = (r4, t4, m4)" by (metis prod_cases3)
  show ?thesis
    by (rule exI [of _ cs], rule exI [of _ ?ram], rule exI [of _ ?t1], rule exI [of _ ?tail], rule exI [of _ t2],
        rule exI [of _ m2]) (use a(1,6) l(1) len size p1 p2 raced [OF p1] ordered [OF p2] in auto)
qed

theorem seal_inside_insert_reorders_witness:
  "\<exists>cs ram t1 t2 m2. insert_append list_kernels num_rows (demo_batch [(1, 1), (2, 2), (1, 3)])
      (memtable_new 1 demo_schema 100 2) = Some (Inr (cs, ram), t1) \<and>
    seal list_kernels num_rows t1 \<lparr>limit_bytes = 9, soft_threshold_bytes = 0, used_bytes = 0\<rparr> = (Inr (), t2, m2) \<and>
    (case insert_publish num_rows cs ram t2 m2 of (_, t3, _) \<Rightarrow>
      newest_at (row_time demo_schema) (mt_rows t3) 1 = Some [SInt 1, SInt 1])"
proof -
  let ?t = "memtable_new 1 demo_schema 100 2" and ?b = "demo_batch [(1, 1), (2, 2), (1, 3)]"
  let ?m = "\<lparr>limit_bytes = 9, soft_threshold_bytes = 0, used_bytes = 0\<rparr> :: memory_controller"
  have t: "mt_target ?t = 2" "mt_frozen ?t = []" "bb_buffer (mt_active ?t) = []"
    by (simp_all add: memtable_new_def with_target_batch_size_def buffer_new_def Let_def)
  from seal_inside_insert_reorders [OF list_kernels_ok new_memtable_inv(1) [of demo_schema 1 100 2]
      demo_batch_wf [of "[(1, 1), (2, 2), (1, 3)]"], of num_rows ?m]
  obtain cs ram t1 tail t2 m2 where
    x: "insert_append list_kernels num_rows ?b ?t = Some (Inr (cs, ram), t1)"
      "seal list_kernels num_rows t1 ?m = (Inr (), t2, m2)"
      "all_rows cs @ tail = [[SInt 1, SInt 1], [SInt 2, SInt 2], [SInt 1, SInt 3]]" "length tail < 2"
      "length (all_rows cs) = length cs * 2"
      "case insert_publish num_rows cs ram t2 m2 of (_, t3, _) \<Rightarrow> mt_rows t3 = tail @ all_rows cs"
    unfolding t by (auto simp: demo_batch_rows)
  have "length cs * 2 + length tail = 3" using arg_cong [OF x(3), of length] x(5) by simp
  then have "length tail = 1" using x(4) by presburger
  then obtain r where r: "tail = [r]" by (auto simp: length_Suc_conv)
  then have eq: "tail = [[SInt 1, SInt 3]]" "all_rows cs = [[SInt 1, SInt 1], [SInt 2, SInt 2]]"
    using x(3) by (auto simp: append_eq_Cons_conv)
  show ?thesis
    by (rule exI [of _ cs], rule exI [of _ ram], rule exI [of _ t1], rule exI [of _ t2], rule exI [of _ m2])
      (use x(1,2,6) in \<open>auto simp: eq newest_at_def demo_batch_rows split: prod.splits\<close>)
qed

text \<open>
  C32. The charge of a memtable on the memory controller is exact: as long as the counter does not exceed the
  range of its type, an insert, refused or not, and a seal keep the used bytes equal to what others have
  reserved plus the charge of the memtable, an accepted insert and a seal leave the charge equal to the
  footprint, an insert never takes the counter over the limit, and releasing or dropping the memtable gives
  all of it back.
\<close>

theorem memtable_charge_exact:
  assumes "used_bytes m = other + mt_charged t" and "limit_bytes m < usize_max"
  shows "(\<forall>r t' m'. insert_for_table K mem b t m = Some (r, t', m') \<and> other + mt_ram t' \<le> usize_max \<longrightarrow>
      used_bytes m' = other + mt_charged t' \<and> (\<not> isl r \<and> num_rows b \<noteq> 0 \<longrightarrow> mt_charged t' = mt_ram t') \<and>
      (used_bytes m \<le> limit_bytes m \<longrightarrow> used_bytes m' \<le> limit_bytes m)) \<and>
    (\<forall>t' m'. seal K mem t m = (Inr (), t', m') \<and> other + mt_ram t' \<le> usize_max \<longrightarrow>
      used_bytes m' = other + mt_ram t' \<and> mt_charged t' = mt_ram t') \<and>
    used_bytes (snd (release_memory K t m)) = other \<and> used_bytes (drop_memtable t m) = other"
proof (intro conjI allI impI)
  fix r t' m' assume i: "insert_for_table K mem b t m = Some (r, t', m') \<and> other + mt_ram t' \<le> usize_max"
  consider "t' = t" "m' = m" "num_rows b = 0 \<or> isl r"
    | bb where "t' = t\<lparr>mt_active := bb\<rparr>" "m' = m" "isl r"
    | cs ram bb where "insert_publish mem cs ram (t\<lparr>mt_active := bb\<rparr>) m = (r, t', m')"
    using i by (auto simp: insert_for_table_def insert_append_def split: if_splits option.splits sum.splits)
  then have "used_bytes m' = other + mt_charged t' \<and> (\<not> isl r \<and> num_rows b \<noteq> 0 \<longrightarrow> mt_charged t' = mt_ram t') \<and>
      (used_bytes m \<le> limit_bytes m \<longrightarrow> used_bytes m' \<le> limit_bytes m)"
  proof cases
    case 3
    from insert_publish_charge [OF this, of other] show ?thesis using assms i by auto
  qed (use assms in auto)
  then show "used_bytes m' = other + mt_charged t'" "used_bytes m \<le> limit_bytes m \<Longrightarrow> used_bytes m' \<le> limit_bytes m"
    "\<not> isl r \<and> num_rows b \<noteq> 0 \<Longrightarrow> mt_charged t' = mt_ram t'" by blast+
next
  fix t' m' assume l: "seal K mem t m = (Inr (), t', m') \<and> other + mt_ram t' \<le> usize_max"
  then obtain t1 where f: "flush_active_buffer K mem t = (Inr (), t1)" and sy: "sync_charged_to_ram False t1 m = (Inr (), t', m')"
    by (auto simp: seal_def split: prod.splits sum.splits)
  have "mt_charged t1 = mt_charged t"
    using f by (auto simp: flush_active_buffer_def Let_def split: prod.splits sum.splits option.splits)
  moreover have "mt_ram t1 = mt_ram t'" by (subst sync_charge_only(1) [OF sy], simp)
  ultimately show "used_bytes m' = other + mt_ram t'" "mt_charged t' = mt_ram t'"
    using sync_charge [OF sy, of other] assms l by auto
qed (use assms in \<open>auto simp: release_memory_def drop_memtable_def mem_release_def\<close>)

theorem memtable_charge_exact_witness:
  "used_bytes (snd (release_memory list_kernels ((memtable_new 1 demo_schema 100 2)\<lparr>mt_charged := 30\<rparr>)
     \<lparr>limit_bytes = 50, soft_threshold_bytes = 0, used_bytes = 42\<rparr>)) = 12"
  using memtable_charge_exact [of "\<lparr>limit_bytes = 50, soft_threshold_bytes = 0, used_bytes = 42\<rparr>" 12
      "(memtable_new 1 demo_schema 100 2)\<lparr>mt_charged := 30\<rparr>" list_kernels num_rows "demo_batch []"]
  by (simp add: usize_max_def)

end
