(* ===== verification/Kmerge.thy ===== *)
theory Kmerge
  imports Batch
begin

text \<open>
  The k-way merge that the query and the compaction share, on the rows alone. The inputs are lists of rows
  from the oldest to the newest source, each strictly increasing in time. A step removes the first row of
  an input whose time is minimal, of the newest input where several have it, and emits it unless a row of
  the same time was emitted before. \<open>kmerge_done\<close>: what is emitted when the inputs are used up is the
  newest-wins result. The streams of the query (\<open>Lsm_Merge\<close>) and the files of the compaction (\<open>Compact_Merge\<close>)
  refine these steps.
\<close>

definition first_row :: "('r \<Rightarrow> i64) \<Rightarrow> 'r list list \<Rightarrow> nat \<Rightarrow> 'r \<Rightarrow> bool" where
  "first_row k R i r \<longleftrightarrow> i < length R \<and> R ! i \<noteq> [] \<and> List.hd (R ! i) = r \<and>
     (\<forall>j < length R. R ! j \<noteq> [] \<longrightarrow> k r < k (List.hd (R ! j)) \<or> k r = k (List.hd (R ! j)) \<and> j \<le> i)"

definition emit_row :: "('r \<Rightarrow> i64) \<Rightarrow> 'r list \<Rightarrow> 'r \<Rightarrow> 'r list" where
  "emit_row k E r = (if E \<noteq> [] \<and> k (List.last E) = k r then E else E @ [r])"

definition kmerge_inv :: "('r \<Rightarrow> i64) \<Rightarrow> 'r list \<Rightarrow> 'r list list \<Rightarrow> 'r list \<Rightarrow> bool" where
  "kmerge_inv k T R E \<longleftrightarrow> (\<forall>l \<in> set R. sorted_wrt (<) (map k l)) \<and> sorted_wrt (<) (map k E) \<and>
     (E \<noteq> [] \<longrightarrow> (\<forall>l \<in> set R. \<forall>r \<in> set l. k (List.last E) \<le> k r)) \<and>
     newest_at k T = newest_at k (concat R) ++ newest_at k E"

lemma kmerge_init: "\<forall>l \<in> set R. sorted_wrt (<) (map k l) \<Longrightarrow> kmerge_inv k (concat R) R []"
  by (simp add: kmerge_inv_def)

lemma newest_at_Cons: "newest_at k (r # l) = newest_at k [r] ++ newest_at k l"
  using newest_at_append [of k "[r]" l] by simp

lemma newest_at_single: "newest_at k [r] = [k r \<mapsto> r]"
  by (rule ext) (simp add: newest_at_def)

lemma concat_split: "i < length R \<Longrightarrow> concat R = concat (take i R) @ R ! i @ concat (drop (Suc i) R)"
  by (metis concat.simps(2) concat_append id_take_nth_drop)

lemma first_row_newest:
  assumes sorted: "\<forall>l \<in> set R. sorted_wrt (<) (map k l)" and f: "first_row k R i r"
  shows "newest_at k (concat R) (k r) = Some r"
    and "t \<noteq> k r \<Longrightarrow> newest_at k (concat (R[i := List.tl (R ! i)])) t = newest_at k (concat R) t"
proof -
  let ?A = "concat (take i R)" and ?B = "concat (drop (Suc i) R)"
  obtain l where i: "i < length R" and Ri: "R ! i = r # l" using f by (cases "R ! i") (auto simp: first_row_def)
  have c1: "concat R = ?A @ (r # l) @ ?B" using concat_split [OF i] unfolding Ri .
  have c2: "concat (R[i := l]) = ?A @ l @ ?B" using concat_split [of i "R[i := l]"] i by simp
  have later: "k r < k x" if "j < length R" "i < j" "x \<in> set (R ! j)" for j x
  proof -
    have "k r < k (List.hd (R ! j))" using f that by (fastforce simp: first_row_def)
    moreover have "sorted_wrt (<) (map k (R ! j))" using sorted that(1) by simp
    ultimately show ?thesis using that(3) by (cases "R ! j") auto
  qed
  have "sorted_wrt (<) (map k (r # l))" using sorted i Ri by (metis nth_mem)
  then have 1: "newest_at k l (k r) = None" unfolding newest_at_None by auto
  have "k r < k x" if x: "x \<in> set ?B" for x
  proof -
    obtain l where l: "l \<in> set (drop (Suc i) R)" "x \<in> set l" using x by auto
    then obtain n where "n < length R - Suc i" "l = R ! (Suc i + n)" by (auto simp: in_set_conv_nth [of l])
    with l have "n < length R - Suc i" "x \<in> set (R ! (Suc i + n))" by simp_all
    then show ?thesis using later [of "Suc i + n" x] by simp
  qed
  then have 2: "newest_at k ?B (k r) = None" unfolding newest_at_None by fastforce
  show "newest_at k (concat R) (k r) = Some r"
    unfolding c1 newest_at_append newest_at_Cons [of k r l] newest_at_single using 1 2 by (simp add: map_add_def)
  show "newest_at k (concat (R[i := List.tl (R ! i)])) t = newest_at k (concat R) t" if "t \<noteq> k r"
    unfolding Ri list.sel c1 c2 newest_at_append newest_at_Cons [of k r l] newest_at_single
    using that by (simp add: map_add_def split: option.split)
qed

lemma kmerge_step:
  assumes inv: "kmerge_inv k T R E" and f: "first_row k R i r"
  shows "kmerge_inv k T (R[i := List.tl (R ! i)]) (emit_row k E r)"
proof -
  let ?R = "R[i := List.tl (R ! i)]" and ?E = "emit_row k E r"
  have i: "i < length R" and Ri: "R ! i = r # List.tl (R ! i)" using f by (auto simp: first_row_def)
  have sorted: "\<forall>l \<in> set R. sorted_wrt (<) (map k l)" and E: "sorted_wrt (<) (map k E)"
    and new: "newest_at k T = newest_at k (concat R) ++ newest_at k E"
    and le: "E \<noteq> [] \<Longrightarrow> l \<in> set R \<Longrightarrow> x \<in> set l \<Longrightarrow> k (List.last E) \<le> k x" for l x
    using inv by (auto simp: kmerge_inv_def)
  have sub: "\<exists>l' \<in> set R. set l \<subseteq> set l' \<and> (sorted_wrt (<) (map k l') \<longrightarrow> sorted_wrt (<) (map k l))" if "l \<in> set ?R" for l
    using that i Ri by (metis insertE list.set_intros(2) list.simps(9) nth_mem set_update_subset_insert sorted_wrt.simps(2) subsetD subsetI)
  have min: "k r \<le> k x" if l: "l \<in> set R" and x: "x \<in> set l" for l x
  proof -
    obtain j where j: "j < length R" "R ! j = l" using l by (auto simp: in_set_conv_nth)
    have "k r \<le> k (List.hd l)" using f j x by (fastforce simp: first_row_def)
    then show ?thesis using sorted l x by (cases l) fastforce+
  qed
  have last_le: "E \<noteq> [] \<Longrightarrow> k (List.last E) \<le> k r" using le i Ri by (metis list.set_intros(1) nth_mem)
  have E_le: "k x \<le> k (List.last E)" if "x \<in> set E" for x
    using that E by (induction E) (auto intro: less_imp_le)
  have newE: "k r \<notin> k ` set E" if "\<not> (E \<noteq> [] \<and> k (List.last E) = k r)"
  proof
    assume "k r \<in> k ` set E"
    then obtain x where "x \<in> set E" "k x = k r" by auto
    then show False using that E_le [of x] last_le by (cases "E = []") auto
  qed
  have "sorted_wrt (<) (map k ?E)"
    using E newE E_le last_le by (fastforce simp: emit_row_def sorted_wrt_append)
  moreover have "k (List.last ?E) = k r" "?E \<noteq> []" by (auto simp: emit_row_def)
  moreover have "\<forall>l \<in> set ?R. \<forall>x \<in> set l. k r \<le> k x" using sub min by blast
  moreover have "newest_at k T = newest_at k (concat ?R) ++ newest_at k ?E"
  proof
    fix t
    show "newest_at k T t = (newest_at k (concat ?R) ++ newest_at k ?E) t"
    proof (cases "t = k r")
      case True
      show ?thesis
      proof (cases "E \<noteq> [] \<and> k (List.last E) = k r")
        case dup: True
        then have "k r \<in> k ` set E" by (metis image_eqI last_in_set)
        then have "newest_at k E t \<noteq> None" using True newest_at_None [of k E t] by simp
        then show ?thesis using dup new by (auto simp: emit_row_def map_add_def)
      next
        case False
        then have "newest_at k E t = None" using newE True newest_at_None [of k E t] by simp
        then show ?thesis
          using False True new first_row_newest(1) [OF sorted f]
          by (auto simp: emit_row_def newest_at_append newest_at_single map_add_def)
      qed
    next
      case False
      then have "newest_at k ?E t = newest_at k E t"
        by (simp add: emit_row_def newest_at_append newest_at_single map_add_def)
      then show ?thesis using new first_row_newest(2) [OF sorted f False] by (simp add: map_add_def split: option.split)
    qed
  qed
  ultimately show ?thesis using sorted sub by (auto simp: kmerge_inv_def)
qed

lemma kmerge_done:
  assumes "kmerge_inv k T R E" and "\<forall>l \<in> set R. l = []"
  shows "E = newest k T"
proof -
  have "set (concat R) = {}" using assms(2) by auto
  then have "newest_at k (concat R) = Map.empty" by (simp only: set_empty newest_at_Nil)
  then have eq: "newest_at k T = newest_at k E" using assms(1) by (simp add: kmerge_inv_def)
  have E: "sorted_wrt (<) (map k E)" using assms(1) by (simp add: kmerge_inv_def)
  have "newest k T = newest k E" by (rule newest_cong) (simp add: eq)
  then show ?thesis using newest_idem [OF E] by simp
qed

section \<open>Binary heap\<close>

text \<open>A binary heap as a list: \<^verbatim>\<open>pop\<close> removes an element before which the order puts no other.\<close>

fun heap_best :: "('c \<Rightarrow> 'c \<Rightarrow> bool) \<Rightarrow> 'c \<Rightarrow> 'c list \<Rightarrow> 'c" where
  "heap_best before c [] = c"
| "heap_best before c (d # ds) = heap_best before (if before d c then d else c) ds"

fun heap_pop :: "('c \<Rightarrow> 'c \<Rightarrow> bool) \<Rightarrow> 'c list \<Rightarrow> ('c \<times> 'c list) option" where
  "heap_pop before [] = None"
| "heap_pop before (c # cs) = (let b = heap_best before c cs in Some (b, remove1 b (c # cs)))"

lemma heap_best_min:
  assumes trans: "\<And>x y z. before x y \<Longrightarrow> before y z \<Longrightarrow> before x z" and irr: "\<And>x. \<not> before x x"
    and lin: "\<And>x y z. before x y \<Longrightarrow> before x z \<or> before z y"
  shows "heap_best before c ds \<in> set (c # ds) \<and> (\<forall>d \<in> set (c # ds). \<not> before d (heap_best before c ds))"
proof (induction ds arbitrary: c)
  case (Cons d ds)
  let ?b = "if before d c then d else c"
  have b: "heap_best before ?b ds \<in> set (?b # ds)" "\<forall>e \<in> set (?b # ds). \<not> before e (heap_best before ?b ds)"
    using Cons.IH [of ?b] by blast+
  have nb: "\<not> before ?b (heap_best before ?b ds)" using b(2) by simp
  have "\<not> before c (heap_best before ?b ds) \<and> \<not> before d (heap_best before ?b ds)"
  proof (cases "before d c")
    case True
    then show ?thesis using nb trans [of d c] by auto
  next
    case False
    then show ?thesis using nb lin [of d _ c] by auto
  qed
  then show ?case using b by (auto split: if_splits)
qed (simp add: irr)

lemma heap_pop_first:
  assumes "\<And>x y z. before x y \<Longrightarrow> before y z \<Longrightarrow> before x z" and "\<And>x. \<not> before x x"
    and "\<And>x y z. before x y \<Longrightarrow> before x z \<or> before z y" and pop: "heap_pop before h = Some (c, h')"
  shows "c \<in> set h" "h' = remove1 c h" "\<forall>d \<in> set h. \<not> before d c"
proof -
  obtain d ds where h: "h = d # ds" using pop by (cases h) auto
  from heap_best_min [of before d ds] assms(1-3)
  have "heap_best before d ds \<in> set (d # ds) \<and> (\<forall>e \<in> set (d # ds). \<not> before e (heap_best before d ds))" by blast
  then show "c \<in> set h" "h' = remove1 c h" "\<forall>d \<in> set h. \<not> before d c" using pop by (auto simp: h Let_def)
qed

lemma heap_pop_None: "heap_pop before h = None \<longleftrightarrow> h = []"
  by (cases h) (simp_all add: Let_def)

end
