(* ===== verification/Lsm_Merge.thy ===== *)
theory Lsm_Merge
  imports Kmerge
begin

text \<open>
  The merge of the layers of a table at query time (\<^verbatim>\<open>src/src/query/src/lsm_stream.rs\<close>): an asynchronous
  stream that pulls batches from one input stream per layer and returns merged batches. An input stream is
  the list of answers its polls give; \<open>Pending\<close> means that the answer is not there yet and the caller polls
  again. A batch behind an \<^verbatim>\<open>Arc\<close> is an address with its content: every \<^verbatim>\<open>Arc::new\<close> gets a fresh address,
  which no other batch takes while the chunk holds the \<^verbatim>\<open>Arc\<close>. The binary heap is a list from which
  \<^verbatim>\<open>pop\<close> removes a first element of the order. An error of DataFusion or Arrow is a \<open>Storage\<close> error.
\<close>

section \<open>Input streams\<close>

datatype 'a poll = Pending | Ready 'a

datatype poll_item = NotYet | BatchItem record_batch | ErrorItem tsdb_error

type_synonym batch_stream = "poll_item list"

fun poll_input :: "batch_stream \<Rightarrow> record_batch res option poll \<times> batch_stream" where
  "poll_input [] = (Ready None, [])"
| "poll_input (NotYet # s) = (Pending, s)"
| "poll_input (BatchItem b # s) = (Ready (Some (Inr b)), s)"
| "poll_input (ErrorItem e # s) = (Ready (Some (Inl e)), s)"

section \<open>State\<close>

type_synonym arc = "nat \<times> record_batch"

record heap_cursor =
  hc_ts :: i64
  hc_layer_priority :: nat
  hc_stream_idx :: nat
  hc_row_idx :: nat
  hc_batch :: arc

record merge_chunk =
  mc_indices :: "(nat \<times> nat) list"
  mc_sources :: "arc list"
  mc_map :: "nat \<Rightarrow> nat option"

record merge_stream =
  ms_streams :: "(batch_stream \<times> nat) list"
  ms_schema :: schema
  ms_ts_column_idx :: nat
  ms_heap :: "heap_cursor list"
  ms_initialized :: bool
  ms_init_idx :: nat
  ms_last_emitted_ts :: "i64 option"
  ms_chunk :: merge_chunk
  ms_pending :: "nat option"
  ms_next_addr :: nat

definition OUTPUT_BATCH_SIZE :: nat where
  "OUTPUT_BATCH_SIZE = 8192"

definition time_or_min :: "nat \<Rightarrow> record_batch \<Rightarrow> nat \<Rightarrow> i64" where
  "time_or_min ts_idx b row = (case time_value_at (rb_columns b ! ts_idx) row of Inr t \<Rightarrow> t | Inl _ \<Rightarrow> i64_min)"

definition cursor_new :: "arc \<Rightarrow> nat \<Rightarrow> nat \<Rightarrow> nat \<Rightarrow> nat \<Rightarrow> heap_cursor" where
  "cursor_new a row stream_idx priority ts_idx =
     \<lparr>hc_ts = time_or_min ts_idx (snd a) row, hc_layer_priority = priority, hc_stream_idx = stream_idx,
      hc_row_idx = row, hc_batch = a\<rparr>"

definition refresh_ts :: "nat \<Rightarrow> heap_cursor \<Rightarrow> heap_cursor" where
  "refresh_ts ts_idx c = c\<lparr>hc_ts := time_or_min ts_idx (snd (hc_batch c)) (hc_row_idx c)\<rparr>"

text \<open>The order of the heap: \<open>cursor_before c d\<close> if \<open>c\<close> is popped before \<open>d\<close>.\<close>

definition cursor_before :: "heap_cursor \<Rightarrow> heap_cursor \<Rightarrow> bool" where
  "cursor_before c d \<longleftrightarrow> hc_ts c < hc_ts d \<or> hc_ts c = hc_ts d \<and> hc_layer_priority c < hc_layer_priority d"

section \<open>Chunk of row coordinates\<close>

definition chunk_new :: merge_chunk where
  "chunk_new = \<lparr>mc_indices = [], mc_sources = [], mc_map = Map.empty\<rparr>"

definition chunk_push :: "arc \<Rightarrow> nat \<Rightarrow> merge_chunk \<Rightarrow> merge_chunk" where
  "chunk_push a row ch =
     (case mc_map ch (fst a) of
        Some i \<Rightarrow> ch\<lparr>mc_indices := mc_indices ch @ [(i, row)]\<rparr>
      | None \<Rightarrow> let i = length (mc_sources ch) in
          \<lparr>mc_indices = mc_indices ch @ [(i, row)], mc_sources = mc_sources ch @ [a],
           mc_map = (mc_map ch)(fst a \<mapsto> i)\<rparr>)"

definition chunk_build :: "kernels \<Rightarrow> schema \<Rightarrow> merge_chunk \<Rightarrow> record_batch res" where
  "chunk_build K s ch =
     and_then (interleave_columns K ''interleave'' (map snd (mc_sources ch)) (mc_indices ch) [0..<length s])
       (new_batch K ''merged batch'' s)"

section \<open>Merge stream\<close>

definition merge_new :: "(batch_stream \<times> nat) list \<Rightarrow> schema \<Rightarrow> nat \<Rightarrow> merge_stream" where
  "merge_new streams s ts_idx =
     \<lparr>ms_streams = streams, ms_schema = s, ms_ts_column_idx = ts_idx, ms_heap = [], ms_initialized = False,
      ms_init_idx = 0, ms_last_emitted_ts = None, ms_chunk = chunk_new, ms_pending = None, ms_next_addr = 0\<rparr>"

text \<open>The poll of the input \<open>idx\<close>, and the push of a cursor on a fetched batch that has rows.\<close>

definition poll_stream :: "nat \<Rightarrow> merge_stream \<Rightarrow> record_batch res option poll \<times> merge_stream" where
  "poll_stream idx st =
     (let (r, s') = poll_input (fst (ms_streams st ! idx)) in
      (r, st\<lparr>ms_streams := (ms_streams st)[idx := (s', snd (ms_streams st ! idx))]\<rparr>))"

definition push_batch :: "nat \<Rightarrow> record_batch \<Rightarrow> merge_stream \<Rightarrow> merge_stream" where
  "push_batch idx b st =
     (if num_rows b > 0
      then st\<lparr>ms_heap := cursor_new (ms_next_addr st, b) 0 idx (snd (ms_streams st ! idx)) (ms_ts_column_idx st) # ms_heap st,
              ms_next_addr := Suc (ms_next_addr st)\<rparr>
      else st)"

definition continue_pending_fetch :: "nat \<Rightarrow> merge_stream \<Rightarrow> unit res poll \<times> merge_stream" where
  "continue_pending_fetch idx st =
     (case poll_stream idx st of
        (Pending, st') \<Rightarrow> (Pending, st')
      | (Ready (Some (Inr b)), st') \<Rightarrow> (Ready (Inr ()), push_batch idx b (st'\<lparr>ms_pending := None\<rparr>))
      | (Ready (Some (Inl e)), st') \<Rightarrow> (Ready (Inl e), st')
      | (Ready None, st') \<Rightarrow> (Ready (Inr ()), st'\<lparr>ms_pending := None\<rparr>))"

function init_loop :: "merge_stream \<Rightarrow> unit res poll \<times> merge_stream" where
  "init_loop st =
     (if ms_init_idx st < length (ms_streams st)
      then let idx = ms_init_idx st in
        (case poll_stream idx st of
           (Pending, st') \<Rightarrow> (Pending, st')
         | (Ready (Some (Inr b)), st') \<Rightarrow> init_loop ((push_batch idx b st')\<lparr>ms_init_idx := Suc idx\<rparr>)
         | (Ready (Some (Inl e)), st') \<Rightarrow> (Ready (Inl e), st')
         | (Ready None, st') \<Rightarrow> init_loop (st'\<lparr>ms_init_idx := Suc idx\<rparr>))
      else (Ready (Inr ()), st\<lparr>ms_initialized := True\<rparr>))"
  by pat_completeness auto

termination
  by (relation "measure (\<lambda>st. length (ms_streams st) - ms_init_idx st)")
    (auto simp: poll_stream_def push_batch_def split: prod.splits if_splits)

declare init_loop.simps [simp del]

definition ensure_initialized :: "merge_stream \<Rightarrow> unit res poll \<times> merge_stream" where
  "ensure_initialized st = (if ms_initialized st then (Ready (Inr ()), st) else init_loop st)"

definition take_chunk :: "kernels \<Rightarrow> merge_stream \<Rightarrow> record_batch res \<times> merge_stream" where
  "take_chunk K st = (chunk_build K (ms_schema st) (ms_chunk st), st\<lparr>ms_chunk := chunk_new\<rparr>)"

definition advance_cursor :: "heap_cursor \<Rightarrow> merge_stream \<Rightarrow> unit res poll \<times> merge_stream" where
  "advance_cursor c0 st =
     (let c = c0\<lparr>hc_row_idx := Suc (hc_row_idx c0)\<rparr> in
      if hc_row_idx c < num_rows (snd (hc_batch c))
      then (Ready (Inr ()), st\<lparr>ms_heap := refresh_ts (ms_ts_column_idx st) c # ms_heap st\<rparr>)
      else let idx = hc_stream_idx c in
        (case poll_stream idx st of
           (Ready (Some (Inr b)), st') \<Rightarrow> (Ready (Inr ()), push_batch idx b st')
         | (Ready (Some (Inl e)), st') \<Rightarrow> (Ready (Inl e), st')
         | (Ready None, st') \<Rightarrow> (Ready (Inr ()), st')
         | (Pending, st') \<Rightarrow> (Pending, st'\<lparr>ms_pending := Some idx\<rparr>)))"

text \<open>The loop of \<^verbatim>\<open>poll_next\<close>. It returns, which is proved below.\<close>

partial_function (option) merge_loop ::
  "kernels \<Rightarrow> merge_stream \<Rightarrow> (record_batch res option poll \<times> merge_stream) option" where
  "merge_loop K st =
     (case (if length (mc_indices (ms_chunk st)) < OUTPUT_BATCH_SIZE then heap_pop cursor_before (ms_heap st) else None) of
        Some (c, h) \<Rightarrow>
          let st1 = st\<lparr>ms_heap := h\<rparr>;
              duplicate = (Some (hc_ts c) = ms_last_emitted_ts st1);
              st2 = (if duplicate then st1
                     else st1\<lparr>ms_last_emitted_ts := Some (hc_ts c),
                              ms_chunk := chunk_push (hc_batch c) (hc_row_idx c) (ms_chunk st1)\<rparr>)
          in if \<not> duplicate \<and> length (mc_indices (ms_chunk st2)) \<ge> OUTPUT_BATCH_SIZE
             then let (b, st3) = take_chunk K st2 in
               if isl b then Some (Ready (Some b), st3)
               else let (r, st4) = advance_cursor c st3 in
                 Some (Ready (Some (case r of Ready (Inl e) \<Rightarrow> Inl e | _ \<Rightarrow> b)), st4)
             else let (r, st3) = advance_cursor c st2 in
               if r = Pending then Some (Pending, st3)
               else if r = Ready (Inr ()) then merge_loop K st3
               else Some (Ready (Some (case r of Ready (Inl e) \<Rightarrow> Inl e)), st3)
      | None \<Rightarrow>
          if mc_indices (ms_chunk st) \<noteq> []
          then let (b, st') = take_chunk K st in Some (Ready (Some b), st')
          else if ms_heap st = [] then Some (Ready None, st)
          else merge_loop K st)"

definition poll_next ::
  "kernels \<Rightarrow> merge_stream \<Rightarrow> (record_batch res option poll \<times> merge_stream) option" where
  "poll_next K st =
     (case (case ms_pending st of None \<Rightarrow> (Ready (Inr ()), st) | Some idx \<Rightarrow> continue_pending_fetch idx st) of
        (Ready (Inl e), st1) \<Rightarrow> Some (Ready (Some (Inl e)), st1)
      | (Pending, st1) \<Rightarrow> Some (Pending, st1)
      | (Ready (Inr _), st1) \<Rightarrow>
          (case ensure_initialized st1 of
             (Pending, st2) \<Rightarrow> Some (Pending, st2)
           | (Ready (Inl e), st2) \<Rightarrow> Some (Ready (Some (Inl e)), st2)
           | (Ready (Inr _), st2) \<Rightarrow> merge_loop K st2))"

text \<open>The caller polls until the stream ends or fails.\<close>

partial_function (option) drain :: "kernels \<Rightarrow> record_batch list \<Rightarrow> merge_stream \<Rightarrow> record_batch list res option" where
  "drain K out st =
     Option.bind (poll_next K st) (\<lambda>(r, st').
       if r = Pending then drain K out st'
       else if r = Ready None then Some (Inr out)
       else let x = (case r of Ready x \<Rightarrow> the x) in
         if isl x then Some (Inl (projl x)) else drain K (out @ [projr x]) st')"

section \<open>Rows left in the inputs\<close>

text \<open>
  The rows the merge will still read from an input: what the cursor has not consumed and the batches up to
  the end of the stream or its first empty batch, after which the merge does not poll the stream again.
\<close>

fun items_rows :: "batch_stream \<Rightarrow> row list" where
  "items_rows [] = []"
| "items_rows (BatchItem b # s) = (if num_rows b = 0 then [] else rows b @ items_rows s)"
| "items_rows (_ # s) = items_rows s"

definition cursor_rows :: "heap_cursor \<Rightarrow> row list" where
  "cursor_rows c = drop (hc_row_idx c) (rows (snd (hc_batch c)))"

definition cursor_at :: "merge_stream \<Rightarrow> nat \<Rightarrow> heap_cursor option" where
  "cursor_at st i = find (\<lambda>c. hc_stream_idx c = i) (ms_heap st)"

definition rem_of :: "(nat \<Rightarrow> bool) \<Rightarrow> merge_stream \<Rightarrow> nat \<Rightarrow> row list" where
  "rem_of live st i =
     (case cursor_at st i of
        Some c \<Rightarrow> cursor_rows c @ items_rows (fst (ms_streams st ! i))
      | None \<Rightarrow> if live i then items_rows (fst (ms_streams st ! i)) else [])"

definition live_of :: "merge_stream \<Rightarrow> nat \<Rightarrow> bool" where
  "live_of st i \<longleftrightarrow> ms_pending st = Some i \<or> ms_init_idx st \<le> i"

definition item_ok :: "schema \<Rightarrow> poll_item \<Rightarrow> bool" where
  "item_ok s it = (case it of BatchItem b \<Rightarrow> batch_wf s b | NotYet \<Rightarrow> True | ErrorItem _ \<Rightarrow> False)"

definition cursor_ok :: "schema \<Rightarrow> (batch_stream \<times> nat) list \<Rightarrow> heap_cursor \<Rightarrow> bool" where
  "cursor_ok s streams c \<longleftrightarrow> hc_stream_idx c < length streams \<and>
     hc_layer_priority c = snd (streams ! hc_stream_idx c) \<and> batch_wf s (snd (hc_batch c)) \<and>
     hc_row_idx c < num_rows (snd (hc_batch c)) \<and>
     hc_ts c = row_time s (rows (snd (hc_batch c)) ! hc_row_idx c)"

definition chunk_ok :: "schema \<Rightarrow> merge_chunk \<Rightarrow> bool" where
  "chunk_ok s ch \<longleftrightarrow> (\<forall>a \<in> set (mc_sources ch). batch_wf s (snd a)) \<and>
     (\<forall>p i. mc_map ch p = Some i \<longrightarrow> i < length (mc_sources ch) \<and> fst (mc_sources ch ! i) = p) \<and>
     (\<forall>(j, r) \<in> set (mc_indices ch). j < length (mc_sources ch) \<and> r < num_rows (snd (mc_sources ch ! j)))"

text \<open>Two references with one address are the same batch.\<close>

definition arcs_ok :: "nat \<Rightarrow> arc set \<Rightarrow> bool" where
  "arcs_ok n A \<longleftrightarrow> (\<forall>a \<in> A. fst a < n) \<and> inj_on fst A"

definition merge_wf :: "schema \<Rightarrow> merge_stream \<Rightarrow> bool" where
  "merge_wf s st \<longleftrightarrow> ms_schema st = s \<and> ms_ts_column_idx st = time_idx s \<and>
     sorted_wrt (<) (map snd (ms_streams st)) \<and>
     (\<forall>x \<in> set (ms_streams st). \<forall>it \<in> set (fst x). item_ok s it) \<and>
     (\<forall>c \<in> set (ms_heap st). cursor_ok s (ms_streams st) c) \<and>
     distinct (map hc_stream_idx (ms_heap st)) \<and> chunk_ok s (ms_chunk st) \<and>
     arcs_ok (ms_next_addr st) (hc_batch ` set (ms_heap st) \<union> set (mc_sources (ms_chunk st)))"

definition merge_flags :: "merge_stream \<Rightarrow> bool" where
  "merge_flags st \<longleftrightarrow> ms_init_idx st \<le> length (ms_streams st) \<and>
     (ms_initialized st \<longrightarrow> ms_init_idx st = length (ms_streams st)) \<and>
     (\<forall>c \<in> set (ms_heap st). hc_stream_idx c < ms_init_idx st \<and> ms_pending st \<noteq> Some (hc_stream_idx c)) \<and>
     (\<forall>i. ms_pending st = Some i \<longrightarrow> i < ms_init_idx st)"

text \<open>The inputs of the abstract merge, from the oldest to the newest layer.\<close>

definition inputs :: "(nat \<Rightarrow> bool) \<Rightarrow> merge_stream \<Rightarrow> row list list" where
  "inputs live st = rev (map (rem_of live st) [0..<length (ms_streams st)])"

definition chunk_rows :: "merge_chunk \<Rightarrow> row list" where
  "chunk_rows ch = map (\<lambda>(j, r). rows (snd (mc_sources ch ! j)) ! r) (mc_indices ch)"

text \<open>The work left in the inputs and the heap.\<close>

definition item_weight :: "poll_item \<Rightarrow> nat" where
  "item_weight it = (case it of BatchItem b \<Rightarrow> Suc (num_rows b) | _ \<Rightarrow> 1)"

definition cursor_weight :: "heap_cursor \<Rightarrow> nat" where
  "cursor_weight c = Suc (num_rows (snd (hc_batch c)) - hc_row_idx c)"

definition stream_weight :: "batch_stream \<times> nat \<Rightarrow> nat" where
  "stream_weight s = sum_list (map item_weight (fst s))"

definition merge_weight :: "merge_stream \<Rightarrow> nat" where
  "merge_weight st = sum_list (map cursor_weight (ms_heap st)) + sum_list (map stream_weight (ms_streams st))"

lemma cursor_at_mem:
  assumes "distinct (map hc_stream_idx (ms_heap st))"
  shows "c \<in> set (ms_heap st) \<Longrightarrow> cursor_at st (hc_stream_idx c) = Some c"
proof -
  have "c \<in> set h \<Longrightarrow> distinct (map hc_stream_idx h) \<Longrightarrow> find (\<lambda>d. hc_stream_idx d = hc_stream_idx c) h = Some c" for h
    by (induction h) force+
  then show "c \<in> set (ms_heap st) \<Longrightarrow> ?thesis" using assms by (simp add: cursor_at_def)
qed

lemma cursor_at_None: "cursor_at st i = None \<longleftrightarrow> i \<notin> hc_stream_idx ` set (ms_heap st)"
  by (auto simp: cursor_at_def find_None_iff)

lemma cursor_at_Some: "cursor_at st i = Some c \<Longrightarrow> c \<in> set (ms_heap st) \<and> hc_stream_idx c = i"
  by (auto simp: cursor_at_def find_Some_iff)

lemma rem_of_upd [simp]:
  "rem_of l (st\<lparr>ms_pending := x\<rparr>) = rem_of l st" "rem_of l (st\<lparr>ms_init_idx := n\<rparr>) = rem_of l st"
  "rem_of l (st\<lparr>ms_initialized := b\<rparr>) = rem_of l st" "rem_of l (st\<lparr>ms_last_emitted_ts := t\<rparr>) = rem_of l st"
  "rem_of l (st\<lparr>ms_chunk := ch\<rparr>) = rem_of l st"
  by (auto intro!: ext simp: rem_of_def cursor_at_def split: option.split)

lemma live_of_upd [simp]:
  "live_of (st\<lparr>ms_initialized := b\<rparr>) = live_of st" "live_of (st\<lparr>ms_last_emitted_ts := t\<rparr>) = live_of st"
  "live_of (st\<lparr>ms_chunk := ch\<rparr>) = live_of st" "live_of (st\<lparr>ms_heap := h\<rparr>) = live_of st"
  by (simp_all add: live_of_def fun_eq_iff)

lemma merge_weight_upd [simp]:
  "merge_weight (st\<lparr>ms_pending := x\<rparr>) = merge_weight st" "merge_weight (st\<lparr>ms_init_idx := n\<rparr>) = merge_weight st"
  "merge_weight (st\<lparr>ms_initialized := b\<rparr>) = merge_weight st" "merge_weight (st\<lparr>ms_last_emitted_ts := t\<rparr>) = merge_weight st"
  "merge_weight (st\<lparr>ms_chunk := ch\<rparr>) = merge_weight st"
  by (simp_all add: merge_weight_def)

lemma merge_wf_upd [simp]:
  "merge_wf s (st\<lparr>ms_pending := x\<rparr>) = merge_wf s st" "merge_wf s (st\<lparr>ms_init_idx := n\<rparr>) = merge_wf s st"
  "merge_wf s (st\<lparr>ms_initialized := b\<rparr>) = merge_wf s st" "merge_wf s (st\<lparr>ms_last_emitted_ts := t\<rparr>) = merge_wf s st"
  by (simp_all add: merge_wf_def)

lemma poll_stream_eq:
  "poll_stream i st = (fst (poll_input (fst (ms_streams st ! i))),
     st\<lparr>ms_streams := (ms_streams st)[i := (snd (poll_input (fst (ms_streams st ! i))), snd (ms_streams st ! i))]\<rparr>)"
  by (simp add: poll_stream_def case_prod_unfold Let_def)

lemma push_batch_fields [simp]:
  "ms_streams (push_batch i b st) = ms_streams st" "ms_schema (push_batch i b st) = ms_schema st"
  "ms_ts_column_idx (push_batch i b st) = ms_ts_column_idx st" "ms_initialized (push_batch i b st) = ms_initialized st"
  "ms_init_idx (push_batch i b st) = ms_init_idx st" "ms_last_emitted_ts (push_batch i b st) = ms_last_emitted_ts st"
  "ms_chunk (push_batch i b st) = ms_chunk st" "ms_pending (push_batch i b st) = ms_pending st"
  by (simp_all add: push_batch_def)

lemma map_snd_update: "map snd (xs[i := (y, snd (xs ! i))]) = map snd xs"
  by (cases "i < length xs") (simp_all add: map_update list_update_same_conv list_update_beyond)

lemma poll_stream_wf:
  assumes "merge_wf s st" and "i < length (ms_streams st)" and "poll_stream i st = (r, st1)"
  shows "merge_wf s st1"
proof -
  let ?x = "fst (ms_streams st ! i)"
  have sub: "set (snd (poll_input ?x)) \<subseteq> set ?x" by (cases ?x rule: poll_input.cases) auto
  have x: "item_ok s it" if "it \<in> set ?x" for it using assms(1,2) that by (auto simp: merge_wf_def)
  have "\<forall>y \<in> set ((ms_streams st)[i := (snd (poll_input ?x), snd (ms_streams st ! i))]). \<forall>it \<in> set (fst y). item_ok s it"
    using assms(1) x sub set_update_subset_insert [of "ms_streams st" i] by (fastforce simp: merge_wf_def)
  moreover have "cursor_ok s ((ms_streams st)[i := (y, snd (ms_streams st ! i))]) c = cursor_ok s (ms_streams st) c" for y c
    by (cases "hc_stream_idx c = i") (auto simp: cursor_ok_def)
  ultimately show ?thesis
    using assms(1,3) by (auto simp: poll_stream_eq merge_wf_def map_snd_update)
qed

lemma time_or_min_wf:
  assumes "schema_wf s" and "batch_wf s b" and "r < num_rows b"
  shows "time_or_min (time_idx s) b r = row_time s (rows b ! r)"
  using time_value_wf [OF assms] by (simp add: time_or_min_def)

lemma arcs_ok_fresh: "arcs_ok n A \<Longrightarrow> arcs_ok (Suc n) (insert (n, b) A)"
  by (fastforce simp: arcs_ok_def inj_on_def)

lemma push_batch_wf:
  assumes "schema_wf s" and "merge_wf s st" and "i < length (ms_streams st)" and "cursor_at st i = None"
    and "batch_wf s b"
  shows "merge_wf s (push_batch i b st)"
proof (cases "num_rows b = 0")
  case False
  let ?c = "cursor_new (ms_next_addr st, b) 0 i (snd (ms_streams st ! i)) (ms_ts_column_idx st)"
  have ts: "ms_ts_column_idx st = time_idx s" using assms(2) by (simp add: merge_wf_def)
  have "cursor_ok s (ms_streams st) ?c"
    using assms(3,5) False time_or_min_wf [OF assms(1,5), of 0] by (simp add: cursor_ok_def cursor_new_def ts)
  moreover have "i \<notin> hc_stream_idx ` set (ms_heap st)" using assms(4) by (simp add: cursor_at_None)
  moreover have "hc_batch ?c = (ms_next_addr st, b)" "hc_stream_idx ?c = i" by (simp_all add: cursor_new_def)
  ultimately show ?thesis
    using assms(2) False arcs_ok_fresh [of "ms_next_addr st" _ b] by (simp add: merge_wf_def push_batch_def)
qed (use assms(2) in \<open>simp add: push_batch_def\<close>)

text \<open>
  A poll of an input without cursor leaves the rows to be read as they are: an answer that is not there yet
  keeps the input live, the end of the stream or a batch settles it.
\<close>

definition settle :: "nat \<Rightarrow> record_batch res option poll \<Rightarrow> merge_stream \<Rightarrow> merge_stream" where
  "settle i r st = (case r of Ready (Some (Inr b)) \<Rightarrow> push_batch i b st | _ \<Rightarrow> st)"

lemma settle_fields [simp]:
  "ms_streams (settle i r st) = ms_streams st" "ms_schema (settle i r st) = ms_schema st"
  "ms_initialized (settle i r st) = ms_initialized st"
  "ms_init_idx (settle i r st) = ms_init_idx st" "ms_last_emitted_ts (settle i r st) = ms_last_emitted_ts st"
  "ms_chunk (settle i r st) = ms_chunk st" "ms_pending (settle i r st) = ms_pending st"
  by (simp_all add: settle_def split: poll.split option.split sum.split)

lemma cursor_at_push:
  "cursor_at (push_batch i b st) j =
     (if num_rows b > 0 \<and> j = i
      then Some (cursor_new (ms_next_addr st, b) 0 i (snd (ms_streams st ! i)) (ms_ts_column_idx st))
      else cursor_at st j)"
  by (auto simp: cursor_at_def push_batch_def cursor_new_def)

lemma poll_cases:
  assumes "poll_stream i st = (r, st1)"
  obtains (empty) "fst (ms_streams st ! i) = []" "r = Ready None"
  | (wait) l where "fst (ms_streams st ! i) = NotYet # l" "r = Pending"
  | (batch) b l where "fst (ms_streams st ! i) = BatchItem b # l" "r = Ready (Some (Inr b))"
  | (err) e l where "fst (ms_streams st ! i) = ErrorItem e # l" "r = Ready (Some (Inl e))"
  using assms by (cases "fst (ms_streams st ! i)" rule: poll_input.cases) (auto simp: poll_stream_eq)

lemma sum_list_update_nat:
  "i < length xs \<Longrightarrow> sum_list (map f (xs[i := y])) + f (xs ! i) = sum_list (map f xs) + (f y :: nat)"
  by (induction xs arbitrary: i) (auto split: nat.split)

lemma settle_ok:
  assumes "schema_wf s" and wf: "merge_wf s st" and i: "i < length (ms_streams st)" and none: "cursor_at st i = None"
    and p: "poll_stream i st = (r, st1)"
  shows "merge_wf s (settle i r st1)" and "\<nexists>e. r = Ready (Some (Inl e))"
    and "live i \<Longrightarrow> rem_of (live(i := (r = Pending))) (settle i r st1) = rem_of live st"
    and "set (ms_heap (settle i r st1)) \<subseteq> {c. hc_stream_idx c = i \<and> r \<noteq> Pending} \<union> set (ms_heap st)"
    and "merge_weight (settle i r st1) + (if r = Pending then 1 else 0) \<le> merge_weight st"
proof -
  let ?x = "ms_streams st ! i"
  have st1: "st1 = st\<lparr>ms_streams := (ms_streams st)[i := (snd (poll_input (fst ?x)), snd ?x)]\<rparr>"
    using p by (simp add: poll_stream_eq)
  note wf1 = poll_stream_wf [OF wf i p]
  have none1: "cursor_at st1 j = cursor_at st j" for j by (simp add: st1 cursor_at_def)
  have str1: "ms_streams st1 = (ms_streams st)[i := (snd (poll_input (fst ?x)), snd ?x)]" by (simp add: st1)
  have it: "item_ok s x" if "x \<in> set (fst ?x)" for x using wf i that by (auto simp: merge_wf_def)
  have i1: "i < length (ms_streams st1)" using i by (simp add: st1)
  show "merge_wf s (settle i r st1)"
    using p
  proof (cases rule: poll_cases)
    case (batch b l)
    then have "batch_wf s b" using it [of "BatchItem b"] by (simp add: item_ok_def)
    then show ?thesis using push_batch_wf [OF assms(1) wf1 i1] none none1 batch by (simp add: settle_def)
  qed (use wf1 in \<open>simp_all add: settle_def\<close>)
  show noerr: "\<nexists>e. r = Ready (Some (Inl e))"
    using p it [of "List.hd (fst ?x)"] by (cases rule: poll_cases) (auto simp: item_ok_def)
  show "set (ms_heap (settle i r st1)) \<subseteq> {c. hc_stream_idx c = i \<and> r \<noteq> Pending} \<union> set (ms_heap st)"
    by (auto simp: settle_def push_batch_def cursor_new_def st1 split: poll.splits option.splits sum.splits if_splits)
  show "rem_of (live(i := (r = Pending))) (settle i r st1) = rem_of live st" if live: "live i"
  proof
    fix j
    show "rem_of (live(i := (r = Pending))) (settle i r st1) j = rem_of live st j"
    proof (cases "j = i")
      case True
      show ?thesis
        using p live none i noerr by (cases rule: poll_cases)
          (auto simp: True rem_of_def settle_def none1 cursor_at_push cursor_rows_def cursor_new_def str1)
    next
      case False
      then have "cursor_at (settle i r st1) j = cursor_at st j"
        by (simp add: settle_def cursor_at_push none1 split: poll.split option.split sum.split)
      then show ?thesis using False by (simp add: rem_of_def str1 split: option.split)
    qed
  qed
  have w: "merge_weight st1 + stream_weight ?x = merge_weight st + stream_weight (snd (poll_input (fst ?x)), snd ?x)"
    using sum_list_update_nat [OF i, of stream_weight "(snd (poll_input (fst ?x)), snd ?x)"]
    by (simp add: st1 merge_weight_def)
  have push: "merge_weight (push_batch i b st1) \<le> merge_weight st1 + Suc (num_rows b)" for b
    by (simp add: push_batch_def merge_weight_def cursor_weight_def cursor_new_def)
  from p show "merge_weight (settle i r st1) + (if r = Pending then 1 else 0) \<le> merge_weight st"
  proof (cases rule: poll_cases)
    case (batch b l)
    then show ?thesis using w push [of b] by (simp add: settle_def stream_weight_def item_weight_def)
  qed (use w in \<open>simp_all add: settle_def stream_weight_def item_weight_def\<close>)
qed

text \<open>A fetch that changes nothing of what the abstract merge sees.\<close>

definition keeps :: "schema \<Rightarrow> merge_stream \<Rightarrow> merge_stream \<Rightarrow> bool" where
  "keeps s st st' \<longleftrightarrow> merge_wf s st' \<and> merge_flags st' \<and> length (ms_streams st') = length (ms_streams st) \<and>
     inputs (live_of st') st' = inputs (live_of st) st \<and> ms_chunk st' = ms_chunk st \<and>
     ms_last_emitted_ts st' = ms_last_emitted_ts st \<and> merge_weight st' \<le> merge_weight st"

lemma keeps_trans: "keeps s st1 st2 \<Longrightarrow> keeps s st2 st3 \<Longrightarrow> keeps s st1 st3"
  by (simp add: keeps_def)

lemma continue_pending_keeps:
  assumes "schema_wf s" and "merge_wf s st" and "merge_flags st" and "ms_pending st = Some i"
    and "continue_pending_fetch i st = (r, st')"
  shows "keeps s st st' \<and> ms_initialized st' = ms_initialized st \<and>
    (r = Pending \<and> merge_weight st' < merge_weight st \<or> r = Ready (Inr ()) \<and> ms_pending st' = None)"
proof -
  obtain q st1 where p: "poll_stream i st = (q, st1)" by fastforce
  have i: "i < length (ms_streams st)" "i < ms_init_idx st" and none: "cursor_at st i = None"
    using assms(3,4) by (auto simp: merge_flags_def cursor_at_None)
  note ok = settle_ok [OF assms(1,2) i(1) none p]
  have len: "length (ms_streams st1) = length (ms_streams st)" "ms_chunk st1 = ms_chunk st"
    "ms_last_emitted_ts st1 = ms_last_emitted_ts st" "ms_pending st1 = ms_pending st" "ms_init_idx st1 = ms_init_idx st"
    "ms_initialized st1 = ms_initialized st"
    using p by (auto simp: poll_stream_eq)
  have e: "r = (if q = Pending then Pending else Ready (Inr ()))" "st' = (settle i q st1)\<lparr>ms_pending := if q = Pending then Some i else None\<rparr>"
    using assms(4,5) p ok(2) len(4)
    by (auto simp: continue_pending_fetch_def settle_def push_batch_def split: poll.splits option.splits sum.splits)
  have live: "live_of st' = (live_of st)(i := (q = Pending))"
    using assms(4) i(2) len(5) by (auto simp: e(2) live_of_def fun_eq_iff)
  have "inputs (live_of st') st' = inputs (live_of st) st"
    using ok(3) [of "live_of st"] assms(4) unfolding inputs_def live by (simp add: e(2) len live_of_def [of st])
  moreover have "merge_flags st'"
    using assms(3,4) ok(4) i len by (fastforce simp: merge_flags_def e(2))
  ultimately show ?thesis
    using ok(1,5) len by (auto simp: keeps_def e split: if_splits)
qed

lemma init_loop_keeps:
  assumes "schema_wf s"
  shows "merge_wf s st \<Longrightarrow> merge_flags st \<Longrightarrow> ms_pending st = None \<Longrightarrow> \<not> ms_initialized st \<Longrightarrow> init_loop st = (r, st') \<Longrightarrow>
    keeps s st st' \<and> ms_pending st' = None \<and>
    (r = Pending \<and> merge_weight st' < merge_weight st \<or> r = Ready (Inr ()) \<and> ms_initialized st')"
proof (induction "length (ms_streams st) - ms_init_idx st" arbitrary: st rule: less_induct)
  case (less st)
  show ?case
  proof (cases "ms_init_idx st < length (ms_streams st)")
    case True
    let ?i = "ms_init_idx st"
    obtain q st1 where p: "poll_stream ?i st = (q, st1)" by fastforce
    have none: "cursor_at st ?i = None" using less.prems(2) by (auto simp: merge_flags_def cursor_at_None)
    note ok = settle_ok [OF assms less.prems(1) True none p]
    have len: "length (ms_streams st1) = length (ms_streams st)" "ms_chunk st1 = ms_chunk st"
      "ms_last_emitted_ts st1 = ms_last_emitted_ts st" "ms_pending st1 = ms_pending st" "ms_init_idx st1 = ?i"
      "ms_initialized st1 = ms_initialized st"
      using p by (auto simp: poll_stream_eq)
    let ?st2 = "(settle ?i q st1)\<lparr>ms_init_idx := if q = Pending then ?i else Suc ?i\<rparr>"
    have live: "live_of ?st2 = (live_of st)(?i := (q = Pending))"
      using less.prems(3) len(4,5) by (auto simp: live_of_def fun_eq_iff)
    have "inputs (live_of ?st2) ?st2 = inputs (live_of st) st"
      using ok(3) [of "live_of st"] unfolding inputs_def live by (simp add: len live_of_def [of st])
    moreover have "merge_flags ?st2"
      using less.prems(2-4) ok(4) True len by (fastforce simp: merge_flags_def)
    ultimately have k: "keeps s st ?st2" using ok(1,5) len by (auto simp: keeps_def)
    show ?thesis
    proof (cases "q = Pending")
      case w: True
      then have "r = Pending" "st' = ?st2"
        using less.prems(5) p True len(5) by (simp_all add: init_loop.simps [of st] settle_def)
      then show ?thesis using k ok(5) w less.prems(3) len by simp
    next
      case False
      then have "init_loop ?st2 = (r, st')"
        using less.prems(5) p True ok(2)
        by (auto simp: init_loop.simps [of st] Let_def settle_def split: poll.splits option.splits sum.splits)
      moreover have "merge_wf s ?st2" "merge_flags ?st2" using k by (simp_all add: keeps_def)
      moreover have "length (ms_streams ?st2) - ms_init_idx ?st2 < length (ms_streams st) - ?i"
        using True False len by simp
      ultimately have "keeps s ?st2 st' \<and> ms_pending st' = None \<and>
          (r = Pending \<and> merge_weight st' < merge_weight ?st2 \<or> r = Ready (Inr ()) \<and> ms_initialized st')"
        using less.hyps [of ?st2] less.prems(3,4) len by simp
      moreover have "merge_weight ?st2 \<le> merge_weight st" using k by (simp add: keeps_def)
      ultimately show ?thesis using keeps_trans [OF k] by auto
    qed
  next
    case False
    then have "r = Ready (Inr ())" "st' = st\<lparr>ms_initialized := True\<rparr>"
      using less.prems(5) by (simp_all add: init_loop.simps [of st])
    then show ?thesis
      using less.prems False
      by (auto simp: keeps_def merge_flags_def inputs_def)
  qed
qed

section \<open>One row\<close>

lemma heap_pop_cursor:
  assumes "heap_pop cursor_before h = Some (c, h')"
  shows "c \<in> set h" "h' = remove1 c h" "\<forall>d \<in> set h. \<not> cursor_before d c"
  by (rule heap_pop_first [OF _ _ _ assms]; auto simp: cursor_before_def)+

abbreviation none_live :: "nat \<Rightarrow> bool" where
  "none_live \<equiv> \<lambda>_. False"

lemma inputs_nth:
  "i < length (ms_streams st) \<Longrightarrow> inputs l st ! (length (ms_streams st) - Suc i) = rem_of l st i"
  "length (inputs l st) = length (ms_streams st)"
  by (simp_all add: inputs_def rev_nth)

lemma popped_first_row:
  assumes wf: "merge_wf s st" and pop: "heap_pop cursor_before (ms_heap st) = Some (c, h)"
  shows "first_row (row_time s) (inputs none_live st) (length (ms_streams st) - Suc (hc_stream_idx c))
    (rows (snd (hc_batch c)) ! hc_row_idx c)"
proof -
  let ?n = "length (ms_streams st)" and ?R = "inputs none_live st"
  note pc = heap_pop_cursor [OF pop]
  have dist: "distinct (map hc_stream_idx (ms_heap st))" and ok: "d \<in> set (ms_heap st) \<Longrightarrow> cursor_ok s (ms_streams st) d" for d
    using wf by (auto simp: merge_wf_def)
  have head: "rem_of none_live st (hc_stream_idx d) \<noteq> []"
      "List.hd (rem_of none_live st (hc_stream_idx d)) = rows (snd (hc_batch d)) ! hc_row_idx d" if "d \<in> set (ms_heap st)" for d
    using cursor_at_mem [OF dist that] ok [OF that]
    by (simp_all add: rem_of_def cursor_rows_def cursor_ok_def hd_drop_conv_nth)
  have idx: "hc_stream_idx d < ?n" "hc_ts d = row_time s (rows (snd (hc_batch d)) ! hc_row_idx d)"
      "hc_layer_priority d = map snd (ms_streams st) ! hc_stream_idx d" if "d \<in> set (ms_heap st)" for d
    using ok [OF that] by (simp_all add: cursor_ok_def)
  have "row_time s (rows (snd (hc_batch c)) ! hc_row_idx c) < row_time s (List.hd (?R ! j)) \<or>
      row_time s (rows (snd (hc_batch c)) ! hc_row_idx c) = row_time s (List.hd (?R ! j)) \<and> j \<le> ?n - Suc (hc_stream_idx c)"
    if j: "j < ?n" "?R ! j \<noteq> []" for j
  proof -
    let ?i = "?n - Suc j"
    have Rj: "?R ! j = rem_of none_live st ?i" using inputs_nth(1) [of ?i st none_live] j(1) by simp
    obtain d where d: "cursor_at st ?i = Some d" using j(2) Rj by (auto simp: rem_of_def split: option.splits)
    then have dm: "d \<in> set (ms_heap st)" "hc_stream_idx d = ?i" using cursor_at_Some by blast+
    have hd: "row_time s (List.hd (?R ! j)) = hc_ts d" unfolding Rj using head(2) [OF dm(1)] idx(2) [OF dm(1)] dm(2)
      by simp
    have nb: "\<not> cursor_before d c" using pc(3) dm(1) by blast
    have "hc_stream_idx c \<le> ?i" if "hc_ts c = hc_ts d"
    proof (rule ccontr)
      assume "\<not> hc_stream_idx c \<le> ?i"
      then have "hc_layer_priority d < hc_layer_priority c"
        using wf idx(1,3) [OF pc(1)] idx(3) [OF dm(1)] dm(2)
        by (auto simp: merge_wf_def sorted_wrt_iff_nth_less)
      then show False using nb that by (simp add: cursor_before_def)
    qed
    then show ?thesis using nb idx [OF pc(1)] j(1) unfolding hd by (auto simp: cursor_before_def)
  qed
  then show ?thesis
    using head [OF pc(1)] idx(1) [OF pc(1)] by (simp add: first_row_def inputs_nth)
qed

lemma chunk_push_ok:
  assumes "chunk_ok s ch" and "batch_wf s (snd a)" and "r < num_rows (snd a)"
    and inj: "inj_on fst (insert a (set (mc_sources ch)))"
  shows "chunk_ok s (chunk_push a r ch)" and "chunk_rows (chunk_push a r ch) = chunk_rows ch @ [rows (snd a) ! r]"
    and "set (mc_sources (chunk_push a r ch)) \<subseteq> insert a (set (mc_sources ch))"
    and "length (mc_indices (chunk_push a r ch)) = Suc (length (mc_indices ch))"
proof -
  have idx: "j < length (mc_sources ch)" if "(j, q) \<in> set (mc_indices ch)" for j q
    using assms(1) that by (auto simp: chunk_ok_def)
  show "chunk_rows (chunk_push a r ch) = chunk_rows ch @ [rows (snd a) ! r]"
  proof (cases "mc_map ch (fst a)")
    case None
    then show ?thesis using idx by (auto simp: chunk_push_def chunk_rows_def Let_def nth_append)
  next
    case (Some i)
    then have "i < length (mc_sources ch)" "fst (mc_sources ch ! i) = fst a" using assms(1) by (auto simp: chunk_ok_def)
    then have "mc_sources ch ! i = a" using inj by (auto simp: inj_on_def)
    then show ?thesis using Some by (simp add: chunk_push_def chunk_rows_def)
  qed
  show "chunk_ok s (chunk_push a r ch)"
  proof (cases "mc_map ch (fst a)")
    case None
    then show ?thesis
      using assms(1-3) unfolding chunk_ok_def chunk_push_def Let_def
      by (auto simp: nth_append less_Suc_eq split: if_splits)
  next
    case (Some i)
    then have i: "i < length (mc_sources ch)" "fst (mc_sources ch ! i) = fst a" using assms(1) by (auto simp: chunk_ok_def)
    then have "mc_sources ch ! i = a" using inj by (auto simp: inj_on_def)
    then show ?thesis using Some assms(1,3) i(1) by (auto simp: chunk_push_def chunk_ok_def)
  qed
qed (auto simp: chunk_push_def Let_def split: option.splits)

lemma take_chunk_ok:
  assumes "kernels_ok K" and "merge_wf s st" and "mc_indices (ms_chunk st) \<noteq> []" and "take_chunk K st = (b, st')"
  obtains b' where "b = Inr b'" and "batch_wf s b'" and "rows b' = chunk_rows (ms_chunk st)"
    and "num_rows b' = length (mc_indices (ms_chunk st))"
proof -
  let ?ch = "ms_chunk st" and ?bs = "map snd (mc_sources (ms_chunk st))"
  have ok: "chunk_ok s ?ch" and s: "ms_schema st = s" using assms(2) by (simp_all add: merge_wf_def)
  obtain j q ps where "mc_indices ?ch = (j, q) # ps" using assms(3) by (cases "mc_indices ?ch") auto
  then have ne: "?bs \<noteq> []" using ok by (auto simp: chunk_ok_def)
  have wf: "batches_wf s ?bs" using ok by (auto simp: chunk_ok_def)
  have rng: "\<forall>(c, r) \<in> set (mc_indices ?ch). c < length ?bs \<and> r < num_rows (?bs ! c)" using ok by (auto simp: chunk_ok_def)
  from interleave_rows [OF assms(1) ne wf rng, of "''interleave''" "''merged batch''"] obtain b' where
    b': "chunk_build K s ?ch = Inr b'" "batch_wf s b'" "rows b' = map (\<lambda>(c, r). rows (?bs ! c) ! r) (mc_indices ?ch)"
    unfolding chunk_build_def by blast
  have "rows b' = chunk_rows ?ch" using b'(3) rng by (auto simp: chunk_rows_def)
  moreover have "num_rows b' = length (mc_indices ?ch)" using arg_cong [OF b'(3), of length] by simp
  ultimately show ?thesis using that [of b'] b'(1,2) assms(4) by (auto simp: take_chunk_def s)
qed

lemma cursor_at_remove:
  assumes "distinct (map hc_stream_idx (ms_heap st))" and "c \<in> set (ms_heap st)"
  shows "cursor_at (st\<lparr>ms_heap := remove1 c (ms_heap st)\<rparr>) i = (if i = hc_stream_idx c then None else cursor_at st i)"
proof -
  have "c \<in> set h \<Longrightarrow> distinct (map hc_stream_idx h) \<Longrightarrow> find (\<lambda>d. hc_stream_idx d = i) (remove1 c h) =
      (if i = hc_stream_idx c then None else find (\<lambda>d. hc_stream_idx d = i) h)" for h
    by (induction h) (auto simp: find_None_iff intro: rev_image_eqI)
  then show ?thesis using assms by (simp add: cursor_at_def)
qed

lemma refresh_ts_fields [simp]:
  "hc_stream_idx (refresh_ts t c) = hc_stream_idx c" "hc_batch (refresh_ts t c) = hc_batch c"
  "hc_row_idx (refresh_ts t c) = hc_row_idx c" "hc_layer_priority (refresh_ts t c) = hc_layer_priority c"
  by (simp_all add: refresh_ts_def)

lemma inputs_update:
  assumes "i < length (ms_streams st)" and "length (ms_streams st') = length (ms_streams st)" and "rem_of l' st' i = x"
    and "\<And>k. k < length (ms_streams st) \<Longrightarrow> k \<noteq> i \<Longrightarrow> rem_of l' st' k = rem_of l st k"
  shows "inputs l' st' = (inputs l st)[length (ms_streams st) - Suc i := x]"
proof (rule nth_equalityI)
  fix k assume "k < length (inputs l' st')"
  then have k: "k < length (ms_streams st)" using assms(2) by (simp add: inputs_nth)
  let ?n = "length (ms_streams st)"
  have 1: "inputs l' st' ! k = rem_of l' st' (?n - Suc k)"
    using inputs_nth(1) [of "?n - Suc k" st' l'] k unfolding assms(2) by simp
  have 2: "inputs l st ! k = rem_of l st (?n - Suc k)" using inputs_nth(1) [of "?n - Suc k" st l] k by simp
  show "inputs l' st' ! k = (inputs l st)[?n - Suc i := x] ! k"
  proof (cases "k = ?n - Suc i")
    case True
    then have "?n - Suc k = i" using assms(1) by simp
    then show ?thesis using 1 True k assms(3) by (simp add: inputs_nth)
  next
    case False
    then have "?n - Suc k \<noteq> i" "?n - Suc k < ?n" using k by auto
    then show ?thesis using 1 2 False assms(4) by simp
  qed
qed (simp add: inputs_nth assms(2))

lemma advance_ok:
  assumes "schema_wf s" and wf: "merge_wf s st" and fl: "merge_flags st" and ini: "ms_initialized st" "ms_pending st = None"
    and c: "cursor_ok s (ms_streams st) c" and none: "cursor_at st (hc_stream_idx c) = None"
    and arcs: "arcs_ok (ms_next_addr st) (insert (hc_batch c) (hc_batch ` set (ms_heap st) \<union> set (mc_sources (ms_chunk st))))"
    and adv: "advance_cursor c st = (r, st')"
  shows "merge_wf s st' \<and> merge_flags st' \<and> ms_initialized st' \<and> length (ms_streams st') = length (ms_streams st) \<and>
    ms_chunk st' = ms_chunk st \<and> ms_last_emitted_ts st' = ms_last_emitted_ts st \<and>
    inputs (live_of st') st' = (inputs none_live st)[length (ms_streams st) - Suc (hc_stream_idx c) :=
      List.tl (cursor_rows c) @ items_rows (fst (ms_streams st ! hc_stream_idx c))] \<and>
    merge_weight st' < merge_weight st + cursor_weight c \<and>
    (r = Pending \<or> r = Ready (Inr ()) \<and> ms_pending st' = None)"
proof -
  let ?i = "hc_stream_idx c" and ?n = "length (ms_streams st)" and ?b = "snd (hc_batch c)"
  have i: "?i < ?n" and row: "hc_row_idx c < num_rows ?b" and bwf: "batch_wf s ?b" using c by (simp_all add: cursor_ok_def)
  have init: "ms_init_idx st = ?n" using fl ini by (simp add: merge_flags_def)
  have ts: "ms_ts_column_idx st = time_idx s" using wf by (simp add: merge_wf_def)
  show ?thesis
  proof (cases "Suc (hc_row_idx c) < num_rows ?b")
    case True
    let ?c = "refresh_ts (ms_ts_column_idx st) (c\<lparr>hc_row_idx := Suc (hc_row_idx c)\<rparr>)"
    have e: "r = Ready (Inr ())" "st' = st\<lparr>ms_heap := ?c # ms_heap st\<rparr>"
      using adv True by (simp_all add: advance_cursor_def)
    have "cursor_ok s (ms_streams st) ?c"
      using c True time_or_min_wf [OF assms(1) bwf True] by (simp add: cursor_ok_def refresh_ts_def ts)
    moreover have "?i \<notin> hc_stream_idx ` set (ms_heap st)" using none by (simp add: cursor_at_None)
    ultimately have "merge_wf s st'" using wf arcs by (simp add: merge_wf_def e(2))
    moreover have "merge_flags st'" using fl i ini init by (simp add: merge_flags_def e(2))
    moreover have at: "cursor_at st' k = (if k = ?i then Some ?c else cursor_at st k)" for k
      by (simp add: cursor_at_def e(2))
    have "inputs (live_of st') st' = (inputs none_live st)[?n - Suc ?i := List.tl (cursor_rows c) @ items_rows (fst (ms_streams st ! ?i))]"
    proof (rule inputs_update [OF i])
      show "rem_of (live_of st') st' ?i = List.tl (cursor_rows c) @ items_rows (fst (ms_streams st ! ?i))"
        by (simp add: rem_of_def at) (simp add: e(2) cursor_rows_def tl_drop drop_Suc)
      show "rem_of (live_of st') st' k = rem_of none_live st k" if "k < ?n" "k \<noteq> ?i" for k
        using that init ini by (simp add: rem_of_def at live_of_def split: option.split) (simp add: e(2))
    qed (simp add: e(2))
    moreover have "cursor_weight ?c < cursor_weight c" using True by (simp add: cursor_weight_def)
    ultimately show ?thesis using ini by (simp add: e merge_weight_def)
  next
    case False
    obtain q st1 where p: "poll_stream ?i st = (q, st1)" by fastforce
    note ok = settle_ok [OF assms(1) wf i none p]
    have f: "length (ms_streams st1) = ?n" "ms_chunk st1 = ms_chunk st" "ms_init_idx st1 = ?n"
      "ms_last_emitted_ts st1 = ms_last_emitted_ts st" "ms_pending st1 = None" "ms_initialized st1"
      using p ini init by (auto simp: poll_stream_eq)
    have e: "r = (if q = Pending then Pending else Ready (Inr ()))"
      "st' = (settle ?i q st1)\<lparr>ms_pending := if q = Pending then Some ?i else None\<rparr>"
      using adv False p ok(2) f(5)
      by (auto simp: advance_cursor_def Let_def settle_def push_batch_def split: poll.splits option.splits sum.splits)
    have tl: "List.tl (cursor_rows c) = []" using False row by (simp add: cursor_rows_def tl_drop drop_Suc)
    let ?live = "\<lambda>k. k = ?i"
    have rem: "rem_of (live_of st') st' k = rem_of ?live st k" if "k < ?n" for k
    proof -
      have "live_of st' k = (?live(?i := (q = Pending))) k" using that f(3) by (auto simp: live_of_def e(2))
      then have "rem_of (live_of st') st' k = rem_of (?live(?i := (q = Pending))) st' k" by (simp add: rem_of_def)
      also have "\<dots> = rem_of (?live(?i := (q = Pending))) (settle ?i q st1) k" by (simp add: e(2))
      finally show ?thesis using ok(3) [of ?live] by simp
    qed
    have "inputs (live_of st') st' = (inputs none_live st)[?n - Suc ?i := List.tl (cursor_rows c) @ items_rows (fst (ms_streams st ! ?i))]"
      by (rule inputs_update [OF i]) (use rem i none in \<open>simp_all add: e(2) f(1) tl rem_of_def split: option.split\<close>)
    moreover have away: "hc_stream_idx d \<noteq> ?i" if "d \<in> set (ms_heap st)" for d
      using imageI [OF that, of hc_stream_idx] none unfolding cursor_at_None by metis
    have "hc_stream_idx d < ?n \<and> (q = Pending \<longrightarrow> hc_stream_idx d \<noteq> ?i)" if "d \<in> set (ms_heap (settle ?i q st1))" for d
      using subsetD [OF ok(4) that] fl i init away [of d] by (auto simp: merge_flags_def)
    then have "\<forall>d \<in> set (ms_heap (settle ?i q st1)). hc_stream_idx d < ?n \<and> (q = Pending \<longrightarrow> ?i \<noteq> hc_stream_idx d)" by metis
    then have "merge_flags st'" using i f by (simp add: merge_flags_def e(2))
    moreover have "merge_weight st' < merge_weight st + cursor_weight c"
      using ok(5) by (simp add: e(2) cursor_weight_def split: if_splits)
    ultimately show ?thesis using ok(1) f by (auto simp: e)
  qed
qed

section \<open>Polling\<close>

definition last_ts :: "schema \<Rightarrow> row list \<Rightarrow> i64 option" where
  "last_ts s E = (if E = [] then None else Some (row_time s (List.last E)))"

text \<open>\<open>E0\<close> are the rows of the batches returned so far, \<open>T\<close> all rows from the oldest to the newest layer.\<close>

definition minv :: "schema \<Rightarrow> row list \<Rightarrow> row list \<Rightarrow> merge_stream \<Rightarrow> bool" where
  "minv s T E0 st \<longleftrightarrow> merge_wf s st \<and> merge_flags st \<and> (\<not> ms_initialized st \<longrightarrow> ms_pending st = None) \<and>
     kmerge_inv (row_time s) T (inputs (live_of st) st) (E0 @ chunk_rows (ms_chunk st)) \<and>
     ms_last_emitted_ts st = last_ts s (E0 @ chunk_rows (ms_chunk st)) \<and>
     length (mc_indices (ms_chunk st)) < OUTPUT_BATCH_SIZE"

definition poll_measure :: "merge_stream \<Rightarrow> nat" where
  "poll_measure st = 2 * merge_weight st + length (mc_indices (ms_chunk st))"

lemma chunk_new_simps [simp]: "chunk_rows chunk_new = []" "chunk_ok s chunk_new" "mc_indices chunk_new = []" "mc_sources chunk_new = []"
  by (simp_all add: chunk_new_def chunk_rows_def chunk_ok_def)

lemma length_chunk_rows: "length (chunk_rows ch) = length (mc_indices ch)"
  by (simp add: chunk_rows_def)

lemma arcs_ok_mono: "arcs_ok n A \<Longrightarrow> B \<subseteq> A \<Longrightarrow> arcs_ok n B"
  by (auto simp: arcs_ok_def intro: inj_on_subset)

lemma merge_wf_reset: "merge_wf s st \<Longrightarrow> merge_wf s (st\<lparr>ms_chunk := chunk_new\<rparr>)"
  by (auto simp: merge_wf_def elim: arcs_ok_mono)

lemma inputs_settled:
  assumes "merge_flags st" and "ms_initialized st" and "ms_pending st = None"
  shows "inputs (live_of st) st = inputs none_live st"
  using assms by (auto simp: inputs_def merge_flags_def live_of_def rem_of_def split: option.split)

lemma emit_row_last:
  "last_ts s (emit_row (row_time s) E r) = Some (row_time s r)"
  by (simp add: last_ts_def emit_row_def)

text \<open>The loop body up to the advance of the cursor.\<close>

definition row_taken :: "heap_cursor \<Rightarrow> heap_cursor list \<Rightarrow> merge_stream \<Rightarrow> merge_stream" where
  "row_taken c h st =
     (if Some (hc_ts c) = ms_last_emitted_ts st then st\<lparr>ms_heap := h\<rparr>
      else st\<lparr>ms_heap := h, ms_last_emitted_ts := Some (hc_ts c),
              ms_chunk := chunk_push (hc_batch c) (hc_row_idx c) (ms_chunk st)\<rparr>)"

lemma row_taken_ok:
  assumes inv: "minv s T E0 st" and pop: "heap_pop cursor_before (ms_heap st) = Some (c, h)"
    and ini: "ms_initialized st" "ms_pending st = None"
  defines "st2 \<equiv> row_taken c h st"
  shows "merge_wf s st2" and "merge_flags st2" and "ms_initialized st2" and "ms_pending st2 = None"
    and "cursor_ok s (ms_streams st2) c" and "cursor_at st2 (hc_stream_idx c) = None"
    and "arcs_ok (ms_next_addr st2) (insert (hc_batch c) (hc_batch ` set (ms_heap st2) \<union> set (mc_sources (ms_chunk st2))))"
    and "kmerge_inv (row_time s) T
      ((inputs none_live st2)[length (ms_streams st2) - Suc (hc_stream_idx c) :=
        List.tl (cursor_rows c) @ items_rows (fst (ms_streams st2 ! hc_stream_idx c))])
      (E0 @ chunk_rows (ms_chunk st2))"
    and "ms_last_emitted_ts st2 = last_ts s (E0 @ chunk_rows (ms_chunk st2))"
    and "merge_weight st2 + cursor_weight c = merge_weight st"
    and "length (mc_indices (ms_chunk st2)) = (if Some (hc_ts c) = ms_last_emitted_ts st
      then length (mc_indices (ms_chunk st)) else Suc (length (mc_indices (ms_chunk st))))"
proof -
  let ?i = "hc_stream_idx c" and ?n = "length (ms_streams st)" and ?E = "E0 @ chunk_rows (ms_chunk st)"
  let ?r = "rows (snd (hc_batch c)) ! hc_row_idx c" and ?k = "row_time s"
  note pc = heap_pop_cursor [OF pop]
  have wf: "merge_wf s st" and fl: "merge_flags st" and km: "kmerge_inv ?k T (inputs (live_of st) st) ?E"
    and last: "ms_last_emitted_ts st = last_ts s ?E" using inv by (simp_all add: minv_def)
  have ok: "cursor_ok s (ms_streams st) c" and dist: "distinct (map hc_stream_idx (ms_heap st))"
    and arcs: "arcs_ok (ms_next_addr st) (hc_batch ` set (ms_heap st) \<union> set (mc_sources (ms_chunk st)))"
    and ch: "chunk_ok s (ms_chunk st)" using wf pc(1) by (auto simp: merge_wf_def)
  have bc: "batch_wf s (snd (hc_batch c))" "hc_row_idx c < num_rows (snd (hc_batch c))" "hc_ts c = ?k ?r" "?i < ?n"
    using ok by (simp_all add: cursor_ok_def)
  have "arcs_ok (ms_next_addr st) (insert (hc_batch c) (set (mc_sources (ms_chunk st))))"
    by (rule arcs_ok_mono [OF arcs]) (use pc(1) in auto)
  then have A: "inj_on fst (insert (hc_batch c) (set (mc_sources (ms_chunk st))))" by (simp only: arcs_ok_def)
  note push = chunk_push_ok [OF ch bc(1,2) A]
  have heap: "ms_heap st2 = remove1 c (ms_heap st)" "ms_streams st2 = ms_streams st" "ms_next_addr st2 = ms_next_addr st"
    and other: "ms_schema st2 = ms_schema st" "ms_ts_column_idx st2 = ms_ts_column_idx st" "ms_init_idx st2 = ms_init_idx st"
    and flags: "ms_initialized st2 = ms_initialized st" "ms_pending st2 = ms_pending st"
    by (simp_all add: st2_def row_taken_def pc(2))
  have sub: "set (ms_heap st2) \<subseteq> set (ms_heap st)" using set_remove1_subset by (fastforce simp: heap)
  have src: "set (mc_sources (ms_chunk st2)) \<subseteq> insert (hc_batch c) (set (mc_sources (ms_chunk st)))"
    and ch2: "chunk_ok s (ms_chunk st2)" using push ch by (auto simp: st2_def row_taken_def)
  show arcs2: "arcs_ok (ms_next_addr st2) (insert (hc_batch c) (hc_batch ` set (ms_heap st2) \<union> set (mc_sources (ms_chunk st2))))"
    using arcs sub src pc(1) by (auto simp: heap elim!: arcs_ok_mono)
  have "distinct (map hc_stream_idx (ms_heap st2))" using dist by (simp add: heap distinct_map distinct_remove1 inj_on_diff set_remove1_eq)
  then show "merge_wf s st2"
    using wf ch2 sub arcs_ok_mono [OF arcs2] by (auto simp: merge_wf_def heap other)
  show "merge_flags st2" using fl sub by (auto simp: merge_flags_def heap other flags)
  show "ms_initialized st2" "ms_pending st2 = None" using ini by (simp_all add: flags)
  show "cursor_ok s (ms_streams st2) c" using ok by (simp add: heap)
  have at: "cursor_at st2 i = (if i = ?i then None else cursor_at st i)" for i
    using cursor_at_remove [OF dist pc(1), of i] by (simp add: cursor_at_def heap)
  then show "cursor_at st2 ?i = None" by simp
  have E: "E0 @ chunk_rows (ms_chunk st2) = emit_row ?k ?E ?r"
    using push(2) last bc(3) by (auto simp: st2_def row_taken_def emit_row_def last_ts_def split: if_splits)
  show "ms_last_emitted_ts st2 = last_ts s (E0 @ chunk_rows (ms_chunk st2))"
    unfolding E emit_row_last using bc(3) by (simp add: st2_def row_taken_def)
  have Ri: "inputs none_live st ! (?n - Suc ?i) = cursor_rows c @ items_rows (fst (ms_streams st ! ?i))"
    using inputs_nth(1) [OF bc(4)] cursor_at_mem [OF dist pc(1)] by (simp add: rem_of_def)
  have ne: "cursor_rows c \<noteq> []" using bc(2) by (simp add: cursor_rows_def)
  have "inputs none_live st2 = (inputs none_live st)[?n - Suc ?i := []]"
    by (rule inputs_update [OF bc(4)]) (simp_all add: heap rem_of_def at split: option.split)
  moreover have "kmerge_inv ?k T (inputs none_live st) ?E" using km inputs_settled [OF fl ini] by simp
  ultimately show "kmerge_inv ?k T ((inputs none_live st2)[length (ms_streams st2) - Suc ?i :=
      List.tl (cursor_rows c) @ items_rows (fst (ms_streams st2 ! ?i))]) (E0 @ chunk_rows (ms_chunk st2))"
    using kmerge_step [OF _ popped_first_row [OF wf pop]] ne by (simp add: heap E Ri)
  show "merge_weight st2 + cursor_weight c = merge_weight st"
    using sum_list_map_remove1 [OF pc(1), of cursor_weight] by (simp add: merge_weight_def heap)
  show "length (mc_indices (ms_chunk st2)) = (if Some (hc_ts c) = ms_last_emitted_ts st
      then length (mc_indices (ms_chunk st)) else Suc (length (mc_indices (ms_chunk st))))"
    using push(4) by (simp add: st2_def row_taken_def)
qed

text \<open>What a poll may do.\<close>

definition poll_post ::
  "schema \<Rightarrow> row list \<Rightarrow> row list \<Rightarrow> nat \<Rightarrow> record_batch res option poll \<Rightarrow> merge_stream \<Rightarrow> bool" where
  "poll_post s T E0 m r st' \<longleftrightarrow>
     (case r of
        Pending \<Rightarrow> minv s T E0 st' \<and> poll_measure st' < m
      | Ready None \<Rightarrow> E0 = newest (row_time s) T
      | Ready (Some (Inr b)) \<Rightarrow> batch_wf s b \<and> 0 < num_rows b \<and> num_rows b \<le> OUTPUT_BATCH_SIZE \<and>
          minv s T (E0 @ rows b) st' \<and> poll_measure st' < m
      | Ready (Some (Inl _)) \<Rightarrow> False)"

lemma OUTPUT_pos [simp]: "0 < OUTPUT_BATCH_SIZE"
  by (simp add: OUTPUT_BATCH_SIZE_def)

lemma loop_end:
  assumes "kernels_ok K" and inv: "minv s T E0 st" and ini: "ms_initialized st" "ms_pending st = None" and "ms_heap st = []"
  shows "\<exists>r st'. merge_loop K st = Some (r, st') \<and> poll_post s T E0 (poll_measure st) r st'"
proof -
  have wf: "merge_wf s st" and fl: "merge_flags st"
    and km: "kmerge_inv (row_time s) T (inputs none_live st) (E0 @ chunk_rows (ms_chunk st))"
    using inv inputs_settled [OF _ ini] by (simp_all add: minv_def)
  have "\<forall>l \<in> set (inputs none_live st). l = []" using assms(5) by (auto simp: inputs_def rem_of_def cursor_at_def)
  from kmerge_done [OF km this] have E: "E0 @ chunk_rows (ms_chunk st) = newest (row_time s) T" .
  show ?thesis
  proof (cases "mc_indices (ms_chunk st) = []")
    case True
    then show ?thesis
      using E assms(5) by (simp add: merge_loop.simps [of K st] poll_post_def chunk_rows_def)
  next
    case False
    obtain b st' where tc: "take_chunk K st = (b, st')" by fastforce
    from take_chunk_ok [OF assms(1) wf False tc] obtain b' where
      b: "b = Inr b'" "batch_wf s b'" "rows b' = chunk_rows (ms_chunk st)" "num_rows b' = length (mc_indices (ms_chunk st))" .
    have st': "st' = st\<lparr>ms_chunk := chunk_new\<rparr>" using tc by (simp add: take_chunk_def)
    have "inputs (live_of st') st' = inputs (live_of st) st" by (simp add: st' inputs_def)
    then have "minv s T (E0 @ rows b') st'"
      using inv b(3) merge_wf_reset [OF wf] fl by (simp add: minv_def merge_flags_def st')
    moreover have "poll_measure st' < poll_measure st" using False by (simp add: poll_measure_def st')
    moreover have "num_rows b' \<le> OUTPUT_BATCH_SIZE" "0 < num_rows b'" using inv False b(4) by (simp_all add: minv_def)
    ultimately show ?thesis
      using assms(5) False tc b by (simp add: merge_loop.simps [of K st] poll_post_def)
  qed
qed

lemma minv_advance:
  assumes "schema_wf s" and inv: "minv s T E0 st" and pop: "heap_pop cursor_before (ms_heap st) = Some (c, h)"
    and ini: "ms_initialized st" "ms_pending st = None"
    and st3: "st3 = row_taken c h st \<and> E1 = E0 \<and> length (mc_indices (ms_chunk (row_taken c h st))) < OUTPUT_BATCH_SIZE \<or>
      st3 = (row_taken c h st)\<lparr>ms_chunk := chunk_new\<rparr> \<and> E1 = E0 @ chunk_rows (ms_chunk (row_taken c h st))"
    and adv: "advance_cursor c st3 = (r, st')"
  shows "minv s T E1 st' \<and> ms_initialized st' \<and> poll_measure st' < poll_measure st \<and>
    (r = Pending \<or> r = Ready (Inr ()) \<and> ms_pending st' = None)"
proof -
  let ?st2 = "row_taken c h st"
  note t = row_taken_ok [OF inv pop ini]
  have ch: "E1 @ chunk_rows (ms_chunk st3) = E0 @ chunk_rows (ms_chunk ?st2)"
    and len: "length (mc_indices (ms_chunk st3)) < OUTPUT_BATCH_SIZE"
      "length (mc_indices (ms_chunk st3)) \<le> Suc (length (mc_indices (ms_chunk st)))"
    using st3 t(11) by auto
  have same: "ms_streams st3 = ms_streams ?st2" "ms_last_emitted_ts st3 = ms_last_emitted_ts ?st2"
    "merge_weight st3 = merge_weight ?st2" "inputs none_live st3 = inputs none_live ?st2"
    using st3 by (auto simp: inputs_def)
  have wf3: "merge_wf s st3" "merge_flags st3" "ms_initialized st3" "ms_pending st3 = None"
    using st3 t(1-4) merge_wf_reset [OF t(1)] by (auto simp: merge_flags_def)
  have c3: "cursor_ok s (ms_streams st3) c" "cursor_at st3 (hc_stream_idx c) = None"
    using st3 t(5,6) by (auto simp: cursor_at_def)
  have arcs: "arcs_ok (ms_next_addr st3) (insert (hc_batch c) (hc_batch ` set (ms_heap st3) \<union> set (mc_sources (ms_chunk st3))))"
    using st3 t(7) by (auto elim!: arcs_ok_mono)
  note a = advance_ok [OF assms(1) wf3 c3 arcs adv]
  have "poll_measure st' < poll_measure st" using a t(10) len(2) same(3) by (simp add: poll_measure_def)
  then show ?thesis using a t(8,9) ch len(1) same by (simp add: minv_def)
qed

lemma merge_loop_row:
  assumes "length (mc_indices (ms_chunk st)) < OUTPUT_BATCH_SIZE" and "heap_pop cursor_before (ms_heap st) = Some (c, h)"
  shows "merge_loop K st =
    (if Some (hc_ts c) \<noteq> ms_last_emitted_ts st \<and> OUTPUT_BATCH_SIZE \<le> length (mc_indices (ms_chunk (row_taken c h st)))
     then let (b, st3) = take_chunk K (row_taken c h st) in
       if isl b then Some (Ready (Some b), st3)
       else let (r, st4) = advance_cursor c st3 in
         Some (Ready (Some (case r of Ready (Inl e) \<Rightarrow> Inl e | _ \<Rightarrow> b)), st4)
     else let (r, st3) = advance_cursor c (row_taken c h st) in
       if r = Pending then Some (Pending, st3)
       else if r = Ready (Inr ()) then merge_loop K st3
       else Some (Ready (Some (case r of Ready (Inl e) \<Rightarrow> Inl e)), st3))"
  by (subst merge_loop.simps) (simp add: assms row_taken_def Let_def)

lemma merge_loop_ok:
  assumes "kernels_ok K" and "schema_wf s"
  shows "minv s T E0 st \<Longrightarrow> ms_initialized st \<Longrightarrow> ms_pending st = None \<Longrightarrow>
    \<exists>r st'. merge_loop K st = Some (r, st') \<and> poll_post s T E0 (poll_measure st) r st'"
proof (induction "poll_measure st" arbitrary: st rule: less_induct)
  case (less st)
  note inv = less.prems(1) and ini = less.prems(2,3)
  have small: "length (mc_indices (ms_chunk st)) < OUTPUT_BATCH_SIZE" using inv by (simp add: minv_def)
  show ?case
  proof (cases "heap_pop cursor_before (ms_heap st)")
    case None
    then show ?thesis using loop_end [OF assms(1) inv ini] by (simp add: heap_pop_None)
  next
    case (Some ch)
    obtain c h where pop: "heap_pop cursor_before (ms_heap st) = Some (c, h)" using Some by (cases ch) simp
    let ?st2 = "row_taken c h st" and ?dup = "Some (hc_ts c) = ms_last_emitted_ts st"
    note t = row_taken_ok [OF inv pop ini] and loop = merge_loop_row [OF small pop, of K]
    show ?thesis
    proof (cases "\<not> ?dup \<and> OUTPUT_BATCH_SIZE \<le> length (mc_indices (ms_chunk ?st2))")
      case True
      obtain b st3 where tc: "take_chunk K ?st2 = (b, st3)" by fastforce
      have "mc_indices (ms_chunk ?st2) \<noteq> []" using True OUTPUT_pos by (metis le_zero_eq list.size(3) not_less0)
      from take_chunk_ok [OF assms(1) t(1) this tc] obtain b' where
        b: "b = Inr b'" "batch_wf s b'" "rows b' = chunk_rows (ms_chunk ?st2)" "num_rows b' = length (mc_indices (ms_chunk ?st2))" .
      obtain r st4 where adv: "advance_cursor c st3 = (r, st4)" by fastforce
      have "st3 = ?st2\<lparr>ms_chunk := chunk_new\<rparr>" using tc by (simp add: take_chunk_def)
      from minv_advance [OF assms(2) inv pop ini disjI2 [OF conjI [OF this refl]] adv]
      have m: "minv s T (E0 @ rows b') st4" "poll_measure st4 < poll_measure st" "r = Pending \<or> r = Ready (Inr ())"
        using b(3) by auto
      have "num_rows b' = OUTPUT_BATCH_SIZE" using True t(11) b(4) small by auto
      then have "poll_post s T E0 (poll_measure st) (Ready (Some (Inr b'))) st4"
        using m b(2) by (simp add: poll_post_def)
      moreover have "merge_loop K st = Some (Ready (Some (Inr b')), st4)"
        using loop True tc b(1) adv m(3) by auto
      ultimately show ?thesis by blast
    next
      case False
      then have "length (mc_indices (ms_chunk ?st2)) < OUTPUT_BATCH_SIZE" using t(11) small by auto
      then have st2: "?st2 = row_taken c h st \<and> E0 = E0 \<and> length (mc_indices (ms_chunk ?st2)) < OUTPUT_BATCH_SIZE" by simp
      obtain r st4 where adv: "advance_cursor c ?st2 = (r, st4)" by fastforce
      note m = minv_advance [OF assms(2) inv pop ini disjI1 [OF st2] adv]
      show ?thesis
      proof (cases "r = Pending")
        case True
        then show ?thesis using m loop False adv by (simp add: poll_post_def)
      next
        case r: False
        then have "merge_loop K st = merge_loop K st4" using m loop False adv by auto
        moreover from less.hyps [of st4] r m obtain r' st5 where "merge_loop K st4 = Some (r', st5)"
          "poll_post s T E0 (poll_measure st4) r' st5" by auto
        moreover have "poll_post s T E0 (poll_measure st) r' st5"
          using calculation(3) m by (auto simp: poll_post_def split: poll.splits option.splits sum.splits)
        ultimately show ?thesis by simp
      qed
    qed
  qed
qed

lemma minv_keeps:
  assumes "minv s T E0 st" and "keeps s st st'" and "ms_initialized st' \<or> ms_pending st' = None"
  shows "minv s T E0 st'" and "poll_measure st' \<le> poll_measure st"
    and "merge_weight st' < merge_weight st \<Longrightarrow> poll_measure st' < poll_measure st"
  using assms by (auto simp: minv_def keeps_def poll_measure_def)

lemma poll_post_mono: "poll_post s T E0 m r st \<Longrightarrow> m \<le> m' \<Longrightarrow> poll_post s T E0 m' r st"
  by (auto simp: poll_post_def split: poll.splits option.splits sum.splits)

lemma ensure_then_loop:
  assumes "kernels_ok K" and "schema_wf s" and inv: "minv s T E0 st" and "ms_pending st = None"
  shows "\<exists>r st'. (case ensure_initialized st of
       (Pending, st2) \<Rightarrow> Some (Pending, st2)
     | (Ready (Inl e), st2) \<Rightarrow> Some (Ready (Some (Inl e)), st2)
     | (Ready (Inr _), st2) \<Rightarrow> merge_loop K st2) = Some (r, st') \<and> poll_post s T E0 (poll_measure st) r st'"
proof (cases "ms_initialized st")
  case True
  then show ?thesis using merge_loop_ok [OF assms(1-3) True assms(4)] by (simp add: ensure_initialized_def)
next
  case False
  obtain q st2 where il: "init_loop st = (q, st2)" by fastforce
  have "merge_wf s st" "merge_flags st" using inv by (simp_all add: minv_def)
  note k = init_loop_keeps [OF assms(2) this assms(4) False il]
  have k2: "keeps s st st2" "ms_initialized st2 \<or> ms_pending st2 = None" using k by auto
  note m = minv_keeps [OF inv k2]
  show ?thesis
  proof (cases "q = Pending")
    case True
    then show ?thesis using k m False il by (auto simp: ensure_initialized_def poll_post_def)
  next
    case q: False
    then have "q = Ready (Inr ())" "ms_initialized st2" "ms_pending st2 = None" using k by auto
    then show ?thesis
      using merge_loop_ok [OF assms(1,2) m(1)] poll_post_mono [OF _ m(2)] False il by (auto simp: ensure_initialized_def)
  qed
qed

text \<open>Every poll returns.\<close>

lemma poll_next_ok:
  assumes "kernels_ok K" and "schema_wf s" and inv: "minv s T E0 st"
  shows "\<exists>r st'. poll_next K st = Some (r, st') \<and> poll_post s T E0 (poll_measure st) r st'"
proof (cases "ms_pending st")
  case None
  then show ?thesis using ensure_then_loop [OF assms None] by (simp add: poll_next_def)
next
  case (Some i)
  obtain q st1 where cp: "continue_pending_fetch i st = (q, st1)" by fastforce
  have st: "merge_wf s st" "merge_flags st" "ms_initialized st" using inv Some by (auto simp: minv_def)
  note k = continue_pending_keeps [OF assms(2) st(1,2) Some cp]
  have k2: "keeps s st st1" "ms_initialized st1 \<or> ms_pending st1 = None" using k st(3) by auto
  note m = minv_keeps [OF inv k2]
  show ?thesis
  proof (cases "q = Pending")
    case True
    then show ?thesis using k m Some cp by (auto simp: poll_next_def poll_post_def)
  next
    case False
    then have q: "q = Ready (Inr ())" "ms_pending st1 = None" using k by auto
    from ensure_then_loop [OF assms(1,2) m(1) q(2)] show ?thesis
      using poll_post_mono [OF _ m(2)] Some cp q(1) by (auto simp: poll_next_def)
  qed
qed

lemma drain_ok:
  assumes "kernels_ok K" and "schema_wf s"
  shows "minv s T (all_rows out) st \<Longrightarrow> batches_wf s out \<Longrightarrow> \<forall>b \<in> set out. num_rows b \<le> OUTPUT_BATCH_SIZE \<Longrightarrow>
    \<exists>res. drain K out st = Some (Inr res) \<and> all_rows res = newest (row_time s) T \<and> batches_wf s res \<and>
      (\<forall>b \<in> set res. num_rows b \<le> OUTPUT_BATCH_SIZE)"
proof (induction "poll_measure st" arbitrary: st out rule: less_induct)
  case (less st)
  from poll_next_ok [OF assms less.prems(1)] obtain r st' where
    p: "poll_next K st = Some (r, st')" "poll_post s T (all_rows out) (poll_measure st) r st'" by blast
  consider "r = Pending" | "r = Ready None" | b where "r = Ready (Some (Inr b))"
    using p(2) by (auto simp: poll_post_def split: poll.splits option.splits sum.splits)
  then show ?case
  proof cases
    case 1
    then show ?thesis using less.hyps [of st' out] p less.prems(2,3) by (simp add: drain.simps [of K out st] poll_post_def)
  next
    case 2
    then show ?thesis using p less.prems(2,3) by (simp add: drain.simps [of K out st] poll_post_def)
  next
    case (3 b)
    then show ?thesis
      using less.hyps [of st' "out @ [b]"] p less.prems(2,3)
      by (simp add: drain.simps [of K out st] poll_post_def ball_Un)
  qed
qed

section \<open>Properties\<close>

definition stream_rows :: "batch_stream \<Rightarrow> row list" where
  "stream_rows items = concat (map (\<lambda>it. case it of BatchItem b \<Rightarrow> rows b | _ \<Rightarrow> []) items)"

definition has_rows :: "poll_item \<Rightarrow> bool" where
  "has_rows it = (case it of BatchItem b \<Rightarrow> 0 < num_rows b | _ \<Rightarrow> True)"

lemma items_rows_takeWhile: "items_rows items = stream_rows (takeWhile has_rows items)"
  by (induction items rule: items_rows.induct) (auto simp: stream_rows_def has_rows_def)

lemma merge_new_minv:
  assumes "sorted_wrt (<) (map snd streams)" and "\<forall>x \<in> set streams. \<forall>it \<in> set (fst x). item_ok s it"
    and "\<forall>x \<in> set streams. sorted_wrt (<) (map (row_time s) (items_rows (fst x)))"
  shows "minv s (concat (rev (map (items_rows \<circ> fst) streams))) [] (merge_new streams s (time_idx s))"
proof -
  let ?st = "merge_new streams s (time_idx s)" and ?R = "rev (map (items_rows \<circ> fst) streams)"
  have "inputs (live_of ?st) ?st = ?R"
    by (auto simp: inputs_def merge_new_def rem_of_def cursor_at_def live_of_def intro!: nth_equalityI)
  moreover have "kmerge_inv (row_time s) (concat ?R) ?R []" by (rule kmerge_init) (use assms(3) in auto)
  ultimately show ?thesis
    using assms(1,2) by (simp add: minv_def merge_wf_def merge_flags_def last_ts_def)
      (simp add: merge_new_def arcs_ok_def)
qed

text \<open>
  C25. The merge of the layers of a table returns the newest-wins result. For input streams that are strictly
  increasing in time, ordered from the newest to the oldest layer, without failures and empty batches, and
  whenever their polls have to wait, polling the merge stream ends, and the returned batches are well-formed,
  have at most \<open>OUTPUT_BATCH_SIZE\<close> rows, and their rows are, in increasing order of time, the row of the
  newest layer for every time that occurs.
\<close>

theorem merge_stream_newest_wins:
  assumes "kernels_ok K" and "schema_wf s" and "sorted_wrt (<) (map snd streams)"
    and "\<forall>x \<in> set streams. \<forall>it \<in> set (fst x). item_ok s it \<and> has_rows it"
    and "\<forall>x \<in> set streams. sorted_wrt (<) (map (row_time s) (stream_rows (fst x)))"
  shows "\<exists>out. drain K [] (merge_new streams s (time_idx s)) = Some (Inr out) \<and>
    all_rows out = newest (row_time s) (concat (rev (map (stream_rows \<circ> fst) streams))) \<and>
    batches_wf s out \<and> (\<forall>b \<in> set out. num_rows b \<le> OUTPUT_BATCH_SIZE)"
proof -
  have "items_rows (fst x) = stream_rows (fst x)" if "x \<in> set streams" for x
    unfolding items_rows_takeWhile using assms(4) that by (metis takeWhile_eq_all_conv)
  then have eq: "map (items_rows \<circ> fst) streams = map (stream_rows \<circ> fst) streams"
    and st: "\<forall>x \<in> set streams. sorted_wrt (<) (map (row_time s) (items_rows (fst x)))" using assms(5) by simp_all
  have ok: "\<forall>x \<in> set streams. \<forall>it \<in> set (fst x). item_ok s it" using assms(4) by blast
  from drain_ok [OF assms(1,2), of _ "[]", simplified, OF merge_new_minv [OF assms(3) ok st]]
  show ?thesis unfolding eq by blast
qed

theorem merge_stream_newest_wins_witness:
  "\<exists>out. drain list_kernels [] (merge_new [([NotYet, BatchItem (demo_batch [(1, 10), (3, 30)])], 0),
      ([BatchItem (demo_batch [(1, 1)]), NotYet, BatchItem (demo_batch [(2, 2)])], 1)] demo_schema (time_idx demo_schema)) =
      Some (Inr out) \<and>
    all_rows out = [[SInt 1, SInt 10], [SInt 2, SInt 2], [SInt 3, SInt 30]]"
proof -
  have "newest (row_time demo_schema) [[SInt 1, SInt 1], [SInt 2, SInt 2], [SInt 1, SInt 10], [SInt 3, SInt 30]] =
      [[SInt 1, SInt 10], [SInt 2, SInt 2], [SInt 3, SInt 30]]"
    by (rule newest_unique [symmetric]) (auto simp: demo_batch_rows newest_at_def)
  then show ?thesis
    using merge_stream_newest_wins [OF list_kernels_ok demo_schema_wf(1), of
        "[([NotYet, BatchItem (demo_batch [(1, 10), (3, 30)])], 0),
          ([BatchItem (demo_batch [(1, 1)]), NotYet, BatchItem (demo_batch [(2, 2)])], 1)]"]
    by (auto simp: item_ok_def has_rows_def stream_rows_def demo_batch_rows)
qed

text \<open>
  C34. An empty batch ends its input: the merge does not poll a stream again after it has returned a batch
  without rows, and the rows the stream has after it are missing from the result.
\<close>

theorem merge_stream_stops_at_empty_batch:
  assumes "kernels_ok K" and "schema_wf s" and "sorted_wrt (<) (map snd streams)"
    and "\<forall>x \<in> set streams. \<forall>it \<in> set (fst x). item_ok s it"
    and "\<forall>x \<in> set streams. sorted_wrt (<) (map (row_time s) (stream_rows (takeWhile has_rows (fst x))))"
  shows "\<exists>out. drain K [] (merge_new streams s (time_idx s)) = Some (Inr out) \<and>
    all_rows out = newest (row_time s) (concat (rev (map (\<lambda>x. stream_rows (takeWhile has_rows (fst x))) streams)))"
proof -
  have st: "\<forall>x \<in> set streams. sorted_wrt (<) (map (row_time s) (items_rows (fst x)))"
    using assms(5) by (simp add: items_rows_takeWhile)
  have eq: "map (items_rows \<circ> fst) streams = map (\<lambda>x. stream_rows (takeWhile has_rows (fst x))) streams"
    by (simp add: items_rows_takeWhile)
  from drain_ok [OF assms(1,2), of _ "[]", simplified, OF merge_new_minv [OF assms(3,4) st]]
  show ?thesis unfolding eq by blast
qed

theorem merge_stream_stops_at_empty_batch_witness:
  "\<exists>out. drain list_kernels [] (merge_new [([BatchItem (demo_batch [(1, 1)]), BatchItem (demo_batch []),
      BatchItem (demo_batch [(2, 2)])], 0)] demo_schema (time_idx demo_schema)) = Some (Inr out) \<and>
    all_rows out = [[SInt 1, SInt 1]]"
proof -
  have "newest (row_time demo_schema) [[SInt 1, SInt 1]] = [[SInt 1, SInt 1]]"
    by (rule newest_idem) simp
  then show ?thesis
    using merge_stream_stops_at_empty_batch [OF list_kernels_ok demo_schema_wf(1), of
        "[([BatchItem (demo_batch [(1, 1)]), BatchItem (demo_batch []), BatchItem (demo_batch [(2, 2)])], 0)]"]
    by (auto simp: item_ok_def has_rows_def stream_rows_def demo_batch_rows)
qed

end
