(* ===== verification/Align.thy ===== *)
theory Align
  imports Batch
begin

text \<open>
  Alignment of a batch to a newer schema (\<^verbatim>\<open>src/src/storage/src/compaction/reader.rs\<close>) and the time filter
  of a batch (\<^verbatim>\<open>parquet_read.rs\<close>). \<open>nulls\<close> is Arrow's \<^verbatim>\<open>new_null_array\<close>.
\<close>

section \<open>Alignment\<close>

fun align_columns ::
  "(data_type \<Rightarrow> nat \<Rightarrow> arrow_array) \<Rightarrow> record_batch \<Rightarrow> schema \<Rightarrow> arrow_array list res" where
  "align_columns nulls b [] = Inr []"
| "align_columns nulls b (f # fs) =
     (case index_of (fd_name f) (rb_schema b) of
        Some i \<Rightarrow>
          if fd_type (rb_schema b ! i) \<noteq> fd_type f then Inl (Schema ''column type mismatch'')
          else and_then (align_columns nulls b fs) (\<lambda>cs. Inr (rb_columns b ! i # cs))
      | None \<Rightarrow>
          if \<not> fd_nullable f then Inl (Schema ''cannot align batch: column is not nullable'')
          else and_then (align_columns nulls b fs) (\<lambda>cs. Inr (nulls (fd_type f) (num_rows b) # cs)))"

definition align ::
  "kernels \<Rightarrow> (data_type \<Rightarrow> nat \<Rightarrow> arrow_array) \<Rightarrow> record_batch \<Rightarrow> schema \<Rightarrow> record_batch res" where
  "align K nulls b target =
     (if rb_schema b = target then Inr b
      else and_then (align_columns nulls b target) (\<lambda>cs.
        case k_try_new K target cs of None \<Rightarrow> Inl (Storage ''batch alignment failed'') | Some b' \<Rightarrow> Inr b'))"

text \<open>\<^verbatim>\<open>new_null_array\<close> returns an array of the type and length with every cell null.\<close>

definition nulls_ok :: "(data_type \<Rightarrow> nat \<Rightarrow> arrow_array) \<Rightarrow> bool" where
  "nulls_ok nulls \<longleftrightarrow> (\<forall>t n. nulls t n = \<lparr>a_type = t, a_cells = replicate n SNull\<rparr>)"

definition list_nulls :: "data_type \<Rightarrow> nat \<Rightarrow> arrow_array" where
  "list_nulls t n = \<lparr>a_type = t, a_cells = replicate n SNull\<rparr>"

section \<open>Time filter\<close>

record read_options =
  ro_min_ts :: "i64 option"
  ro_max_ts :: "i64 option"

definition overlaps_file :: "read_options \<Rightarrow> i64 \<Rightarrow> i64 \<Rightarrow> bool" where
  "overlaps_file o1 file_min file_max =
     (case ro_min_ts o1 of
        Some lo \<Rightarrow> if file_max < lo then False
          else (case ro_max_ts o1 of Some hi \<Rightarrow> \<not> file_min > hi | None \<Rightarrow> True)
      | None \<Rightarrow> (case ro_max_ts o1 of Some hi \<Rightarrow> \<not> file_min > hi | None \<Rightarrow> True))"

definition in_range :: "read_options \<Rightarrow> i64 \<Rightarrow> bool" where
  "in_range opts ts \<longleftrightarrow> (case ro_min_ts opts of Some lo \<Rightarrow> ts \<ge> lo | None \<Rightarrow> True) \<and>
     (case ro_max_ts opts of Some hi \<Rightarrow> ts \<le> hi | None \<Rightarrow> True)"

fun keep_loop :: "read_options \<Rightarrow> arrow_array \<Rightarrow> nat list \<Rightarrow> bool list res" where
  "keep_loop opts c [] = Inr []"
| "keep_loop opts c (r # rs) =
     and_then (time_value_at c r) (\<lambda>ts. and_then (keep_loop opts c rs) (\<lambda>ks. Inr (in_range opts ts # ks)))"

definition filter_batch_by_time :: "kernels \<Rightarrow> record_batch \<Rightarrow> read_options \<Rightarrow> record_batch option res" where
  "filter_batch_by_time K b opts =
     (if ro_min_ts opts = None \<and> ro_max_ts opts = None then Inr (Some b)
      else and_then (time_column_index (rb_schema b)) (\<lambda>ts_idx.
        and_then (keep_loop opts (rb_columns b ! ts_idx) [0..<num_rows b]) (\<lambda>keep.
          if list_all id keep then Inr (Some b)
          else if list_all Not keep then Inr None
          else (case k_filter K b keep of
                  None \<Rightarrow> Inl (Storage ''time filter'')
                | Some f \<Rightarrow> if num_rows f = 0 then Inr None else Inr (Some f)))))"

section \<open>Alignment is well typed\<close>

definition compatible :: "schema \<Rightarrow> schema \<Rightarrow> bool" where
  "compatible s target \<longleftrightarrow> (\<forall>f \<in> set target. case index_of (fd_name f) s of
     Some i \<Rightarrow> fd_type (s ! i) = fd_type f | None \<Rightarrow> fd_nullable f)"

text \<open>No column becomes non-nullable.\<close>

definition nulls_allowed :: "schema \<Rightarrow> schema \<Rightarrow> bool" where
  "nulls_allowed s target \<longleftrightarrow> (\<forall>f \<in> set target. case index_of (fd_name f) s of
     Some i \<Rightarrow> fd_nullable (s ! i) \<longrightarrow> fd_nullable f | None \<Rightarrow> True)"

definition realign :: "schema \<Rightarrow> schema \<Rightarrow> row \<Rightarrow> row" where
  "realign s target r = map (\<lambda>f. case index_of (fd_name f) s of Some i \<Rightarrow> r ! i | None \<Rightarrow> SNull) target"

definition aligned_col :: "(data_type \<Rightarrow> nat \<Rightarrow> arrow_array) \<Rightarrow> record_batch \<Rightarrow> field \<Rightarrow> arrow_array" where
  "aligned_col nulls b f = (case index_of (fd_name f) (rb_schema b) of
     Some i \<Rightarrow> rb_columns b ! i | None \<Rightarrow> nulls (fd_type f) (num_rows b))"

lemma compatible_Cons:
  "compatible s (f # fs) \<longleftrightarrow> (case index_of (fd_name f) s of Some i \<Rightarrow> fd_type (s ! i) = fd_type f | None \<Rightarrow> fd_nullable f) \<and>
     compatible s fs"
  by (simp add: compatible_def)

lemma align_columns_ok:
  "compatible (rb_schema b) target \<Longrightarrow> align_columns nulls b target = Inr (map (aligned_col nulls b) target)"
  by (induction target) (auto simp: compatible_Cons aligned_col_def split: option.splits)

lemma align_columns_error:
  "\<not> compatible (rb_schema b) target \<Longrightarrow> \<exists>m. align_columns nulls b target = Inl (Schema m)"
proof (induction target)
  case (Cons f fs)
  show ?case
  proof (cases "compatible (rb_schema b) fs")
    case True
    then show ?thesis using Cons.prems by (auto simp: compatible_Cons split: option.splits)
  next
    case False
    then obtain m where "align_columns nulls b fs = Inl (Schema m)" using Cons.IH by blast
    then show ?thesis by (auto split: option.split)
  qed
qed (simp add: compatible_def)

lemma aligned_col_ok:
  assumes "batch_wf s b" and "nulls_ok nulls" and "compatible s target" and "nulls_allowed s target" and "f \<in> set target"
  shows "column_ok (num_rows b) f (aligned_col nulls b f)"
proof (cases "index_of (fd_name f) s")
  case None
  then show ?thesis
    using assms by (auto simp: aligned_col_def batch_wf_schema nulls_ok_def column_ok_def compatible_def)
next
  case (Some i)
  note c = batch_wf_col [OF assms(1) index_of_less [OF Some]]
  have "fd_type (s ! i) = fd_type f" "fd_nullable (s ! i) \<longrightarrow> fd_nullable f"
    using assms(3,4,5) Some by (auto simp: compatible_def nulls_allowed_def split: option.splits)
  then show ?thesis using c Some by (auto simp: aligned_col_def batch_wf_schema [OF assms(1)] column_ok_def)
qed

lemma align_rows:
  assumes "kernels_ok K" and "nulls_ok nulls" and "batch_wf s b" and "compatible s target" and "nulls_allowed s target"
    and "target \<noteq> []"
  obtains b' where "align K nulls b target = Inr b'" and "batch_wf target b'" and "num_rows b' = num_rows b"
    and "s \<noteq> target \<Longrightarrow> rows b' = map (realign s target) (rows b)" and "s = target \<Longrightarrow> b' = b"
proof (cases "s = target")
  case True
  then show ?thesis using that [of b] assms(3) by (simp add: align_def batch_wf_schema)
next
  case False
  let ?cs = "map (aligned_col nulls b) target" and ?b = "\<lparr>rb_schema = target, rb_columns = map (aligned_col nulls b) target\<rparr>"
  have ok: "column_ok (num_rows b) f (aligned_col nulls b f)" if "f \<in> set target" for f
    by (rule aligned_col_ok [OF assms(3,2,4,5) that])
  have "num_rows ?b = length (a_cells (aligned_col nulls b (List.hd target)))"
    using assms(6) by (cases target) (simp_all add: num_rows_def)
  then have n: "num_rows ?b = num_rows b" using ok [of "List.hd target"] assms(6) by (simp add: column_ok_def)
  have wf: "batch_wf target ?b"
    using assms(6) ok by (auto simp: batch_wf_def n list_all2_conv_all_nth)
  then have "k_try_new K target ?cs = Some ?b" using assms(1) unfolding kernels_ok_def by blast
  then have "align K nulls b target = Inr ?b"
    using align_columns_ok [of b target nulls] assms(3,4) False by (simp add: align_def batch_wf_schema)
  moreover have "rows ?b = map (realign s target) (rows b)"
  proof (rule nth_equalityI)
    fix r assume "r < length (rows ?b)"
    then have r: "r < num_rows b" by (simp add: n)
    have cell: "a_cells (aligned_col nulls b f) ! r = (case index_of (fd_name f) s of Some i \<Rightarrow> rows b ! r ! i | None \<Rightarrow> SNull)" for f
      using r assms(2) batch_wf_len [OF assms(3)] index_of_less [of "fd_name f" s]
      by (auto simp: aligned_col_def batch_wf_schema [OF assms(3)] nulls_ok_def nth_rows split: option.split)
    show "rows ?b ! r = map (realign s target) (rows b) ! r"
      using r by (simp add: nth_rows [of r ?b] n realign_def cell)
  qed (simp add: n)
  ultimately show ?thesis using that [of ?b] wf n False by blast
qed

section \<open>The time filter keeps the rows in the range\<close>

lemma keep_loop_ok:
  assumes "schema_wf s" and "batch_wf s b"
  shows "\<forall>r \<in> set rs. r < num_rows b \<Longrightarrow>
    keep_loop opts (rb_columns b ! time_idx s) rs = Inr (map (\<lambda>r. in_range opts (row_time s (rows b ! r))) rs)"
  by (induction rs) (simp_all add: time_value_wf [OF assms])

lemma select_map: "select (map P xs) xs = filter P xs"
  by (induction xs) (simp_all add: select_def)

lemma filter_by_time_rows:
  assumes "kernels_ok K" and "schema_wf s" and "batch_wf s b"
  obtains f where "filter_batch_by_time K b opts = Inr f" and "\<forall>b'. f = Some b' \<longrightarrow> batch_wf s b'"
    and "(case f of Some b' \<Rightarrow> rows b' | None \<Rightarrow> []) = filter (\<lambda>r. in_range opts (row_time s r)) (rows b)"
proof -
  let ?P = "\<lambda>r. in_range opts (row_time s r)" and ?keep = "map (\<lambda>r. in_range opts (row_time s r)) (rows b)"
  show ?thesis
  proof (cases "ro_min_ts opts = None \<and> ro_max_ts opts = None")
    case True
    then show ?thesis using that [of "Some b"] assms(3) by (simp add: filter_batch_by_time_def in_range_def)
  next
    case False
    have keep: "keep_loop opts (rb_columns b ! time_idx s) [0..<num_rows b] = Inr ?keep"
      using keep_loop_ok [OF assms(2,3), of "[0..<num_rows b]" opts] by (simp add: list_eq_iff_nth_eq)
    have f: "filter_batch_by_time K b opts =
        (if list_all id ?keep then Inr (Some b) else if list_all Not ?keep then Inr None
         else case k_filter K b ?keep of None \<Rightarrow> Inl (Storage ''time filter'')
           | Some f \<Rightarrow> if num_rows f = 0 then Inr None else Inr (Some f))"
      using False keep schema_wf_idx(1) [OF assms(2)] by (auto simp: filter_batch_by_time_def batch_wf_schema [OF assms(3)])
    consider "list_all id ?keep" | "\<not> list_all id ?keep" "list_all Not ?keep" | "\<not> list_all id ?keep" "\<not> list_all Not ?keep"
      by blast
    then show ?thesis
    proof cases
      case 1
      then have "filter ?P (rows b) = rows b" by (simp add: list_all_iff filter_id_conv)
      then show ?thesis using that [of "Some b"] f 1 assms(3) by simp
    next
      case 2
      then have "filter ?P (rows b) = []" by (simp add: list_all_iff filter_empty_conv)
      then show ?thesis using that [of None] f 2 by simp
    next
      case 3
      obtain b' where b': "k_filter K b ?keep = Some b'" "batch_wf s b'" "rows b' = select ?keep (rows b)"
        using filter_rows [OF assms(1,3), of ?keep] by auto
      then have r: "rows b' = filter ?P (rows b)" by (simp add: select_map)
      show ?thesis
      proof (cases "num_rows b' = 0")
        case True
        then have "rows b' = []" by (simp add: rows_def)
        then show ?thesis using that [of None] f 3 b'(1) r True by simp
      next
        case False
        then show ?thesis using that [of "Some b'"] f 3 b'(1,2) r by simp
      qed
    qed
  qed
qed

section \<open>Property\<close>

lemma index_of_name: "index_of n s = Some i \<Longrightarrow> fd_name (s ! i) = n"
  by (induction s arbitrary: i) (auto split: if_splits)

lemma realign_time:
  assumes "schema_wf s" and "schema_wf target"
  shows "row_time target (realign s target r) = row_time s r"
proof -
  obtain i j where ij: "index_of TIMESTAMP_COLUMN s = Some i" "index_of TIMESTAMP_COLUMN target = Some j"
    using assms by (auto simp: schema_wf_def split: option.splits)
  then have "fd_name (target ! j) = TIMESTAMP_COLUMN" "j < length target" using index_of_name index_of_less by blast+
  then show ?thesis using ij by (simp add: row_time_def time_idx_def realign_def)
qed

text \<open>
  C38. Alignment is type-safe. A batch of a schema can be aligned to a target schema that keeps the types of
  the shared columns, adds only nullable columns and makes no column non-nullable: the result is a
  well-formed batch of the target schema with the same rows, each with its cells under their names, nulls
  in the added columns and the same time. For a target that changes a type or adds a non-nullable column
  the alignment returns a schema error.
\<close>

theorem align_type_safe:
  assumes "kernels_ok K" and "nulls_ok nulls" and "batch_wf s b" and "schema_wf s" and "schema_wf target"
  shows "(compatible s target \<and> nulls_allowed s target \<longrightarrow>
      (\<exists>b'. align K nulls b target = Inr b' \<and> batch_wf target b' \<and>
        (s \<noteq> target \<longrightarrow> rows b' = map (realign s target) (rows b)) \<and>
        map (row_time target) (rows b') = map (row_time s) (rows b))) \<and>
    (\<not> compatible s target \<and> s \<noteq> target \<longrightarrow> (\<exists>m. align K nulls b target = Inl (Schema m)))"
proof (intro conjI impI)
  assume c: "compatible s target \<and> nulls_allowed s target"
  have "target \<noteq> []" using assms(5) by (auto simp: schema_wf_def)
  with c align_rows [OF assms(1-3), of target] obtain b' where b': "align K nulls b target = Inr b'" "batch_wf target b'"
    "s \<noteq> target \<Longrightarrow> rows b' = map (realign s target) (rows b)" "s = target \<Longrightarrow> b' = b" by metis
  have "map (row_time target) (rows b') = map (row_time s) (rows b)"
    using b'(3,4) realign_time [OF assms(4,5)] by (cases "s = target") simp_all
  then show "\<exists>b'. align K nulls b target = Inr b' \<and> batch_wf target b' \<and>
      (s \<noteq> target \<longrightarrow> rows b' = map (realign s target) (rows b)) \<and>
      map (row_time target) (rows b') = map (row_time s) (rows b)" using b' by blast
next
  assume "\<not> compatible s target \<and> s \<noteq> target"
  then show "\<exists>m. align K nulls b target = Inl (Schema m)"
    using align_columns_error [of b target nulls] batch_wf_schema [OF assms(3)] by (auto simp: align_def)
qed

definition wide_schema :: schema where
  "wide_schema = demo_schema @ [\<lparr>fd_name = ''humidity'', fd_type = DInt64, fd_nullable = True\<rparr>]"

theorem align_type_safe_witness:
  "\<exists>b'. align list_kernels list_nulls (demo_batch [(1, 10), (2, 20)]) wide_schema = Inr b' \<and> batch_wf wide_schema b' \<and>
    rows b' = [[SInt 1, SInt 10, SNull], [SInt 2, SInt 20, SNull]]"
proof -
  have w: "schema_wf wide_schema" "compatible demo_schema wide_schema" "nulls_allowed demo_schema wide_schema" "demo_schema \<noteq> wide_schema"
    by (simp_all add: schema_wf_def compatible_def nulls_allowed_def wide_schema_def demo_schema_def TIMESTAMP_COLUMN_def)
  have n: "nulls_ok list_nulls" by (simp add: nulls_ok_def list_nulls_def)
  have r: "realign demo_schema wide_schema [SInt a, SInt b] = [SInt a, SInt b, SNull]" for a b
    by (simp add: realign_def wide_schema_def demo_schema_def)
  show ?thesis
    using align_type_safe [OF list_kernels_ok n demo_batch_wf demo_schema_wf(1) w(1), of "[(1, 10), (2, 20)]"] w
    by (auto simp: demo_batch_rows r)
qed

end
