(* ===== verification/Compact_Merge.thy ===== *)
theory Compact_Merge
  imports Kmerge Align
begin

text \<open>
  The merge of a run of SST files (\<^verbatim>\<open>src/src/storage/src/compaction/job.rs\<close>): one cursor per file, a heap of
  the heads of the cursors, and a chunk that collects references to rows and materializes them. The reader
  of a Parquet file is the list of items it yields. An index out of range panics, which is the outcome
  \<open>Panic\<close>; a cursor whose load failed is in that state.
\<close>

unbundle bit_operations_syntax

datatype 'a outcome = Panic | Return (returned: 'a)

section \<open>Cursor\<close>

datatype reader_item = ReadBatch record_batch | ReadError string

record parquet_cursor =
  pc_reader :: "reader_item list"
  pc_schema :: schema
  pc_current :: "record_batch option"
  pc_row :: nat
  pc_source_idx :: nat
  pc_load_count :: u64

fun load_loop ::
  "kernels \<Rightarrow> (data_type \<Rightarrow> nat \<Rightarrow> arrow_array) \<Rightarrow> reader_item list \<Rightarrow> parquet_cursor \<Rightarrow> unit res \<times> parquet_cursor" where
  "load_loop K nulls [] c = (Inr (), c\<lparr>pc_reader := [], pc_current := None, pc_row := 0\<rparr>)"
| "load_loop K nulls (ReadError m # items) c = (Inl (Arrow m), c\<lparr>pc_reader := items\<rparr>)"
| "load_loop K nulls (ReadBatch b # items) c =
     (case align K nulls b (pc_schema c) of
        Inl e \<Rightarrow> (Inl e, c\<lparr>pc_reader := items\<rparr>)
      | Inr aligned \<Rightarrow>
          if num_rows aligned > 0
          then (Inr (), c\<lparr>pc_reader := items, pc_current := Some aligned, pc_row := 0, pc_load_count := pc_load_count c + 1\<rparr>)
          else load_loop K nulls items c)"

definition load_next_batch ::
  "kernels \<Rightarrow> (data_type \<Rightarrow> nat \<Rightarrow> arrow_array) \<Rightarrow> parquet_cursor \<Rightarrow> unit res \<times> parquet_cursor" where
  "load_next_batch K nulls c = load_loop K nulls (pc_reader c) c"

definition parquet_open ::
  "kernels \<Rightarrow> (data_type \<Rightarrow> nat \<Rightarrow> arrow_array) \<Rightarrow> reader_item list res \<Rightarrow> schema \<Rightarrow> nat \<Rightarrow> parquet_cursor res" where
  "parquet_open K nulls opened s idx =
     and_then opened (\<lambda>items.
       case load_next_batch K nulls \<lparr>pc_reader = items, pc_schema = s, pc_current = None, pc_row = 0,
           pc_source_idx = idx, pc_load_count = 0\<rparr> of
         (Inl e, _) \<Rightarrow> Inl e
       | (Inr _, c) \<Rightarrow> Inr c)"

definition timestamp_at :: "record_batch \<Rightarrow> nat \<Rightarrow> i64 res outcome" where
  "timestamp_at b row =
     (case time_column_index (rb_schema b) of
        Inl e \<Rightarrow> Return (Inl e)
      | Inr ts_idx \<Rightarrow>
          (case time_value_at (rb_columns b ! ts_idx) row of
             Inl e \<Rightarrow> Return (Inl e)
           | Inr t \<Rightarrow> if row < length (a_cells (rb_columns b ! ts_idx)) then Return (Inr t) else Panic))"

definition peek_ts :: "parquet_cursor \<Rightarrow> i64 option outcome" where
  "peek_ts c =
     (case pc_current c of
        None \<Rightarrow> Return None
      | Some b \<Rightarrow>
          (case timestamp_at b (pc_row c) of
             Panic \<Rightarrow> Panic
           | Return (Inl _) \<Rightarrow> Return None
           | Return (Inr t) \<Rightarrow> Return (Some t)))"

definition row_key :: "nat \<Rightarrow> u64 \<Rightarrow> u64" where
  "row_key source_idx load_count = push_bit 40 (of_nat source_idx) OR load_count"

definition current_row_owned :: "parquet_cursor \<Rightarrow> (record_batch \<times> nat \<times> u64) res" where
  "current_row_owned c =
     (case pc_current c of
        None \<Rightarrow> Inl (Storage ''merge cursor exhausted'')
      | Some b \<Rightarrow> Inr (b, pc_row c, row_key (pc_source_idx c) (pc_load_count c)))"

definition cursor_advance ::
  "kernels \<Rightarrow> (data_type \<Rightarrow> nat \<Rightarrow> arrow_array) \<Rightarrow> parquet_cursor \<Rightarrow> parquet_cursor" where
  "cursor_advance K nulls c0 =
     (let c = c0\<lparr>pc_row := Suc (pc_row c0)\<rparr> in
      case pc_current c of
        None \<Rightarrow> c
      | Some b \<Rightarrow> if pc_row c \<ge> num_rows b then snd (load_next_batch K nulls c) else c)"

section \<open>Chunk\<close>

definition STREAM_MERGE_BATCH_ROWS :: nat where
  "STREAM_MERGE_BATCH_ROWS = 8192"

record compact_chunk =
  ck_schema :: schema
  ck_emission :: "(nat \<times> u32) list"
  ck_sources :: "record_batch list"
  ck_source_index :: "u64 \<Rightarrow> nat option"
  ck_len :: nat

definition compact_chunk_new :: "schema \<Rightarrow> compact_chunk" where
  "compact_chunk_new s = \<lparr>ck_schema = s, ck_emission = [], ck_sources = [], ck_source_index = Map.empty, ck_len = 0\<rparr>"

definition compact_push :: "record_batch \<Rightarrow> nat \<Rightarrow> u64 \<Rightarrow> compact_chunk \<Rightarrow> compact_chunk" where
  "compact_push b row key ch =
     (let (idx, ch1) =
        (case ck_source_index ch key of
           Some idx \<Rightarrow> (idx, ch)
         | None \<Rightarrow> let idx = length (ck_sources ch) in
             (idx, ch\<lparr>ck_sources := ck_sources ch @ [b], ck_source_index := (ck_source_index ch)(key \<mapsto> idx)\<rparr>))
      in ch1\<lparr>ck_emission := ck_emission ch1 @ [(idx, of_nat row)], ck_len := Suc (ck_len ch1)\<rparr>)"

definition arrow_error :: "'a res \<Rightarrow> 'a res" where
  "arrow_error r = (case r of Inl _ \<Rightarrow> Inl (Arrow ''arrow'') | Inr x \<Rightarrow> Inr x)"

fun compact_pieces :: "kernels \<Rightarrow> schema \<Rightarrow> record_batch list \<Rightarrow> (nat \<times> u32) list \<Rightarrow> record_batch list res" where
  "compact_pieces K s sources [] = Inr []"
| "compact_pieces K s sources ((j, row) # es) =
     and_then (arrow_error (and_then (take_columns K ''take'' [unat row] (rb_columns (sources ! j))) (new_batch K ''batch'' s)))
       (\<lambda>piece. and_then (compact_pieces K s sources es) (\<lambda>ps. Inr (piece # ps)))"

definition compact_build :: "kernels \<Rightarrow> compact_chunk \<Rightarrow> record_batch res" where
  "compact_build K ch =
     (if ck_len ch = 0 then Inl (Storage ''empty merge chunk'')
      else and_then (compact_pieces K (ck_schema ch) (ck_sources ch) (ck_emission ch)) (\<lambda>pieces.
        if length pieces = 1 then Inr (List.hd pieces)
        else (case k_concat K (ck_schema ch) pieces of None \<Rightarrow> Inl (Arrow ''concat'') | Some b \<Rightarrow> Inr b)))"

section \<open>Merge\<close>

type_synonym heap_key = "i64 \<times> nat"

definition key_before :: "heap_key \<Rightarrow> heap_key \<Rightarrow> bool" where
  "key_before x y \<longleftrightarrow> fst x < fst y \<or> fst x = fst y \<and> snd y < snd x"

record compact_state =
  cs_cursors :: "parquet_cursor list"
  cs_heap :: "heap_key list"
  cs_chunk :: compact_chunk
  cs_out :: "record_batch list"
  cs_total_rows :: nat
  cs_min_ts :: i64
  cs_max_ts :: i64
  cs_last_ts :: "i64 option"

fun open_cursors ::
  "kernels \<Rightarrow> (data_type \<Rightarrow> nat \<Rightarrow> arrow_array) \<Rightarrow> schema \<Rightarrow> nat \<Rightarrow> reader_item list res list \<Rightarrow> parquet_cursor list res" where
  "open_cursors K nulls s idx [] = Inr []"
| "open_cursors K nulls s idx (f # fs) =
     and_then (parquet_open K nulls f s idx) (\<lambda>c.
     and_then (open_cursors K nulls s (Suc idx) fs) (\<lambda>cs. Inr (c # cs)))"

fun init_heap :: "nat \<Rightarrow> parquet_cursor list \<Rightarrow> heap_key list outcome" where
  "init_heap idx [] = Return []"
| "init_heap idx (c # cs) =
     (case peek_ts c of
        Panic \<Rightarrow> Panic
      | Return None \<Rightarrow> init_heap (Suc idx) cs
      | Return (Some ts) \<Rightarrow> (case init_heap (Suc idx) cs of Panic \<Rightarrow> Panic | Return h \<Rightarrow> Return ((ts, idx) # h)))"

text \<open>The row at the head of the cursor \<open>i\<close>, unless a row with its time was emitted.\<close>

definition emit_head :: "kernels \<Rightarrow> i64 \<Rightarrow> nat \<Rightarrow> compact_state \<Rightarrow> compact_state res" where
  "emit_head K ts i st =
     (if Some ts = cs_last_ts st then Inr st
      else and_then (current_row_owned (cs_cursors st ! i)) (\<lambda>(b, row, key).
        let st1 = st\<lparr>cs_min_ts := min (cs_min_ts st) ts, cs_max_ts := max (cs_max_ts st) ts,
              cs_chunk := compact_push b row key (cs_chunk st), cs_total_rows := Suc (cs_total_rows st),
              cs_last_ts := Some ts\<rparr>
        in if ck_len (cs_chunk st1) \<ge> STREAM_MERGE_BATCH_ROWS
           then and_then (compact_build K (cs_chunk st1)) (\<lambda>b.
             Inr (st1\<lparr>cs_out := cs_out st1 @ [b], cs_chunk := compact_chunk_new (ck_schema (cs_chunk st1))\<rparr>))
           else Inr st1))"

definition advance_head ::
  "kernels \<Rightarrow> (data_type \<Rightarrow> nat \<Rightarrow> arrow_array) \<Rightarrow> nat \<Rightarrow> compact_state \<Rightarrow> compact_state outcome" where
  "advance_head K nulls i st =
     (let c = cursor_advance K nulls (cs_cursors st ! i); st1 = st\<lparr>cs_cursors := (cs_cursors st)[i := c]\<rparr> in
      case peek_ts c of
        Panic \<Rightarrow> Panic
      | Return None \<Rightarrow> Return st1
      | Return (Some ts) \<Rightarrow> Return (st1\<lparr>cs_heap := (ts, i) # cs_heap st1\<rparr>))"

text \<open>\<open>None\<close> would be a loop that does not end; \<open>compaction_merge_terminates\<close> excludes it.\<close>

partial_function (option) compact_loop ::
  "kernels \<Rightarrow> (data_type \<Rightarrow> nat \<Rightarrow> arrow_array) \<Rightarrow> compact_state \<Rightarrow> compact_state res outcome option" where
  "compact_loop K nulls st =
     (case heap_pop key_before (cs_heap st) of
        None \<Rightarrow> Some (Return (Inr st))
      | Some (k, h) \<Rightarrow>
          let r = emit_head K (fst k) (snd k) (st\<lparr>cs_heap := h\<rparr>) in
          if isl r then Some (Return (Inl (projl r)))
          else let a = advance_head K nulls (snd k) (projr r) in
            if a = Panic then Some Panic else compact_loop K nulls (returned a))"

definition finish_merge :: "kernels \<Rightarrow> compact_state \<Rightarrow> compact_state res" where
  "finish_merge K st =
     and_then (if ck_len (cs_chunk st) > 0
               then and_then (compact_build K (cs_chunk st)) (\<lambda>b. Inr (cs_out st @ [b]))
               else Inr (cs_out st)) (\<lambda>out.
       if cs_total_rows st = 0 then Inl (Storage ''empty merge result'') else Inr (st\<lparr>cs_out := out\<rparr>))"

definition compact_init :: "schema \<Rightarrow> parquet_cursor list \<Rightarrow> heap_key list \<Rightarrow> compact_state" where
  "compact_init s cs h =
     \<lparr>cs_cursors = cs, cs_heap = h, cs_chunk = compact_chunk_new s, cs_out = [], cs_total_rows = 0,
      cs_min_ts = i64_max, cs_max_ts = i64_min, cs_last_ts = None\<rparr>"

definition merge_rows ::
  "kernels \<Rightarrow> (data_type \<Rightarrow> nat \<Rightarrow> arrow_array) \<Rightarrow> schema \<Rightarrow> reader_item list res list \<Rightarrow> compact_state res outcome option" where
  "merge_rows K nulls s files =
     (case open_cursors K nulls s 0 files of
        Inl e \<Rightarrow> Some (Return (Inl e))
      | Inr cs \<Rightarrow>
          (case init_heap 0 cs of
             Panic \<Rightarrow> Some Panic
           | Return h \<Rightarrow> map_option (\<lambda>r. case r of
                 Panic \<Rightarrow> Panic
               | Return (Inl e) \<Rightarrow> Return (Inl e)
               | Return (Inr st) \<Rightarrow> Return (finish_merge K st)) (compact_loop K nulls (compact_init s cs h))))"

section \<open>Termination\<close>

text \<open>A step consumes an item of a file, a row of a batch or a head of the heap, whatever the kernels do.\<close>

definition rows_left :: "parquet_cursor \<Rightarrow> nat" where
  "rows_left c = (case pc_current c of None \<Rightarrow> 0 | Some b \<Rightarrow> num_rows b - pc_row c)"

definition loop_order :: "(compact_state \<times> compact_state) set" where
  "loop_order = measures [\<lambda>st. sum_list (map (length \<circ> pc_reader) (cs_cursors st)),
     \<lambda>st. sum_list (map rows_left (cs_cursors st)), \<lambda>st. length (cs_heap st)]"

lemma wf_loop_order: "wf loop_order"
  by (simp add: loop_order_def)

definition heads_valid :: "compact_state \<Rightarrow> bool" where
  "heads_valid st \<longleftrightarrow> (\<forall>k \<in> set (cs_heap st). snd k < length (cs_cursors st))"

lemma load_loop_shrinks:
  "items \<noteq> [] \<Longrightarrow> length (pc_reader (snd (load_loop K nulls items c))) < length items"
proof (induction items)
  case (Cons it items)
  then show ?case by (cases it; cases "items = []") (auto split: sum.split)
qed simp

lemma cursor_advance_shrinks:
  "let c' = cursor_advance K nulls c in length (pc_reader c') < length (pc_reader c) \<or>
     length (pc_reader c') = length (pc_reader c) \<and>
       (rows_left c' < rows_left c \<or> rows_left c' = rows_left c \<and> pc_current c' = None)"
proof (cases "pc_current c")
  case (Some b)
  show ?thesis
  proof (cases "pc_reader c = []")
    case True
    then show ?thesis using Some by (auto simp: cursor_advance_def load_next_batch_def rows_left_def Let_def)
  next
    case False
    then show ?thesis
      using Some load_loop_shrinks [OF False, of K nulls "c\<lparr>pc_row := Suc (pc_row c)\<rparr>"]
      by (auto simp: cursor_advance_def load_next_batch_def rows_left_def Let_def)
  qed
qed (simp add: cursor_advance_def rows_left_def Let_def)

lemma sum_list_update_cases:
  fixes f :: "'a \<Rightarrow> nat"
  assumes "i < length xs"
  shows "f x < f (xs ! i) \<Longrightarrow> sum_list (map f (xs[i := x])) < sum_list (map f xs)"
    and "f x = f (xs ! i) \<Longrightarrow> sum_list (map f (xs[i := x])) = sum_list (map f xs)"
proof -
  have "sum_list (map f (xs[i := x])) + f (xs ! i) = sum_list (map f xs) + f x" for x
    using assms
  proof (induction xs arbitrary: i)
    case (Cons y ys)
    then show ?case by (cases i) auto
  qed simp
  from this [of x] show "f x < f (xs ! i) \<Longrightarrow> sum_list (map f (xs[i := x])) < sum_list (map f xs)"
    "f x = f (xs ! i) \<Longrightarrow> sum_list (map f (xs[i := x])) = sum_list (map f xs)" by linarith+
qed

lemma emit_head_keeps:
  "emit_head K ts i st = Inr st' \<Longrightarrow> cs_cursors st' = cs_cursors st \<and> cs_heap st' = cs_heap st"
  by (auto simp: emit_head_def Let_def and_then_def split: if_splits sum.splits)

lemma advance_head_decreases:
  assumes "advance_head K nulls i st = Return st'" and "i < length (cs_cursors st)" and "heads_valid st"
  shows "(st', st\<lparr>cs_heap := (t, i) # cs_heap st\<rparr>) \<in> loop_order" and "heads_valid st'"
proof -
  let ?c = "cs_cursors st ! i"
  define c' where "c' = cursor_advance K nulls ?c"
  have cs: "cs_cursors st' = (cs_cursors st)[i := c']"
    and h: "cs_heap st' = cs_heap st \<or> pc_current c' \<noteq> None \<and> (\<exists>u. cs_heap st' = (u, i) # cs_heap st)"
    using assms(1) by (auto simp: advance_head_def c'_def Let_def peek_ts_def split: outcome.splits option.splits sum.splits)
  have len: "length (cs_heap st') = (if cs_heap st' = cs_heap st then length (cs_heap st) else Suc (length (cs_heap st)))"
    using h by auto
  note sums = sum_list_update_cases [OF assms(2)]
  consider "length (pc_reader c') < length (pc_reader ?c)"
    | "length (pc_reader c') = length (pc_reader ?c)" "rows_left c' < rows_left ?c"
    | "length (pc_reader c') = length (pc_reader ?c)" "rows_left c' = rows_left ?c" "pc_current c' = None"
    using cursor_advance_shrinks [of K nulls ?c] unfolding c'_def [symmetric] Let_def by argo
  then show "(st', st\<lparr>cs_heap := (t, i) # cs_heap st\<rparr>) \<in> loop_order"
    using sums(1) [of "length \<circ> pc_reader" c'] sums(2) [of "length \<circ> pc_reader" c'] sums(1) [of rows_left c']
      sums(2) [of rows_left c'] h by cases (auto simp: loop_order_def cs)
  show "heads_valid st'" using h assms(2,3) by (auto simp: heads_valid_def cs)
qed

lemma heap_pop_key:
  assumes "heap_pop key_before h = Some (k, h')"
  shows "k \<in> set h" "h' = remove1 k h" "\<forall>d \<in> set h. \<not> key_before d k"
  by (rule heap_pop_first [OF _ _ _ assms]; fastforce simp: key_before_def)+

lemma loop_order_pop:
  assumes "(st', st\<lparr>cs_heap := k # h\<rparr>) \<in> loop_order" and "Suc (length h) = length (cs_heap st)"
  shows "(st', st) \<in> loop_order"
  using assms by (simp add: loop_order_def)

lemma loop_order_emit:
  assumes "(st', st1\<lparr>cs_heap := h\<rparr>) \<in> loop_order" and "cs_cursors st1 = cs_cursors st"
  shows "(st', st\<lparr>cs_heap := h\<rparr>) \<in> loop_order"
  using assms by (simp add: loop_order_def)

lemma compact_loop_returns: "heads_valid st \<Longrightarrow> compact_loop K nulls st \<noteq> None"
proof (induction st rule: wf_induct_rule [OF wf_loop_order])
  case (1 st)
  show ?case
  proof (cases "heap_pop key_before (cs_heap st)")
    case None
    then show ?thesis by (subst compact_loop.simps) simp
  next
    case (Some p)
    obtain t i h where p: "p = ((t, i), h)" by (metis prod.exhaust)
    note pop = heap_pop_key [OF Some [unfolded p]]
    let ?r = "emit_head K t i (st\<lparr>cs_heap := h\<rparr>)"
    have next_ok: "compact_loop K nulls st2 \<noteq> None"
      if r: "?r = Inr st1" and a: "advance_head K nulls i st1 = Return st2" for st1 st2
    proof -
      have k: "cs_cursors st1 = cs_cursors st" "cs_heap st1 = h" using emit_head_keeps [OF r] by simp_all
      have i: "i < length (cs_cursors st1)" "heads_valid st1"
        using "1.prems" pop(1,2) k by (auto simp: heads_valid_def dest: notin_set_remove1)
      have "Suc (length h) = length (cs_heap st)" using pop(1,2) by (simp add: length_remove1) (metis Suc_pred length_pos_if_in_set)
      then have "(st2, st) \<in> loop_order"
        using advance_head_decreases(1) [OF a i, of t] loop_order_emit [OF _ k(1)] loop_order_pop [of st2 "(t, i)" h st] k(2) by simp
      then show ?thesis using "1.IH" advance_head_decreases(2) [OF a i] by blast
    qed
    show ?thesis
      using next_ok
      by (subst compact_loop.simps)
        (cases ?r; cases "advance_head K nulls i (projr ?r)"; simp add: Some p Let_def)
  qed
qed

lemma init_heap_valid: "init_heap idx cs = Return h \<Longrightarrow> \<forall>k \<in> set h. snd k < idx + length cs"
  by (induction cs arbitrary: idx h) (fastforce split: outcome.splits option.splits)+

section \<open>Rows of the files\<close>

text \<open>The rows of a batch in the schema of the merge, and the rows a cursor has not consumed.\<close>

definition aligned_rows :: "schema \<Rightarrow> record_batch \<Rightarrow> row list" where
  "aligned_rows s b = (if rb_schema b = s then rows b else map (realign (rb_schema b) s) (rows b))"

definition item_fits :: "schema \<Rightarrow> reader_item \<Rightarrow> bool" where
  "item_fits s it = (case it of
     ReadBatch b \<Rightarrow> batch_wf (rb_schema b) b \<and> num_rows b \<le> 2 ^ 32 \<and>
       (rb_schema b = s \<or> compatible (rb_schema b) s \<and> nulls_allowed (rb_schema b) s)
   | ReadError _ \<Rightarrow> False)"

definition file_rows :: "schema \<Rightarrow> reader_item list \<Rightarrow> row list" where
  "file_rows s items = concat (map (\<lambda>it. case it of ReadBatch b \<Rightarrow> aligned_rows s b | ReadError _ \<Rightarrow> []) items)"

definition cursor_rem :: "schema \<Rightarrow> parquet_cursor \<Rightarrow> row list" where
  "cursor_rem s c = (case pc_current c of None \<Rightarrow> [] | Some b \<Rightarrow> drop (pc_row c) (rows b)) @ file_rows s (pc_reader c)"

definition cursor_wf :: "schema \<Rightarrow> parquet_cursor \<Rightarrow> bool" where
  "cursor_wf s c \<longleftrightarrow> pc_schema c = s \<and> (\<forall>it \<in> set (pc_reader c). item_fits s it) \<and>
     unat (pc_load_count c) + length (pc_reader c) < 2 ^ 40 \<and>
     (case pc_current c of None \<Rightarrow> pc_reader c = []
      | Some b \<Rightarrow> batch_wf s b \<and> pc_row c < num_rows b \<and> num_rows b \<le> 2 ^ 32)"

text \<open>What a cursor becomes keeps its batch under its load count, or counts a new load.\<close>

definition succeeds :: "parquet_cursor \<Rightarrow> parquet_cursor \<Rightarrow> bool" where
  "succeeds c c' \<longleftrightarrow> pc_source_idx c' = pc_source_idx c \<and>
     (pc_load_count c' = pc_load_count c \<and> (pc_current c' = None \<or> pc_current c' = pc_current c) \<or>
      unat (pc_load_count c') = Suc (unat (pc_load_count c)))"

lemma schema_wf_ne: "schema_wf s \<Longrightarrow> s \<noteq> []"
  by (auto simp: schema_wf_def)

lemma align_item:
  assumes "kernels_ok K" and "nulls_ok nulls" and "schema_wf s" and "item_fits s (ReadBatch b)"
  obtains a where "align K nulls b s = Inr a" and "batch_wf s a" and "num_rows a = num_rows b" and "rows a = aligned_rows s b"
proof (cases "rb_schema b = s")
  case True
  then show thesis using that [of b] assms(4) by (simp add: align_def item_fits_def aligned_rows_def)
next
  case False
  then have f: "batch_wf (rb_schema b) b" "compatible (rb_schema b) s" "nulls_allowed (rb_schema b) s"
    using assms(4) by (simp_all add: item_fits_def)
  from align_rows [OF assms(1,2) f schema_wf_ne [OF assms(3)]] show thesis
    using that by (metis aligned_rows_def)
qed

lemma load_ok:
  assumes "kernels_ok K" and "nulls_ok nulls" and "schema_wf s"
  shows "\<lbrakk>pc_schema c = s; \<forall>it \<in> set items. item_fits s it; unat (pc_load_count c) + length items < 2 ^ 40\<rbrakk> \<Longrightarrow>
    \<exists>c'. load_loop K nulls items c = (Inr (), c') \<and> cursor_wf s c' \<and> cursor_rem s c' = file_rows s items \<and> succeeds c c'"
proof (induction items)
  case Nil
  then show ?case by (simp add: cursor_wf_def cursor_rem_def file_rows_def succeeds_def)
next
  case (Cons it items)
  obtain b where it: "it = ReadBatch b" using Cons.prems(2) by (cases it) (auto simp: item_fits_def)
  then have fit: "item_fits s (ReadBatch b)" using Cons.prems(2) by simp
  from align_item [OF assms fit] obtain a where a: "align K nulls b s = Inr a" "batch_wf s a" "num_rows a = num_rows b"
    "rows a = aligned_rows s b" .
  show ?case
  proof (cases "num_rows a = 0")
    case True
    then have "aligned_rows s b = []" using a(4) by (metis length_0_conv length_rows)
    then show ?thesis using Cons a True by (simp add: it file_rows_def)
  next
    case False
    have lc: "unat (pc_load_count c + 1) = Suc (unat (pc_load_count c))"
      using Cons.prems(3) by (simp add: unat_word_ariths)
    have "num_rows a \<le> 2 ^ 32" using fit a(3) by (simp add: item_fits_def)
    then show ?thesis using False Cons.prems a lc
      by (simp add: it cursor_wf_def cursor_rem_def file_rows_def succeeds_def)
  qed
qed

lemma rem_current:
  assumes "cursor_wf s c"
  shows "cursor_rem s c \<noteq> [] \<longleftrightarrow> pc_current c \<noteq> None"
    and "pc_current c = Some b \<Longrightarrow> List.hd (cursor_rem s c) = rows b ! pc_row c"
  using assms by (auto simp: cursor_wf_def cursor_rem_def file_rows_def hd_append hd_drop_conv_nth split: option.splits)

lemma peek_ok:
  assumes "schema_wf s" and "cursor_wf s c"
  shows "peek_ts c = Return (if cursor_rem s c = [] then None else Some (row_time s (List.hd (cursor_rem s c))))"
proof (cases "pc_current c")
  case None
  then show ?thesis using rem_current(1) [OF assms(2)] by (simp add: peek_ts_def)
next
  case (Some b)
  have b: "batch_wf s b" "pc_row c < num_rows b" using assms(2) Some by (simp_all add: cursor_wf_def)
  then show ?thesis
    using Some rem_current [OF assms(2)] batch_wf_col(2) [OF b(1) schema_wf_idx(2) [OF assms(1)]]
    by (simp add: peek_ts_def timestamp_at_def batch_wf_schema schema_wf_idx(1) [OF assms(1)] time_value_wf [OF assms(1)])
qed

lemma advance_cursor_ok:
  assumes "kernels_ok K" and "nulls_ok nulls" and "schema_wf s" and "cursor_wf s c" and "cursor_rem s c \<noteq> []"
  defines "c' \<equiv> cursor_advance K nulls c"
  shows "cursor_wf s c' \<and> cursor_rem s c' = List.tl (cursor_rem s c) \<and> succeeds c c'"
proof -
  obtain b where b: "pc_current c = Some b" using rem_current(1) [OF assms(4)] assms(5) by auto
  let ?c = "c\<lparr>pc_row := Suc (pc_row c)\<rparr>"
  have wf: "batch_wf s b" "pc_row c < num_rows b" "num_rows b \<le> 2 ^ 32" "pc_schema ?c = s"
      "\<forall>it \<in> set (pc_reader c). item_fits s it" "unat (pc_load_count ?c) + length (pc_reader c) < 2 ^ 40"
    using assms(4) b by (simp_all add: cursor_wf_def)
  have tl: "List.tl (cursor_rem s c) = drop (Suc (pc_row c)) (rows b) @ file_rows s (pc_reader c)"
    using wf(2) b by (simp add: cursor_rem_def tl_append2 tl_drop drop_Suc)
  show ?thesis
  proof (cases "Suc (pc_row c) \<ge> num_rows b")
    case True
    obtain c1 where "load_loop K nulls (pc_reader c) ?c = (Inr (), c1)" "cursor_wf s c1"
      "cursor_rem s c1 = file_rows s (pc_reader c)" "succeeds ?c c1"
      using load_ok [OF assms(1-3) wf(4-6)] by blast
    then show ?thesis
      using True b tl by (simp add: c'_def cursor_advance_def load_next_batch_def Let_def succeeds_def)
  next
    case False
    then show ?thesis
      using b tl wf by (simp add: c'_def cursor_advance_def cursor_wf_def cursor_rem_def succeeds_def Let_def)
  qed
qed

section \<open>The chunk holds the emitted rows\<close>

lemma row_key_parts:
  assumes "i < 2 ^ 24" and "l < 2 ^ 40"
  shows "drop_bit 40 (row_key i l) = of_nat i" and "take_bit 40 (row_key i l) = l"
proof -
  have l: "take_bit 40 l = l" using assms(2) by (simp add: word_unat_eq_iff unsigned_take_bit_eq take_bit_nat_eq_self word_less_nat_alt)
  have bl: "\<not> bit l n" if "40 \<le> n" for n
    using l that by (metis bit_take_bit_iff not_less)
  have bi: "\<not> bit (of_nat i :: u64) n" if "24 \<le> n" for n
  proof -
    have "take_bit 24 (of_nat i :: u64) = of_nat i" using assms(1) by (simp add: word_unat_eq_iff unsigned_take_bit_eq unsigned_of_nat take_bit_nat_eq_self)
    then show ?thesis using that by (metis bit_take_bit_iff not_less)
  qed
  show "drop_bit 40 (row_key i l) = of_nat i"
  proof (rule bit_word_eqI)
    fix n
    assume "n < LENGTH(64)"
    then show "bit (drop_bit 40 (row_key i l)) n \<longleftrightarrow> bit (of_nat i :: u64) n"
      using bl [of "40 + n"] bi [of n]
      by (cases "n < 24") (auto simp: row_key_def bit_drop_bit_eq bit_or_iff bit_push_bit_iff)
  qed
  show "take_bit 40 (row_key i l) = l"
    using l by (simp add: row_key_def take_bit_or take_bit_push_bit)
qed

lemma row_key_inj:
  assumes "row_key i l = row_key j m" and "i < 2 ^ 24" and "j < 2 ^ 24" and "l < 2 ^ 40" and "m < 2 ^ 40"
  shows "i = j \<and> l = m"
proof -
  have "(of_nat i :: u64) = of_nat j" "l = m"
    using row_key_parts [OF assms(2,4)] row_key_parts [OF assms(3,5)] assms(1) by simp_all
  then show ?thesis using assms(2,3) by (simp add: word_of_nat_eq_iff take_bit_nat_eq_self)
qed

definition cursors_wf :: "schema \<Rightarrow> parquet_cursor list \<Rightarrow> bool" where
  "cursors_wf s cs \<longleftrightarrow> length cs \<le> 2 ^ 24 \<and> (\<forall>i < length cs. cursor_wf s (cs ! i) \<and> pc_source_idx (cs ! i) = i)"

text \<open>A key of the chunk belongs to a load of a cursor; under the key of the current load is the current batch.\<close>

definition key_of_load :: "parquet_cursor list \<Rightarrow> u64 \<Rightarrow> record_batch \<Rightarrow> bool" where
  "key_of_load cs key b \<longleftrightarrow> (\<exists>i l. i < length cs \<and> key = row_key i l \<and> unat l \<le> unat (pc_load_count (cs ! i)) \<and>
     (l = pc_load_count (cs ! i) \<longrightarrow> pc_current (cs ! i) = None \<or> pc_current (cs ! i) = Some b))"

definition chunk_fits :: "schema \<Rightarrow> parquet_cursor list \<Rightarrow> compact_chunk \<Rightarrow> bool" where
  "chunk_fits s cs ch \<longleftrightarrow> ck_schema ch = s \<and> ck_len ch = length (ck_emission ch) \<and> batches_wf s (ck_sources ch) \<and>
     (\<forall>(j, r) \<in> set (ck_emission ch). j < length (ck_sources ch) \<and> unat r < num_rows (ck_sources ch ! j)) \<and>
     (\<forall>key j. ck_source_index ch key = Some j \<longrightarrow> j < length (ck_sources ch) \<and> key_of_load cs key (ck_sources ch ! j))"

definition chunk_out :: "compact_chunk \<Rightarrow> row list" where
  "chunk_out ch = map (\<lambda>(j, r). rows (ck_sources ch ! j) ! unat r) (ck_emission ch)"

lemma length_chunk_out: "chunk_fits s cs ch \<Longrightarrow> length (chunk_out ch) = ck_len ch"
  by (simp add: chunk_fits_def chunk_out_def)

lemma chunk_new_fits: "chunk_fits s cs (compact_chunk_new s)" "chunk_out (compact_chunk_new s) = []"
  by (simp_all add: chunk_fits_def chunk_out_def compact_chunk_new_def)

lemma load_count_bound: "cursor_wf s c \<Longrightarrow> unat (pc_load_count c) < 2 ^ 40"
  by (simp add: cursor_wf_def)

lemma key_of_current:
  assumes "cursors_wf s cs" and "i < length cs" and "pc_current (cs ! i) = Some b"
    and "key_of_load cs (row_key i (pc_load_count (cs ! i))) b'"
  shows "b' = b"
proof -
  let ?l = "pc_load_count (cs ! i)"
  obtain j m where jm: "j < length cs" "row_key i ?l = row_key j m" "unat m \<le> unat (pc_load_count (cs ! j))"
    "m = pc_load_count (cs ! j) \<longrightarrow> pc_current (cs ! j) = None \<or> pc_current (cs ! j) = Some b'"
    using assms(4) by (auto simp: key_of_load_def)
  have "unat ?l < 2 ^ 40" "unat m < 2 ^ 40" "i < 2 ^ 24" "j < 2 ^ 24"
    using assms(1,2) jm(1,3) load_count_bound [of s "cs ! i"] load_count_bound [of s "cs ! j"] by (auto simp: cursors_wf_def)
  then have "i = j" "?l = m" using row_key_inj [OF jm(2)] unfolding word_less_nat_alt by auto
  then show ?thesis using jm(4) assms(3) by auto
qed

lemma key_of_load_succeeds:
  assumes "key_of_load cs key b" and "i < length cs" and "succeeds (cs ! i) c'"
  shows "key_of_load (cs[i := c']) key b"
proof -
  obtain j l where jl: "j < length cs" "key = row_key j l" "unat l \<le> unat (pc_load_count (cs ! j))"
    "l = pc_load_count (cs ! j) \<longrightarrow> pc_current (cs ! j) = None \<or> pc_current (cs ! j) = Some b"
    using assms(1) by (auto simp: key_of_load_def)
  have "unat l \<le> unat (pc_load_count (cs[i := c'] ! j)) \<and>
      (l = pc_load_count (cs[i := c'] ! j) \<longrightarrow> pc_current (cs[i := c'] ! j) = None \<or> pc_current (cs[i := c'] ! j) = Some b)"
    using jl assms(2,3) by (cases "j = i") (auto simp: succeeds_def)
  then show ?thesis using jl(1,2) by (auto simp: key_of_load_def)
qed

lemma chunk_fits_succeeds:
  "chunk_fits s cs ch \<Longrightarrow> i < length cs \<Longrightarrow> succeeds (cs ! i) c' \<Longrightarrow> chunk_fits s (cs[i := c']) ch"
  using key_of_load_succeeds unfolding chunk_fits_def by blast

lemma push_emission:
  assumes "chunk_fits s cs ch" and "idx < length (ck_sources ch)" and "ck_sources ch ! idx = b" and "row < num_rows b"
    and "num_rows b \<le> 2 ^ 32"
  defines "ch' \<equiv> ch\<lparr>ck_emission := ck_emission ch @ [(idx, of_nat row)], ck_len := Suc (ck_len ch)\<rparr>"
  shows "chunk_fits s cs ch'" "chunk_out ch' = chunk_out ch @ [rows b ! row]"
proof -
  have "unat (of_nat row :: u32) = row" using assms(4,5) by (simp add: unsigned_of_nat take_bit_nat_eq_self)
  then show "chunk_fits s cs ch'" "chunk_out ch' = chunk_out ch @ [rows b ! row]"
    using assms(1-4) by (auto simp: ch'_def chunk_fits_def chunk_out_def)
qed

lemma compact_push_ok:
  assumes "cursors_wf s cs" and "chunk_fits s cs ch" and "i < length cs" and "pc_current (cs ! i) = Some b"
  defines "ch' \<equiv> compact_push b (pc_row (cs ! i)) (row_key i (pc_load_count (cs ! i))) ch"
  shows "chunk_fits s cs ch'" "chunk_out ch' = chunk_out ch @ [rows b ! pc_row (cs ! i)]"
proof -
  let ?key = "row_key i (pc_load_count (cs ! i))" and ?n = "length (ck_sources ch)"
  have b: "batch_wf s b" "pc_row (cs ! i) < num_rows b" "num_rows b \<le> 2 ^ 32"
    using assms(1,3,4) by (auto simp: cursors_wf_def cursor_wf_def split: option.splits)
  have "chunk_fits s cs ch' \<and> chunk_out ch' = chunk_out ch @ [rows b ! pc_row (cs ! i)]"
  proof (cases "ck_source_index ch ?key")
    case (Some j)
    then have "j < ?n" "key_of_load cs ?key (ck_sources ch ! j)" using assms(2) by (auto simp: chunk_fits_def)
    then show ?thesis
      using push_emission [OF assms(2) _ _ b(2,3), of j] key_of_current [OF assms(1,3,4)] Some
      by (simp add: ch'_def compact_push_def)
  next
    case None
    let ?ch = "ch\<lparr>ck_sources := ck_sources ch @ [b], ck_source_index := (ck_source_index ch)(?key \<mapsto> ?n)\<rparr>"
    have "key_of_load cs ?key b" using assms(3,4) by (auto simp: key_of_load_def)
    then have "chunk_fits s cs ?ch" using assms(2) b(1) by (fastforce simp: chunk_fits_def nth_append)
    moreover have "chunk_out ?ch = chunk_out ch" using assms(2) by (auto simp: chunk_out_def chunk_fits_def nth_append)
    ultimately show ?thesis
      using push_emission [of s cs ?ch ?n b] b(2,3) None by (simp add: ch'_def compact_push_def Let_def)
  qed
  then show "chunk_fits s cs ch'" "chunk_out ch' = chunk_out ch @ [rows b ! pc_row (cs ! i)]" by simp_all
qed

lemma compact_pieces_ok:
  assumes "kernels_ok K" and "batches_wf s sources"
  shows "\<forall>(j, r) \<in> set es. j < length sources \<and> unat r < num_rows (sources ! j) \<Longrightarrow>
    \<exists>ps. compact_pieces K s sources es = Inr ps \<and> batches_wf s ps \<and> length ps = length es \<and>
      all_rows ps = map (\<lambda>(j, r). rows (sources ! j) ! unat r) es"
proof (induction es)
  case (Cons e es)
  obtain j r where e: "e = (j, r)" by (cases e)
  then have jr: "batch_wf s (sources ! j)" "\<forall>i \<in> set [unat r]. i < num_rows (sources ! j)" using Cons.prems assms(2) by auto
  from take_rows [OF assms(1) jr] obtain p where
    "and_then (take_columns K ''take'' [unat r] (rb_columns (sources ! j))) (new_batch K ''batch'' s) = Inr p"
    "batch_wf s p" "rows p = pick (rows (sources ! j)) [unat r]" .
  moreover obtain ps where "compact_pieces K s sources es = Inr ps" "batches_wf s ps" "length ps = length es"
    "all_rows ps = map (\<lambda>(j, r). rows (sources ! j) ! unat r) es" using Cons by auto
  ultimately show ?case by (simp add: e arrow_error_def pick_def)
qed simp

lemma compact_build_ok:
  assumes "kernels_ok K" and "chunk_fits s cs ch" and "ck_len ch > 0"
  obtains b where "compact_build K ch = Inr b" and "batch_wf s b" and "rows b = chunk_out ch"
proof -
  have ch: "ck_schema ch = s" "batches_wf s (ck_sources ch)" "length (ck_emission ch) > 0"
    "\<forall>(j, r) \<in> set (ck_emission ch). j < length (ck_sources ch) \<and> unat r < num_rows (ck_sources ch ! j)"
    using assms(2,3) by (auto simp: chunk_fits_def)
  obtain ps where ps: "compact_pieces K s (ck_sources ch) (ck_emission ch) = Inr ps" "batches_wf s ps"
    "length ps = length (ck_emission ch)" "all_rows ps = chunk_out ch"
    using compact_pieces_ok [OF assms(1) ch(2,4)] by (auto simp: chunk_out_def)
  have ne: "ps \<noteq> []" using ps(3) ch(3) by auto
  show thesis
  proof (cases "length ps = 1")
    case True
    then obtain p where "ps = [p]" by (auto simp: length_Suc_conv)
    then show thesis using that [of p] ps assms(3) by (simp add: compact_build_def ch(1))
  next
    case False
    from concat_rows [OF assms(1) ne ps(2)] obtain b where "k_concat K s ps = Some b" "batch_wf s b" "rows b = all_rows ps" .
    then show thesis using that [of b] ps False assms(3) by (simp add: compact_build_def ch(1))
  qed
qed

section \<open>The loop refines the abstract merge\<close>

definition emitted :: "compact_state \<Rightarrow> row list" where
  "emitted st = all_rows (cs_out st) @ chunk_out (cs_chunk st)"

definition last_time :: "schema \<Rightarrow> row list \<Rightarrow> i64 option" where
  "last_time s E = (if E = [] then None else Some (row_time s (List.last E)))"

definition emit_wf :: "schema \<Rightarrow> compact_state \<Rightarrow> bool" where
  "emit_wf s st \<longleftrightarrow> cursors_wf s (cs_cursors st) \<and> chunk_fits s (cs_cursors st) (cs_chunk st) \<and>
     batches_wf s (cs_out st) \<and> (\<forall>b \<in> set (cs_out st). num_rows b \<le> STREAM_MERGE_BATCH_ROWS) \<and>
     ck_len (cs_chunk st) < STREAM_MERGE_BATCH_ROWS \<and> cs_total_rows st = length (emitted st) \<and>
     cs_min_ts st = Min (insert i64_max (row_time s ` set (emitted st))) \<and>
     cs_max_ts st = Max (insert i64_min (row_time s ` set (emitted st))) \<and> cs_last_ts st = last_time s (emitted st)"

definition heads :: "('r \<Rightarrow> i64) \<Rightarrow> 'r list list \<Rightarrow> heap_key set" where
  "heads k R = {(k (List.hd (R ! i)), i) | i. i < length R \<and> R ! i \<noteq> []}"

definition loop_inv :: "schema \<Rightarrow> row list \<Rightarrow> compact_state \<Rightarrow> bool" where
  "loop_inv s T st \<longleftrightarrow> emit_wf s st \<and> distinct (cs_heap st) \<and>
     set (cs_heap st) = heads (row_time s) (map (cursor_rem s) (cs_cursors st)) \<and>
     kmerge_inv (row_time s) T (map (cursor_rem s) (cs_cursors st)) (emitted st)"

lemma emit_row_last_time:
  "emit_row (row_time s) E r = (if last_time s E = Some (row_time s r) then E else E @ [r])"
  by (simp add: emit_row_def last_time_def)

lemma STREAM_pos [simp]: "0 < STREAM_MERGE_BATCH_ROWS"
  by (simp add: STREAM_MERGE_BATCH_ROWS_def)

lemma emit_head_ok:
  assumes K: "kernels_ok K" and wf: "emit_wf s st" and i: "i < length (cs_cursors st)"
    and rem: "cursor_rem s (cs_cursors st ! i) = r # rs"
  obtains st' where "emit_head K (row_time s r) i st = Inr st'" and "emit_wf s st'"
    and "emitted st' = emit_row (row_time s) (emitted st) r"
proof (cases "cs_last_ts st = Some (row_time s r)")
  case True
  then show thesis using that [of st] wf by (simp add: emit_head_def emit_row_last_time emit_wf_def)
next
  case False
  let ?cs = "cs_cursors st" and ?t = "row_time s r"
  have cs: "cursors_wf s ?cs" and ch: "chunk_fits s ?cs (cs_chunk st)" using wf by (simp_all add: emit_wf_def)
  have c: "cursor_wf s (?cs ! i)" "pc_source_idx (?cs ! i) = i" using cs i by (simp_all add: cursors_wf_def)
  obtain b where b: "pc_current (?cs ! i) = Some b" using rem_current(1) [OF c(1)] rem by auto
  then have r: "r = rows b ! pc_row (?cs ! i)" using rem_current(2) [OF c(1)] rem by simp
  define ch1 where "ch1 = compact_push b (pc_row (?cs ! i)) (row_key i (pc_load_count (?cs ! i))) (cs_chunk st)"
  note push = compact_push_ok [OF cs ch i b, folded ch1_def r]
  have len: "ck_len ch1 = Suc (ck_len (cs_chunk st))"
    using length_chunk_out [OF push(1)] length_chunk_out [OF ch] push(2) by simp
  define st1 where "st1 = st\<lparr>cs_min_ts := min (cs_min_ts st) ?t, cs_max_ts := max (cs_max_ts st) ?t,
    cs_chunk := ch1, cs_total_rows := Suc (cs_total_rows st), cs_last_ts := Some ?t\<rparr>"
  have E1: "emitted st1 = emitted st @ [r]" using push(2) by (simp add: emitted_def st1_def)
  have bounds: "cs_total_rows st1 = length (emitted st @ [r])" "cs_last_ts st1 = last_time s (emitted st @ [r])"
    "cs_min_ts st1 = Min (insert i64_max (row_time s ` set (emitted st @ [r])))"
    "cs_max_ts st1 = Max (insert i64_min (row_time s ` set (emitted st @ [r])))"
    using wf by (simp_all add: st1_def emit_wf_def last_time_def insert_commute [of _ ?t] min.commute max.commute)
  have eq: "emit_row (row_time s) (emitted st) r = emitted st @ [r]"
    using False wf by (simp add: emit_row_last_time emit_wf_def)
  have head: "emit_head K ?t i st = (if ck_len ch1 \<ge> STREAM_MERGE_BATCH_ROWS
      then and_then (compact_build K ch1) (\<lambda>b. Inr (st1\<lparr>cs_out := cs_out st @ [b], cs_chunk := compact_chunk_new s\<rparr>))
      else Inr st1)"
    using False push(1) by (simp add: emit_head_def current_row_owned_def b c(2) st1_def ch1_def Let_def chunk_fits_def)
  show thesis
  proof (cases "ck_len ch1 \<ge> STREAM_MERGE_BATCH_ROWS")
    case True
    from compact_build_ok [OF K push(1)] len obtain b where b: "compact_build K ch1 = Inr b" "batch_wf s b" "rows b = chunk_out ch1" by auto
    let ?st = "st1\<lparr>cs_out := cs_out st @ [b], cs_chunk := compact_chunk_new s\<rparr>"
    have n: "num_rows b \<le> STREAM_MERGE_BATCH_ROWS"
      using wf len length_chunk_out [OF push(1)] arg_cong [OF b(3), of length] by (simp add: emit_wf_def)
    have E: "emitted ?st = emitted st @ [r]" using b(3) push(2) by (simp add: emitted_def chunk_new_fits)
    have "emit_wf s ?st" using wf bounds n b(2) chunk_new_fits(1) [of s "cs_cursors st"]
      unfolding emit_wf_def E by (simp add: st1_def compact_chunk_new_def)
    then show thesis using that [of ?st] head True b(1) E eq by simp
  next
    case False
    have "emit_wf s st1" using wf bounds push(1) False unfolding emit_wf_def E1 by (simp add: st1_def)
    then show thesis using that [of st1] head False E1 eq by simp
  qed
qed

lemma advance_head_ok:
  assumes ok: "kernels_ok K" "nulls_ok nulls" "schema_wf s" and wf: "emit_wf s st" and i: "i < length (cs_cursors st)"
    and rem: "cursor_rem s (cs_cursors st ! i) = r # rs"
  obtains st' where "advance_head K nulls i st = Return st'" and "emit_wf s st'" and "emitted st' = emitted st"
    and "map (cursor_rem s) (cs_cursors st') = (map (cursor_rem s) (cs_cursors st))[i := rs]"
    and "cs_heap st' = (if rs = [] then cs_heap st else (row_time s (List.hd rs), i) # cs_heap st)"
proof -
  let ?c = "cs_cursors st ! i"
  define c' where "c' = cursor_advance K nulls ?c"
  have cs: "cursors_wf s (cs_cursors st)" and "cursor_wf s ?c" using wf i by (simp_all add: emit_wf_def cursors_wf_def)
  then have c': "cursor_wf s c'" "cursor_rem s c' = rs" "succeeds ?c c'"
    using advance_cursor_ok [OF ok, of ?c] rem by (simp_all add: c'_def)
  have cs': "cursors_wf s ((cs_cursors st)[i := c'])"
    using cs c'(1,3) i by (auto simp: cursors_wf_def nth_list_update succeeds_def)
  have ch': "chunk_fits s ((cs_cursors st)[i := c']) (cs_chunk st)"
    using chunk_fits_succeeds [OF _ i c'(3)] wf by (simp add: emit_wf_def)
  let ?st = "st\<lparr>cs_cursors := (cs_cursors st)[i := c'],
    cs_heap := (if rs = [] then cs_heap st else (row_time s (List.hd rs), i) # cs_heap st)\<rparr>"
  have "advance_head K nulls i st = Return ?st"
    using peek_ok [OF ok(3) c'(1)] c'(2) by (simp add: advance_head_def c'_def Let_def)
  then show thesis
    using that [of ?st] wf cs' ch' c'(2) by (simp add: emit_wf_def emitted_def map_update)
qed

lemma heads_first:
  assumes "(t, i) \<in> heads k R" and "\<forall>d \<in> heads k R. \<not> key_before d (t, i)"
  shows "first_row k R i (List.hd (R ! i))" "t = k (List.hd (R ! i))"
  using assms by (fastforce simp: heads_def first_row_def key_before_def)+

lemma heads_mem: "(t, j) \<in> heads k R \<longleftrightarrow> j < length R \<and> R ! j \<noteq> [] \<and> t = k (List.hd (R ! j))"
  by (auto simp: heads_def)

lemma heads_update:
  assumes "i < length R" and "R ! i = r # rs"
  shows "heads k (R[i := rs]) = (heads k R - {(k r, i)}) \<union> (if rs = [] then {} else {(k (List.hd rs), i)})"
proof (rule set_eqI)
  fix d :: heap_key
  obtain t j where d: "d = (t, j)" by (cases d)
  show "d \<in> heads k (R[i := rs]) \<longleftrightarrow> d \<in> (heads k R - {(k r, i)}) \<union> (if rs = [] then {} else {(k (List.hd rs), i)})"
    using assms by (cases "j = i") (auto simp: d heads_mem)
qed

lemma concat_shorter: "i < length R \<Longrightarrow> R ! i = r # rs \<Longrightarrow> length (concat (R[i := rs])) < length (concat R)"
  unfolding length_concat by (rule sum_list_update_cases(1)) simp_all

lemma heads_Cons: "heads k (r # R) = (if r = [] then {} else {(k (List.hd r), 0)}) \<union> (\<lambda>(t, i). (t, Suc i)) ` heads k R"
proof (rule set_eqI)
  fix d :: heap_key
  have shift: "(t, j) \<in> (\<lambda>(t, i). (t, Suc i)) ` S \<longleftrightarrow> (\<exists>i. j = Suc i \<and> (t, i) \<in> S)" for t j and S :: "heap_key set"
    by force
  obtain t j where d: "d = (t, j)" by (cases d)
  show "d \<in> heads k (r # R) \<longleftrightarrow> d \<in> (if r = [] then {} else {(k (List.hd r), 0)}) \<union> (\<lambda>(t, i). (t, Suc i)) ` heads k R"
    by (cases j) (simp_all add: d heads_mem shift)
qed

lemma heads_empty:
  assumes "heads k R = {}"
  shows "\<forall>l \<in> set R. l = []"
proof
  fix l
  assume "l \<in> set R"
  then obtain i where i: "i < length R" "R ! i = l" by (auto simp: in_set_conv_nth)
  then have "l \<noteq> [] \<Longrightarrow> (k (List.hd (R ! i)), i) \<in> heads k R" by (simp add: heads_def)
  then show "l = []" using assms by auto
qed

lemma compact_loop_ok:
  assumes ok: "kernels_ok K" "nulls_ok nulls" "schema_wf s"
  shows "loop_inv s T st \<Longrightarrow> \<exists>st'. compact_loop K nulls st = Some (Return (Inr st')) \<and> emit_wf s st' \<and>
    emitted st' = newest (row_time s) T"
proof (induction "length (concat (map (cursor_rem s) (cs_cursors st)))" arbitrary: st rule: less_induct)
  case less
  let ?k = "row_time s" and ?R = "map (cursor_rem s) (cs_cursors st)"
  have wf: "emit_wf s st" and heap: "distinct (cs_heap st)" "set (cs_heap st) = heads ?k ?R"
    and inv: "kmerge_inv ?k T ?R (emitted st)" using less.prems by (simp_all add: loop_inv_def)
  show ?case
  proof (cases "heap_pop key_before (cs_heap st)")
    case None
    then have "heads ?k ?R = {}" using heap(2) by (simp add: heap_pop_None)
    then have "\<forall>l \<in> set ?R. l = []" by (rule heads_empty)
    then show ?thesis using None kmerge_done [OF inv] wf by (subst compact_loop.simps) simp
  next
    case (Some p)
    obtain t i h where p: "p = ((t, i), h)" by (metis prod.exhaust)
    note pop = heap_pop_key [OF Some [unfolded p]]
    have mem: "(t, i) \<in> heads ?k ?R" and nb: "\<forall>d \<in> heads ?k ?R. \<not> key_before d (t, i)" using pop(1,3) heap(2) by simp_all
    note first = heads_first [OF mem nb]
    obtain r rs where i: "i < length (cs_cursors st)" and Ri: "cursor_rem s (cs_cursors st ! i) = r # rs"
      using first(1) by (cases "cursor_rem s (cs_cursors st ! i)") (auto simp: first_row_def)
    then have t: "t = ?k r" using first(2) by simp
    have wf0: "emit_wf s (st\<lparr>cs_heap := h\<rparr>)" using wf by (simp add: emit_wf_def emitted_def)
    have i0: "i < length (cs_cursors (st\<lparr>cs_heap := h\<rparr>))" and R0: "cursor_rem s (cs_cursors (st\<lparr>cs_heap := h\<rparr>) ! i) = r # rs"
      and E0: "emitted (st\<lparr>cs_heap := h\<rparr>) = emitted st" using i Ri by (simp_all add: emitted_def)
    from emit_head_ok [OF ok(1) wf0 i0 R0] obtain st1 where st1: "emit_head K (?k r) i (st\<lparr>cs_heap := h\<rparr>) = Inr st1"
      "emit_wf s st1" "emitted st1 = emit_row ?k (emitted (st\<lparr>cs_heap := h\<rparr>)) r" .
    have keep: "cs_cursors st1 = cs_cursors st" "cs_heap st1 = h" using emit_head_keeps [OF st1(1)] by simp_all
    have i1: "i < length (cs_cursors st1)" and R1: "cursor_rem s (cs_cursors st1 ! i) = r # rs" using i Ri keep by simp_all
    from advance_head_ok [OF ok st1(2) i1 R1] obtain st2 where st2: "advance_head K nulls i st1 = Return st2"
      "emit_wf s st2" "emitted st2 = emitted st1" "map (cursor_rem s) (cs_cursors st2) = (map (cursor_rem s) (cs_cursors st1))[i := rs]"
      "cs_heap st2 = (if rs = [] then cs_heap st1 else (?k (List.hd rs), i) # cs_heap st1)" .
    note st2 = st2(1-3) st2(4,5) [unfolded keep]
    have "kmerge_inv ?k T (?R[i := rs]) (emitted st2)"
      using kmerge_step [OF inv first(1)] i Ri unfolding st2(3) st1(3) E0 by simp
    moreover have h: "distinct h" "set h = heads ?k ?R - {(?k r, i)}" using heap pop(2) t by simp_all
    moreover have "(?k (List.hd rs), i) \<notin> set h" if "rs \<noteq> []"
      using h(2) i Ri by (auto simp: heads_def)
    ultimately have "loop_inv s T st2"
      using st2 heads_update [of i ?R r rs ?k] i Ri by (simp add: loop_inv_def)
    moreover have "length (concat (?R[i := rs])) < length (concat ?R)"
      using i Ri by (intro concat_shorter) simp_all
    ultimately obtain st' where "compact_loop K nulls st2 = Some (Return (Inr st'))" "emit_wf s st'" "emitted st' = newest ?k T"
      using less.hyps [of st2] unfolding st2(4) by blast
    then show ?thesis using Some st1(1) st2(1) unfolding p t by (subst compact_loop.simps) simp
  qed
qed

section \<open>Opening the files\<close>

definition file_fits :: "schema \<Rightarrow> reader_item list \<Rightarrow> bool" where
  "file_fits s items \<longleftrightarrow> length items < 2 ^ 40 \<and> (\<forall>it \<in> set items. item_fits s it) \<and>
     sorted_wrt (<) (map (row_time s) (file_rows s items))"

lemma open_cursors_ok:
  assumes ok: "kernels_ok K" "nulls_ok nulls" "schema_wf s"
  shows "\<forall>items \<in> set files. file_fits s items \<Longrightarrow>
    \<exists>cs. open_cursors K nulls s idx (map Inr files) = Inr cs \<and> map (cursor_rem s) cs = map (file_rows s) files \<and>
      (\<forall>i < length cs. cursor_wf s (cs ! i) \<and> pc_source_idx (cs ! i) = idx + i)"
proof (induction files arbitrary: idx)
  case (Cons items files)
  let ?c = "\<lparr>pc_reader = items, pc_schema = s, pc_current = None, pc_row = 0, pc_source_idx = idx, pc_load_count = 0\<rparr>"
  have f: "pc_schema ?c = s" "\<forall>it \<in> set items. item_fits s it" "unat (pc_load_count ?c) + length items < 2 ^ 40"
    using Cons.prems by (simp_all add: file_fits_def)
  obtain c where c: "load_loop K nulls items ?c = (Inr (), c)" "cursor_wf s c" "cursor_rem s c = file_rows s items" "succeeds ?c c"
    using load_ok [OF ok f] by (elim exE conjE) (rule that)
  have rest: "\<forall>items \<in> set files. file_fits s items" using Cons.prems by simp
  obtain cs where cs: "open_cursors K nulls s (Suc idx) (map Inr files) = Inr cs" "map (cursor_rem s) cs = map (file_rows s) files"
    "\<forall>i < length cs. cursor_wf s (cs ! i) \<and> pc_source_idx (cs ! i) = Suc idx + i" using Cons.IH [OF rest, of "Suc idx"] by (elim exE conjE) (rule that)
  have "parquet_open K nulls (Inr items) s idx = Inr c" using c(1) by (simp add: parquet_open_def load_next_batch_def)
  then have "open_cursors K nulls s idx (map Inr (items # files)) = Inr (c # cs)" using cs(1) by simp
  moreover have "\<forall>i < length (c # cs). cursor_wf s ((c # cs) ! i) \<and> pc_source_idx ((c # cs) ! i) = idx + i"
    using c(2,4) cs(3) by (auto simp: succeeds_def nth_Cons split: nat.split)
  ultimately show ?case using c(3) cs(2) by auto
qed simp

lemma init_heap_ok:
  assumes "schema_wf s"
  shows "\<forall>c \<in> set cs. cursor_wf s c \<Longrightarrow> \<exists>h. init_heap idx cs = Return h \<and> distinct h \<and>
    (\<forall>(t, j) \<in> set h. idx \<le> j) \<and>
    set h = (\<lambda>(t, i). (t, idx + i)) ` heads (row_time s) (map (cursor_rem s) cs)"
proof (induction cs arbitrary: idx)
  case (Cons c cs)
  let ?k = "row_time s" and ?R = "map (cursor_rem s) cs" and ?r = "cursor_rem s c"
  have rest: "\<forall>c \<in> set cs. cursor_wf s c" using Cons.prems by simp
  obtain h where h: "init_heap (Suc idx) cs = Return h" "distinct h" "\<forall>(t, j) \<in> set h. Suc idx \<le> j"
    "set h = (\<lambda>(t, i). (t, Suc idx + i)) ` heads ?k ?R"
    using Cons.IH [OF rest, of "Suc idx"] by (elim exE conjE) (rule that)
  have hd: "heads ?k (?r # ?R) = (if ?r = [] then {} else {(?k (List.hd ?r), 0)}) \<union> (\<lambda>(t, i). (t, Suc i)) ` heads ?k ?R"
    by (rule heads_Cons)
  have "set h = (\<lambda>(t, i). (t, idx + i)) ` (\<lambda>(t, i). (t, Suc i)) ` heads ?k ?R"
    unfolding h(4) image_image by (intro image_cong) auto
  then have "(if ?r = [] then {} else {(?k (List.hd ?r), idx)}) \<union> set h = (\<lambda>(t, i). (t, idx + i)) ` heads ?k (?r # ?R)"
    unfolding hd image_Un by simp
  then show ?case using peek_ok [OF assms, of c] Cons.prems h(1-3) by (fastforce split: if_splits)
qed (simp add: heads_def)

lemma newest_hd_last:
  assumes "newest k T \<noteq> []"
  shows "Min (k ` set T) = k (List.hd (newest k T))" "Max (k ` set T) = k (List.last (newest k T))"
proof -
  let ?l = "sorted_list_of_set (k ` set T)"
  have m: "map k (newest k T) = ?l" by (rule newest_times)
  then have ne: "?l \<noteq> []" using assms by (metis list.map_disc_iff)
  have s: "sorted ?l" "set ?l = k ` set T" by simp_all
  have "List.hd ?l = Min (set ?l)" using ne s(1) by (cases ?l) (auto intro!: Min_eqI [symmetric])
  then show "Min (k ` set T) = k (List.hd (newest k T))" using m assms s(2) by (metis hd_map)
  have "List.last ?l = Max (set ?l)" using ne s(1) by (cases ?l rule: rev_cases) (auto intro!: Max_eqI [symmetric] simp: sorted_append)
  then show "Max (k ` set T) = k (List.last (newest k T))" using m assms s(2) by (metis last_map)
qed

lemma newest_keys: "k ` set (newest k T) = k ` set T"
  using arg_cong [OF newest_times [of k T], of set] by simp

lemma newest_empty: "newest k T = [] \<longleftrightarrow> T = []"
  using newest_keys [of k T] by (metis image_is_empty set_empty)

lemma finish_ok:
  assumes "kernels_ok K" and wf: "emit_wf s st" and E: "emitted st \<noteq> []"
  obtains st' where "finish_merge K st = Inr st'" and "all_rows (cs_out st') = emitted st" and "batches_wf s (cs_out st')"
    and "\<forall>b \<in> set (cs_out st'). num_rows b \<le> STREAM_MERGE_BATCH_ROWS" and "cs_total_rows st' = cs_total_rows st"
    and "cs_min_ts st' = cs_min_ts st" and "cs_max_ts st' = cs_max_ts st"
proof (cases "ck_len (cs_chunk st) > 0")
  case True
  have ch: "chunk_fits s (cs_cursors st) (cs_chunk st)" using wf by (simp add: emit_wf_def)
  from compact_build_ok [OF assms(1) ch True] obtain b where b: "compact_build K (cs_chunk st) = Inr b" "batch_wf s b"
    "rows b = chunk_out (cs_chunk st)" .
  have "num_rows b \<le> STREAM_MERGE_BATCH_ROWS"
    using wf length_chunk_out [OF ch] arg_cong [OF b(3), of length] by (simp add: emit_wf_def)
  then show thesis
    using that [of "st\<lparr>cs_out := cs_out st @ [b]\<rparr>"] True b wf E by (auto simp: finish_merge_def emit_wf_def emitted_def)
next
  case False
  then have "chunk_out (cs_chunk st) = []" using wf length_chunk_out [of s "cs_cursors st" "cs_chunk st"] by (simp add: emit_wf_def)
  then show thesis using that [of st] False wf E by (auto simp: finish_merge_def emit_wf_def emitted_def)
qed

lemma merge_rows_loop:
  assumes ok: "kernels_ok K" "nulls_ok nulls" "schema_wf s" and n: "length files \<le> 2 ^ 24" and f: "\<forall>items \<in> set files. file_fits s items"
  obtains st where "merge_rows K nulls s (map Inr files) = Some (Return (finish_merge K st))" and "emit_wf s st"
    and "emitted st = newest (row_time s) (concat (map (file_rows s) files))"
proof -
  let ?T = "concat (map (file_rows s) files)"
  obtain cs where cs: "open_cursors K nulls s 0 (map Inr files) = Inr cs" "map (cursor_rem s) cs = map (file_rows s) files"
    "\<forall>i < length cs. cursor_wf s (cs ! i) \<and> pc_source_idx (cs ! i) = 0 + i" using open_cursors_ok [OF ok f] by blast
  have "\<forall>c \<in> set cs. cursor_wf s c" using cs(3) by (auto simp: in_set_conv_nth)
  then obtain h where h: "init_heap 0 cs = Return h" "distinct h" "set h = heads (row_time s) (map (cursor_rem s) cs)"
    using init_heap_ok [OF ok(3), of cs 0] by auto
  have "length cs = length files" using arg_cong [OF cs(2), of length] by simp
  then have wf: "cursors_wf s cs" using n cs(3) by (simp add: cursors_wf_def)
  have "kmerge_inv (row_time s) ?T (map (file_rows s) files) []"
    using f by (intro kmerge_init) (auto simp: file_fits_def)
  then have "loop_inv s ?T (compact_init s cs h)"
    using wf h cs(2) chunk_new_fits(1) [of s cs] chunk_new_fits(2) [of s]
    by (simp add: loop_inv_def emit_wf_def compact_init_def emitted_def last_time_def)
      (simp add: compact_chunk_new_def)
  from compact_loop_ok [OF ok this] show thesis using that cs(1) h(1) by (auto simp: merge_rows_def)
qed

lemma merge_rows_newest:
  assumes "kernels_ok K" and "nulls_ok nulls" and "schema_wf s" and "length files \<le> 2 ^ 24"
    and "\<forall>items \<in> set files. file_fits s items"
    and "\<forall>items \<in> set files. \<forall>r \<in> set (file_rows s items). i64_min \<le> row_time s r \<and> row_time s r \<le> i64_max"
    and "concat (map (file_rows s) files) \<noteq> []"
  defines "result \<equiv> newest (row_time s) (concat (map (file_rows s) files))"
  obtains st where "merge_rows K nulls s (map Inr files) = Some (Return (Inr st))" and "all_rows (cs_out st) = result"
    and "batches_wf s (cs_out st)" and "\<forall>b \<in> set (cs_out st). num_rows b \<le> STREAM_MERGE_BATCH_ROWS"
    and "cs_total_rows st = length result" and "cs_min_ts st = row_time s (List.hd result)"
    and "cs_max_ts st = row_time s (List.last result)"
proof -
  let ?k = "row_time s" and ?T = "concat (map (file_rows s) files)"
  from merge_rows_loop [OF assms(1-5)] obtain st where st: "merge_rows K nulls s (map Inr files) = Some (Return (finish_merge K st))"
    "emit_wf s st" "emitted st = newest ?k ?T" .
  have ne: "newest ?k ?T \<noteq> []" "emitted st \<noteq> []" using st(3) newest_empty [of ?k ?T] assms(7) by simp_all
  from finish_ok [OF assms(1) st(2) ne(2)] obtain st' where st': "finish_merge K st = Inr st'" "all_rows (cs_out st') = emitted st"
    "batches_wf s (cs_out st')" "\<forall>b \<in> set (cs_out st'). num_rows b \<le> STREAM_MERGE_BATCH_ROWS"
    "cs_total_rows st' = cs_total_rows st" "cs_min_ts st' = cs_min_ts st" "cs_max_ts st' = cs_max_ts st" .
  have tot: "cs_total_rows st = length (newest ?k ?T)" "cs_min_ts st = Min (insert i64_max (?k ` set ?T))"
    "cs_max_ts st = Max (insert i64_min (?k ` set ?T))" using st(2,3) newest_keys [of ?k ?T] by (simp_all add: emit_wf_def)
  have rng: "\<forall>t \<in> ?k ` set ?T. i64_min \<le> t \<and> t \<le> i64_max" and fin: "finite (?k ` set ?T)" "?k ` set ?T \<noteq> {}"
    using assms(6,7) by auto
  have "cs_min_ts st = Min (?k ` set ?T)" "cs_max_ts st = Max (?k ` set ?T)"
    unfolding tot(2,3) Min_insert [OF fin] Max_insert [OF fin]
    using bspec [OF rng Min_in [OF fin]] bspec [OF rng Max_in [OF fin]] by linarith+
  then have "cs_min_ts st = ?k (List.hd (newest ?k ?T))" "cs_max_ts st = ?k (List.last (newest ?k ?T))"
    by (simp_all only: newest_hd_last [OF ne(1)])
  then show thesis using that [of st'] st(1,3) st' tot(1) unfolding result_def by simp
qed

text \<open>
  C36. The merge of a compaction ends for every list of files: whatever items the readers yield, errors and
  empty batches included, and whatever the kernels of Arrow return, the loop stops.
\<close>

theorem compaction_merge_terminates: "merge_rows K nulls s files \<noteq> None"
proof -
  have "compact_loop K nulls (compact_init s cs h) \<noteq> None" if "init_heap 0 cs = Return h" for cs h
    using init_heap_valid [OF that] by (intro compact_loop_returns) (simp add: heads_valid_def compact_init_def)
  then show ?thesis by (auto simp: merge_rows_def split: sum.split outcome.split)
qed

text \<open>
  C35. The merge of a run of files returns the newest-wins result: one row per timestamp, in the order of
  time, from the last file of the run that has the timestamp, in the schema of the merge. Every output batch
  is well formed and has at most 8192 rows, and the row count and the time bounds for the metadata of the
  new file are exact. Files without rows are refused.
\<close>

theorem compaction_merge_newest_wins:
  assumes "kernels_ok K" and "nulls_ok nulls" and "schema_wf s" and "length files \<le> 2 ^ 24"
    and "\<forall>items \<in> set files. file_fits s items"
    and "\<forall>items \<in> set files. \<forall>r \<in> set (file_rows s items). i64_min \<le> row_time s r \<and> row_time s r \<le> i64_max"
  shows "let T = concat (map (file_rows s) files); result = newest (row_time s) T in
    if T = [] then merge_rows K nulls s (map Inr files) = Some (Return (Inl (Storage ''empty merge result'')))
    else \<exists>st. merge_rows K nulls s (map Inr files) = Some (Return (Inr st)) \<and> all_rows (cs_out st) = result \<and>
      batches_wf s (cs_out st) \<and> (\<forall>b \<in> set (cs_out st). num_rows b \<le> STREAM_MERGE_BATCH_ROWS) \<and>
      cs_total_rows st = length result \<and> cs_min_ts st = row_time s (List.hd result) \<and>
      cs_max_ts st = row_time s (List.last result)"
proof (cases "concat (map (file_rows s) files) = []")
  case True
  from merge_rows_loop [OF assms(1-5)] obtain st where st: "merge_rows K nulls s (map Inr files) = Some (Return (finish_merge K st))"
    "emit_wf s st" "emitted st = newest (row_time s) (concat (map (file_rows s) files))" .
  have "emitted st = []" using st(3) newest_empty [of "row_time s"] True by simp
  then have "finish_merge K st = Inl (Storage ''empty merge result'')"
    using st(2) length_chunk_out [of s "cs_cursors st" "cs_chunk st"] by (simp add: finish_merge_def emit_wf_def emitted_def)
  then show ?thesis using True st(1) unfolding Let_def by (metis (no_types))
next
  case False
  from merge_rows_newest [OF assms False] show ?thesis using False unfolding Let_def by (metis (no_types, lifting))
qed

theorem compaction_merge_newest_wins_witness:
  "\<exists>st. merge_rows list_kernels list_nulls demo_schema (map Inr [[ReadBatch (demo_batch [(1, 10), (3, 30)])],
      [ReadBatch (demo_batch []), ReadBatch (demo_batch [(1, 11)]), ReadBatch (demo_batch [(2, 20)])]]) = Some (Return (Inr st)) \<and>
    all_rows (cs_out st) = [[SInt 1, SInt 11], [SInt 2, SInt 20], [SInt 3, SInt 30]] \<and> cs_min_ts st = 1 \<and> cs_max_ts st = 3"
proof -
  let ?fs = "[[ReadBatch (demo_batch [(1, 10), (3, 30)])],
      [ReadBatch (demo_batch []), ReadBatch (demo_batch [(1, 11)]), ReadBatch (demo_batch [(2, 20)])]]"
  have n: "nulls_ok list_nulls" by (simp add: nulls_ok_def list_nulls_def)
  have sch: "rb_schema (demo_batch ps) = demo_schema" for ps using demo_batch_wf by (rule batch_wf_schema)
  have fit: "item_fits demo_schema (ReadBatch (demo_batch ps))" if "length ps \<le> 2" for ps
    using demo_batch_wf [of ps] that length_rows [of "demo_batch ps"]
    by (simp add: item_fits_def sch compatible_def nulls_allowed_def demo_schema_def demo_batch_rows)
  have r: "file_rows demo_schema (ReadBatch (demo_batch ps) # items) = map (\<lambda>(t, v). [SInt t, SInt v]) ps @ file_rows demo_schema items" for ps items
    by (simp add: file_rows_def aligned_rows_def sch demo_batch_rows)
  have r0: "file_rows demo_schema [] = []" by (simp add: file_rows_def)
  have new: "newest (row_time demo_schema) [[SInt 1, SInt 10], [SInt 3, SInt 30], [SInt 1, SInt 11], [SInt 2, SInt 20]] =
      [[SInt 1, SInt 11], [SInt 2, SInt 20], [SInt 3, SInt 30]]"
    by (rule newest_unique [symmetric]) (auto simp: demo_batch_rows newest_at_def)
  have ff: "\<forall>items \<in> set ?fs. file_fits demo_schema items" using fit by (simp add: file_fits_def r r0 demo_batch_rows)
  show ?thesis
    using compaction_merge_newest_wins [OF list_kernels_ok n demo_schema_wf(1) _ ff]
    by (simp add: r r0 new i64_min_def i64_max_def demo_batch_rows) blast
qed

end
