(* ===== verification/Compact_Pick.thy ===== *)
theory Compact_Pick
  imports Sst
begin

text \<open>
  Selection of the SST files of a compaction (\<^verbatim>\<open>src/src/storage/src/compaction/job.rs\<close>): a run of
  neighbours in the file index, given by its start and length, under one of three strategies, shrunk until
  the LSN spans of its files have no hole.
\<close>

datatype compaction_strategy = SizeTiered | FileCount | Overlap

section \<open>Contiguous LSN spans\<close>

fun spans_loop :: "u64 \<Rightarrow> (u64 \<times> u64) list \<Rightarrow> bool" where
  "spans_loop e [] = True"
| "spans_loop e ((base, mx) # spans) = (if base > sat_add e 1 then False else spans_loop (max e mx) spans)"

definition lsn_spans_contiguous :: "sst_meta list \<Rightarrow> bool" where
  "lsn_spans_contiguous metas =
     (let spans = map (\<lambda>m. (sm_base_lsn m, sm_max_lsn m)) (filter has_lsn_bounds metas) in
      if length spans < 2 then True
      else (case sort_key fst spans of (_, e) # rest \<Rightarrow> spans_loop e rest | [] \<Rightarrow> True))"

definition slice :: "nat \<Rightarrow> nat \<Rightarrow> 'a list \<Rightarrow> 'a list" where
  "slice start len xs = take len (drop start xs)"

definition shrink_to_lsn_contiguous :: "sst_meta list \<Rightarrow> nat \<times> nat \<Rightarrow> (nat \<times> nat) option" where
  "shrink_to_lsn_contiguous files pick =
     (let (start, len) = pick;
          ok = (\<lambda>(s, n). lsn_spans_contiguous (slice s n files))
      in if len < 2 \<or> start + len > length files then None
         else if ok (start, len) then Some (start, len)
         else case find ok (map (\<lambda>n. (start, n)) (rev [2..<len])) of
                Some p \<Rightarrow> Some p
              | None \<Rightarrow> find ok (concat (map (\<lambda>s. map (\<lambda>n. (s, n)) (rev [2..<Suc (start + len - s)])) [start..<start + len])))"

section \<open>Strategies\<close>

text \<open>The inner loops take the files behind the start of the run.\<close>

fun size_run :: "u64 \<Rightarrow> nat \<Rightarrow> u64 \<Rightarrow> nat \<Rightarrow> sst_meta list \<Rightarrow> u64 \<times> nat" where
  "size_run thr mx tot len [] = (tot, len)"
| "size_run thr mx tot len (f # fs) =
     (if len < mx
      then let nxt = sat_add tot (sm_file_size f) in
           if nxt \<ge> thr then (tot, len) else size_run thr mx nxt (Suc len) fs
      else (tot, len))"

fun size_loop :: "u64 \<Rightarrow> nat \<Rightarrow> nat \<Rightarrow> (nat \<times> nat \<times> u64) option \<Rightarrow> sst_meta list \<Rightarrow> (nat \<times> nat \<times> u64) option" where
  "size_loop thr mx start best [] = best"
| "size_loop thr mx start best (f # fs) =
     (let (tot, len) = size_run thr mx (sm_file_size f) 1 fs;
          better = (case best of None \<Rightarrow> True | Some (_, blen, btotal) \<Rightarrow> len > blen \<or> len = blen \<and> tot < btotal)
      in size_loop thr mx (Suc start) (if len \<ge> 2 \<and> better then Some (start, len, tot) else best) fs)"

definition pick_size_tiered :: "sst_meta list \<Rightarrow> u64 \<Rightarrow> nat \<Rightarrow> (nat \<times> nat) option" where
  "pick_size_tiered files thr mx = map_option (\<lambda>(s, n, _). (s, n)) (size_loop thr mx 0 None files)"

definition small_run :: "u64 \<Rightarrow> nat \<Rightarrow> sst_meta list \<Rightarrow> nat" where
  "small_run small mx fs = min mx (length (takeWhile (\<lambda>f. sm_file_size f < small) fs))"

function count_loop :: "u64 \<Rightarrow> nat \<Rightarrow> nat \<Rightarrow> (nat \<times> nat) option \<Rightarrow> sst_meta list \<Rightarrow> (nat \<times> nat) option" where
  "count_loop small mx i best files =
     (if i < length files
      then if sm_file_size (files ! i) \<ge> small then count_loop small mx (Suc i) best files
           else let len = small_run small mx (drop i files);
                    best' = (if len \<ge> 2 \<and> (case best of None \<Rightarrow> True | Some (_, bl) \<Rightarrow> len > bl) then Some (i, len) else best)
                in count_loop small mx (max (i + len) (Suc i)) best' files
      else best)"
  by pat_completeness auto
termination
  by (relation "measure (\<lambda>(_, _, i, _, files). length files - i)") auto

declare count_loop.simps [simp del]

definition pick_file_count :: "sst_meta list \<Rightarrow> u64 \<Rightarrow> nat \<Rightarrow> (nat \<times> nat) option" where
  "pick_file_count files thr mx = count_loop (max (thr div of_nat mx) 1) mx 0 None files"

fun overlap_run :: "u64 \<Rightarrow> nat \<Rightarrow> sst_meta \<Rightarrow> u64 \<Rightarrow> nat \<Rightarrow> nat \<Rightarrow> sst_meta list \<Rightarrow> nat \<times> nat" where
  "overlap_run thr mx prev tot len overlaps [] = (len, overlaps)"
| "overlap_run thr mx prev tot len overlaps (f # fs) =
     (if len < mx
      then let nxt = sat_add tot (sm_file_size f) in
           if nxt \<ge> thr then (len, overlaps)
           else overlap_run thr mx f nxt (Suc len) (if sm_max_ts prev \<ge> sm_min_ts f then Suc overlaps else overlaps) fs
      else (len, overlaps))"

fun overlap_loop :: "u64 \<Rightarrow> nat \<Rightarrow> nat \<Rightarrow> (nat \<times> nat \<times> nat) option \<Rightarrow> sst_meta list \<Rightarrow> (nat \<times> nat \<times> nat) option" where
  "overlap_loop thr mx start best [] = best"
| "overlap_loop thr mx start best (f # fs) =
     (let (len, ov) = overlap_run thr mx f (sm_file_size f) 1 0 fs;
          better = (case best of None \<Rightarrow> True | Some (_, _, bo) \<Rightarrow> ov > bo)
      in overlap_loop thr mx (Suc start) (if len \<ge> 2 \<and> ov > 0 \<and> better then Some (start, len, ov) else best) fs)"

definition pick_overlap :: "sst_meta list \<Rightarrow> u64 \<Rightarrow> nat \<Rightarrow> (nat \<times> nat) option" where
  "pick_overlap files thr mx =
     (case overlap_loop thr mx 0 None files of
        Some (s, n, _) \<Rightarrow> Some (s, n)
      | None \<Rightarrow> pick_size_tiered files thr mx)"

definition pick_compaction :: "sst_meta list \<Rightarrow> compaction_strategy \<Rightarrow> u64 \<Rightarrow> nat \<Rightarrow> (nat \<times> nat) option" where
  "pick_compaction files strategy thr max_merge_files =
     (let mx = max max_merge_files 2 in
      if length files < 2 then None
      else Option.bind
        (case strategy of
           SizeTiered \<Rightarrow> pick_size_tiered files thr mx
         | FileCount \<Rightarrow> pick_file_count files thr mx
         | Overlap \<Rightarrow> pick_overlap files thr mx)
        (shrink_to_lsn_contiguous files))"

section \<open>A pick is a run without holes\<close>

lemma spans_loop_covers:
  assumes "spans_loop e spans" and "l \<le> Max (insert e (snd ` set spans))" and "e < l"
  shows "\<exists>(base, mx) \<in> set spans. base \<le> l \<and> l \<le> mx"
  using assms
proof (induction e spans rule: spans_loop.induct)
  case (2 e base mx spans)
  have b: "base \<le> sat_add e 1" and rest: "spans_loop (max e mx) spans" using "2.prems"(1) by (auto split: if_splits)
  have "e \<noteq> u64_max" using "2.prems"(3) by (metis leD word_order.extremum)
  then have "sat_add e 1 \<le> l" using "2.prems"(3) by (simp add: sat_add_one inc_le)
  then have bl: "base \<le> l" using b by simp
  show ?case
  proof (cases "l \<le> mx")
    case True
    then show ?thesis using bl by auto
  next
    case False
    have "Max (insert e (snd ` set ((base, mx) # spans))) = Max (insert (max e mx) (snd ` set spans))"
      by (simp add: Max_insert2 insert_commute) (cases "spans = []"; simp add: max.assoc)
    then have "\<exists>(base, mx) \<in> set spans. base \<le> l \<and> l \<le> mx"
      using "2.IH" "2.prems"(2,3) b rest False by (auto simp: not_less)
    then show ?thesis by auto
  qed
qed simp

lemma contiguous_covers:
  assumes "lsn_spans_contiguous metas" and "metas \<noteq> []" and b: "\<forall>m \<in> set metas. has_lsn_bounds m"
    and lo: "Min (sm_base_lsn ` set metas) \<le> l" and hi: "l \<le> Max (sm_max_lsn ` set metas)"
  shows "covers_lsn metas l"
proof -
  let ?spans = "map (\<lambda>m. (sm_base_lsn m, sm_max_lsn m)) metas"
  have f: "filter has_lsn_bounds metas = metas" using b by (simp add: filter_id_conv)
  have cov: "covers_lsn metas l" if "\<exists>(base, mx) \<in> set ?spans. base \<le> l \<and> l \<le> mx"
    using that b by (auto simp: covers_lsn_def list_ex_iff meta_covers_lsn_def)
  obtain b0 e rest where so: "sort_key fst ?spans = (b0, e) # rest"
    using assms(2) by (cases "sort_key fst ?spans") (auto dest!: arg_cong [of _ _ length])
  have set: "set ?spans = insert (b0, e) (set rest)" using arg_cong [OF so, of set] by simp
  have "\<forall>x \<in> set rest. b0 \<le> fst x" using sorted_sort_key [of fst ?spans] by (simp add: so)
  then have "\<forall>x \<in> set ?spans. b0 \<le> fst x" unfolding set by auto
  then have "b0 \<le> Min (sm_base_lsn ` set metas)" using assms(2) by (auto simp: Min_ge_iff)
  then have b0: "b0 \<le> l" using lo by simp
  have "snd ` set ?spans = sm_max_lsn ` set metas" by force
  then have mx: "sm_max_lsn ` set metas = insert e (snd ` set rest)" unfolding set by simp
  show ?thesis
  proof (cases "l \<le> e")
    case True
    then show ?thesis using b0 set by (intro cov) auto
  next
    case False
    then have "2 \<le> length metas"
      using hi mx arg_cong [OF so, of length] by (cases rest) auto
    then have "spans_loop e rest" using assms(1) so by (simp add: lsn_spans_contiguous_def f)
    from spans_loop_covers [OF this, of l] hi mx False set show ?thesis by (intro cov) auto
  qed
qed

definition run_bytes :: "nat \<Rightarrow> nat \<Rightarrow> sst_meta list \<Rightarrow> nat" where
  "run_bytes start len files = sum_list (map (\<lambda>f. unat (sm_file_size f)) (slice start len files))"

definition good_run :: "sst_meta list \<Rightarrow> u64 \<Rightarrow> nat \<Rightarrow> nat \<times> nat \<Rightarrow> bool" where
  "good_run files thr mx p \<longleftrightarrow> 2 \<le> snd p \<and> snd p \<le> mx \<and> fst p + snd p \<le> length files \<and>
     run_bytes (fst p) (snd p) files \<le> unat thr"

lemma sat_add_less: "sat_add a b < c \<Longrightarrow> unat (sat_add a b) = unat a + unat b"
proof -
  assume "sat_add a b < c"
  then have "sat_add a b \<noteq> u64_max" by (metis leD word_order.extremum)
  then show ?thesis by (auto simp: sat_add_def unat_word_ariths split: if_splits)
qed

lemma size_run_ok:
  "size_run thr mx tot len fs = (t, n) \<Longrightarrow> len \<le> mx \<Longrightarrow>
   len \<le> n \<and> n \<le> mx \<and> n \<le> len + length fs \<and> (len < n \<longrightarrow> t < thr) \<and>
   unat t = unat tot + sum_list (map (\<lambda>f. unat (sm_file_size f)) (take (n - len) fs))"
proof (induction fs arbitrary: tot len)
  case (Cons f fs)
  let ?nxt = "sat_add tot (sm_file_size f)"
  show ?case
  proof (cases "len < mx \<and> ?nxt < thr")
    case True
    then have "size_run thr mx ?nxt (Suc len) fs = (t, n)" using Cons.prems(1) by (auto simp: Let_def split: if_splits)
    note ih = Cons.IH [OF this]
    have "n - len = Suc (n - Suc len)" using ih True by auto
    moreover have "t < thr" using ih True by (cases "Suc len < n") (auto simp: word_less_nat_alt)
    ultimately show ?thesis using ih True sat_add_less [of tot "sm_file_size f" thr] by simp
  next
    case False
    then show ?thesis using Cons.prems by (auto simp: Let_def not_less split: if_splits)
  qed
qed simp

lemma run_bytes_Cons:
  assumes "2 \<le> n"
  shows "run_bytes (length pre) n (pre @ f # fs) =
    unat (sm_file_size f) + sum_list (map (\<lambda>f. unat (sm_file_size f)) (take (n - Suc 0) fs))"
  using assms by (cases n) (simp_all add: run_bytes_def slice_def)

lemma size_loop_ok:
  "size_loop thr mx (length pre) best fs = Some (s, n, t) \<Longrightarrow> files = pre @ fs \<Longrightarrow> 1 \<le> mx \<Longrightarrow>
   \<forall>s n t. best = Some (s, n, t) \<longrightarrow> good_run files thr mx (s, n) \<Longrightarrow> good_run files thr mx (s, n)"
proof (induction fs arbitrary: pre best)
  case (Cons f fs)
  obtain t' n' where sr: "size_run thr mx (sm_file_size f) 1 fs = (t', n')" by fastforce
  note ok = size_run_ok [OF sr Cons.prems(3)]
  have new: "good_run files thr mx (length pre, n')" if "2 \<le> n'"
    using ok that Cons.prems(2) by (simp add: good_run_def run_bytes_Cons word_less_nat_alt)
  obtain best' where b: "size_loop thr mx (length (pre @ [f])) best' fs = Some (s, n, t)"
      "best' = best \<or> 2 \<le> n' \<and> best' = Some (length pre, n', t')"
    using Cons.prems(1) sr by (auto simp: Let_def split: if_splits)
  show ?case
    by (rule Cons.IH [OF b(1)]) (use Cons.prems b(2) new in auto)
qed simp

lemma pick_size_tiered_ok: "pick_size_tiered files thr mx = Some p \<Longrightarrow> 1 \<le> mx \<Longrightarrow> good_run files thr mx p"
  using size_loop_ok [of thr mx "[]" None files _ _ _ files] by (auto simp: pick_size_tiered_def)

lemma overlap_run_size:
  "fst (overlap_run thr mx prev tot len ov fs) = snd (size_run thr mx tot len fs)"
  by (induction fs arbitrary: prev tot len ov) (simp_all add: Let_def)

lemma overlap_loop_ok:
  "overlap_loop thr mx (length pre) best fs = Some (s, n, t) \<Longrightarrow> files = pre @ fs \<Longrightarrow> 1 \<le> mx \<Longrightarrow>
   \<forall>s n t. best = Some (s, n, t) \<longrightarrow> good_run files thr mx (s, n) \<Longrightarrow> good_run files thr mx (s, n)"
proof (induction fs arbitrary: pre best)
  case (Cons f fs)
  obtain n' ov where ovr: "overlap_run thr mx f (sm_file_size f) 1 0 fs = (n', ov)" by fastforce
  obtain t' where sr: "size_run thr mx (sm_file_size f) 1 fs = (t', n')"
    using overlap_run_size [of thr mx f "sm_file_size f" 1 0 fs] ovr by (metis fst_conv prod.collapse)
  note ok = size_run_ok [OF sr Cons.prems(3)]
  have new: "good_run files thr mx (length pre, n')" if "2 \<le> n'"
    using ok that Cons.prems(2) by (simp add: good_run_def run_bytes_Cons word_less_nat_alt)
  obtain best' where b: "overlap_loop thr mx (length (pre @ [f])) best' fs = Some (s, n, t)"
      "best' = best \<or> 2 \<le> n' \<and> best' = Some (length pre, n', ov)"
    using Cons.prems(1) ovr by (auto simp: Let_def split: if_splits)
  show ?case
    by (rule Cons.IH [OF b(1)]) (use Cons.prems b(2) new in auto)
qed simp

lemma pick_overlap_ok: "pick_overlap files thr mx = Some p \<Longrightarrow> 1 \<le> mx \<Longrightarrow> good_run files thr mx p"
  using overlap_loop_ok [of thr mx "[]" None files _ _ _ files] pick_size_tiered_ok [of files thr mx p]
  by (auto simp: pick_overlap_def split: option.splits)

lemma sum_list_bound: "(\<And>x. x \<in> set xs \<Longrightarrow> f x \<le> c) \<Longrightarrow> sum_list (map f xs) \<le> length xs * (c :: nat)"
  by (induction xs) (auto simp: add_le_mono)

text \<open>A run of files that are each below the share of the threshold.\<close>

lemma small_run_bytes:
  assumes small: "small = max (thr div of_nat mx) 1" and "0 < mx" and "mx < 2 ^ 64" and n: "n = small_run small mx (drop i files)"
  shows "run_bytes i n files \<le> unat thr"
proof -
  have lt: "unat (sm_file_size f) < unat small" if "f \<in> set (slice i n files)" for f
  proof -
    have "f \<in> set (takeWhile (\<lambda>f. sm_file_size f < small) (drop i files))"
      using that unfolding slice_def n small_run_def
      by (metis (no_types, lifting) in_set_takeD min.commute takeWhile_eq_take take_take)
    then show ?thesis by (auto dest: set_takeWhileD simp: word_less_nat_alt)
  qed
  have u: "unat small = max (unat thr div mx) 1"
    unfolding small using assms(2,3) by (simp add: max_def word_le_nat_alt unat_div unat_of_nat)
  have "run_bytes i n files \<le> length (slice i n files) * (unat small - 1)"
    unfolding run_bytes_def using lt by (intro sum_list_bound) fastforce
  also have "\<dots> \<le> mx * (unat small - 1)"
    by (rule mult_le_mono1) (simp add: slice_def n small_run_def)
  also have "\<dots> \<le> unat thr"
  proof -
    have "mx * (unat small - 1) \<le> mx * (unat thr div mx)" unfolding u by (intro mult_le_mono2) simp
    then show ?thesis using times_div_less_eq_dividend [of mx "unat thr"] by linarith
  qed
  finally show ?thesis .
qed

lemma count_loop_ok:
  assumes small: "small = max (thr div of_nat mx) 1" and mx: "0 < mx" "mx < 2 ^ 64"
  shows "count_loop small mx i best files = Some p \<Longrightarrow> (\<And>q. best = Some q \<Longrightarrow> good_run files thr mx q) \<Longrightarrow> good_run files thr mx p"
proof (induction "length files - i" arbitrary: i best rule: less_induct)
  case less
  show ?case
  proof (cases "i < length files")
    case True
    let ?n = "small_run small mx (drop i files)"
    let ?best = "if 2 \<le> ?n \<and> (case best of None \<Rightarrow> True | Some (_, bl) \<Rightarrow> ?n > bl) then Some (i, ?n) else best"
    have "?n \<le> length files - i" 
      using length_takeWhile_le [of "\<lambda>f. sm_file_size f < small" "drop i files"] by (simp add: small_run_def min_le_iff_disj)
    then have new: "good_run files thr mx (i, ?n)" if "2 \<le> ?n"
      using that True small_run_bytes [OF small mx refl, of i files] by (simp add: good_run_def) (simp add: small_run_def)
    show ?thesis
    proof (cases "small \<le> sm_file_size (files ! i)")
      case big: True
      then have "count_loop small mx (Suc i) best files = Some p" using less.prems(1) True by (simp add: count_loop.simps [of small mx i])
      then show ?thesis using less.hyps [of "Suc i" best] less.prems(2) True by auto
    next
      case False
      then have c: "count_loop small mx (max (i + ?n) (Suc i)) ?best files = Some p"
        using less.prems(1) True by (simp add: count_loop.simps [of small mx i] Let_def)
      show ?thesis
        by (rule less.hyps [OF _ c]) (use True less.prems(2) new in \<open>auto split: if_splits\<close>)
    qed
  next
    case False
    then show ?thesis using less.prems by (simp add: count_loop.simps [of small mx i])
  qed
qed

lemma run_bytes_split: "run_bytes s (a + b) files = run_bytes s a files + run_bytes (s + a) b files"
  by (simp add: run_bytes_def slice_def take_add add.commute)

lemma run_bytes_sub:
  assumes "s \<le> s'" and "s' + n' \<le> s + n"
  shows "run_bytes s' n' files \<le> run_bytes s n files"
proof -
  obtain a r where a: "s' = s + a" and r: "n = a + (n' + r)" using assms by (metis add.assoc le_add_diff_inverse nat_add_left_cancel_le)
  show ?thesis unfolding a r run_bytes_split by simp
qed

lemma find_mem: "find P xs = Some x \<Longrightarrow> x \<in> set xs \<and> P x"
  by (auto simp: find_Some_iff)

lemma shrink_ok:
  assumes "good_run files thr mx p" and "shrink_to_lsn_contiguous files p = Some (s, n)"
  shows "good_run files thr mx (s, n) \<and> lsn_spans_contiguous (slice s n files)"
proof -
  obtain start len where p: "p = (start, len)" by fastforce
  have "lsn_spans_contiguous (slice s n files) \<and> 2 \<le> n \<and> start \<le> s \<and> s + n \<le> start + len"
    using assms(2) by (auto simp: shrink_to_lsn_contiguous_def p Let_def split: if_splits option.splits dest!: find_mem)
  moreover from this have "n \<le> len" by linarith
  ultimately show ?thesis
    using assms(1) run_bytes_sub [of start s n len files] by (auto simp: good_run_def p)
qed

section \<open>Property\<close>

lemma pick_good_run:
  assumes "pick_compaction files strategy thr mm = Some (s, n)" and "mm < 2 ^ 64"
  shows "good_run files thr (max mm 2) (s, n) \<and> lsn_spans_contiguous (slice s n files)"
proof -
  let ?mx = "max mm 2"
  have mx: "0 < ?mx" "?mx < 2 ^ 64" "1 \<le> ?mx" using assms(2) by auto
  obtain p where p: "(case strategy of SizeTiered \<Rightarrow> pick_size_tiered files thr ?mx | FileCount \<Rightarrow> pick_file_count files thr ?mx
      | Overlap \<Rightarrow> pick_overlap files thr ?mx) = Some p" and sh: "shrink_to_lsn_contiguous files p = Some (s, n)"
    using assms(1) unfolding pick_compaction_def Let_def by (auto simp: bind_eq_Some_conv split: if_splits)
  have "good_run files thr ?mx p"
    using p pick_size_tiered_ok [of files thr ?mx p] pick_overlap_ok [of files thr ?mx p]
      count_loop_ok [OF refl mx(1,2), of thr 0 None files p] mx(3)
    by (cases strategy) (simp_all add: pick_file_count_def)
  from shrink_ok [OF this sh] show ?thesis .
qed

text \<open>
  C37. What the compaction picks is a run of at least two and at most the configured number of neighbours in
  the file index whose sizes add up to at most the threshold, under every strategy. If all its files carry
  LSN bounds, every LSN of the span that the merged file will claim is covered by a file of the run, so
  that the merged file claims no LSN of another file's hole.
\<close>

theorem pick_compaction_sound:
  assumes "pick_compaction files strategy thr mm = Some (s, n)" and "mm < 2 ^ 64"
  shows "2 \<le> n \<and> n \<le> max mm 2 \<and> s + n \<le> length files \<and> run_bytes s n files \<le> unat thr \<and>
    ((\<forall>f \<in> set (slice s n files). has_lsn_bounds f \<and> sm_base_lsn f \<le> sm_max_lsn f) \<longrightarrow>
     (\<forall>l. si_min_lsn (after_inner_merge_run now (map meta_identity (slice s n files))) \<le> l \<and>
          l \<le> si_max_lsn (after_inner_merge_run now (map meta_identity (slice s n files))) \<longrightarrow>
          covers_lsn (slice s n files) l))"
proof -
  let ?run = "slice s n files"
  note g = pick_good_run [OF assms]
  have c: "lsn_spans_contiguous ?run" using g by blast
  have ne: "?run \<noteq> []" using g by (simp add: good_run_def slice_def)
  have "covers_lsn ?run l" if b: "\<forall>f \<in> set ?run. has_lsn_bounds f \<and> sm_base_lsn f \<le> sm_max_lsn f"
    and l: "si_min_lsn (after_inner_merge_run now (map meta_identity ?run)) \<le> l"
      "l \<le> si_max_lsn (after_inner_merge_run now (map meta_identity ?run))" for l
  proof -
    have "(\<lambda>f. si_min_lsn (meta_identity f)) ` set ?run = sm_base_lsn ` set ?run"
      "(\<lambda>f. si_max_lsn (meta_identity f)) ` set ?run = sm_max_lsn ` set ?run"
      using b by (auto simp: meta_identity_def from_parts_def intro!: image_cong)
    then show ?thesis
      using contiguous_covers [OF c ne] b l ne by (simp add: after_inner_merge_run_def)
  qed
  then show ?thesis using g by (auto simp: good_run_def)
qed

definition demo_meta :: "u64 \<Rightarrow> u64 \<Rightarrow> i64 \<Rightarrow> i64 \<Rightarrow> u64 \<Rightarrow> sst_meta" where
  "demo_meta lo hi t1 t2 sz = from_identity (from_parts 1 lo hi 0 0) [] t1 t2 1 sz"

theorem pick_compaction_sound_witness:
  "pick_compaction [demo_meta 1 2 0 5 10, demo_meta 3 6 4 9 10] SizeTiered 100 8 = Some (0, 2) \<and>
   covers_lsn [demo_meta 1 2 0 5 10, demo_meta 3 6 4 9 10] 4"
proof -
  let ?fs = "[demo_meta 1 2 0 5 10, demo_meta 3 6 4 9 10]"
  have sz: "sm_file_size (demo_meta a b c d e) = e" "sm_base_lsn (demo_meta a b c d e) = min a b"
      "sm_max_lsn (demo_meta a b c d e) = max a b" for a b c d e
    by (simp_all add: demo_meta_def from_identity_def from_parts_def min_def max_def)
  have add: "sat_add 10 10 = 20" "sat_add 2 1 = 3" by (simp_all add: sat_add_def)
  have "lsn_spans_contiguous ?fs" by (simp add: lsn_spans_contiguous_def has_lsn_bounds_def sz add)
  then have p: "pick_compaction ?fs SizeTiered 100 8 = Some (0, 2)"
    by (simp add: pick_compaction_def pick_size_tiered_def shrink_to_lsn_contiguous_def slice_def sz add Let_def)
  then show ?thesis
    using pick_compaction_sound [OF p, of 0]
    by (simp add: slice_def demo_meta_def from_identity_def from_parts_def has_lsn_bounds_def after_inner_merge_run_def meta_identity_def)
qed

end
