(* ===== verification/Compact_Job.thy ===== *)
theory Compact_Job
  imports Compact_Merge Compact_Pick Budget
begin



section \<open>Writing and promoting an SST\<close>





section \<open>Merging files\<close>





section \<open>A pass\<close>





section \<open>Publication\<close>














section \<open>What the index promises\<close>









lemma length_aligned_rows [simp]: "length (aligned_rows s b) = num_rows b"
  by (simp add: aligned_rows_def)







section \<open>A run becomes one file\<close>









section \<open>A pass keeps the content of the index\<close>











section \<open>A concurrent insert\<close>








section \<open>A table with two files\<close>

definition demo_sst :: "u64 \<Rightarrow> u64 \<Rightarrow> i64 \<Rightarrow> i64 \<Rightarrow> sst_meta" where
  "demo_sst lo hi t1 t2 = from_identity (from_parts 1 lo hi 0 0) (path_join ''d'' (filename (from_parts 1 lo hi 0 0))) t1 t2 2 10"





lemma demo_sst_simps [simp]:
  "sm_file_path (demo_sst lo hi t1 t2) = path_join ''d'' (filename (from_parts 1 lo hi 0 0))" "sm_min_ts (demo_sst lo hi t1 t2) = t1"
  "sm_max_ts (demo_sst lo hi t1 t2) = t2" "sm_row_count (demo_sst lo hi t1 t2) = 2" "sm_file_size (demo_sst lo hi t1 t2) = 10"
  "sm_base_lsn (demo_sst lo hi t1 t2) = min lo hi" "sm_max_lsn (demo_sst lo hi t1 t2) = max lo hi"
  by (auto simp: demo_sst_def from_identity_def from_parts_def min_def max_def)











section \<open>Properties\<close>






end
