(* ===== verification/Spec2Isabelle.thy ===== *)
theory Spec2Isabelle
  imports Lsn Wal_Thread Wal_Recover Dedup_Layers Memtable Lsm_Merge Compact_Job
begin

text \<open>
  MonoTS is a time-series database. A writer sends Arrow record batches to a table. The table gives each
  batch a log sequence number (LSN), appends it to its write-ahead log (WAL) and inserts it into its
  memtable. A full memtable is flushed to a Parquet file (SST); compaction merges SSTs; sealed WAL files
  whose batches are in SSTs are removed. A query merges the memtables and SSTs of a table, and for every
  timestamp the row written last wins. After a crash the table is rebuilt from its SSTs and the WAL.
  Paths below are relative to \<^verbatim>\<open>src/src/\<close>.

  \<^bold>\<open>Theories\<close>

  \<^item> \<open>Prelude\<close>: the error type (\<^verbatim>\<open>common/src/error.rs\<close>), results \<open>'a res = tsdb_error + 'a\<close>, saturating and
    wrapping arithmetic of \<^verbatim>\<open>usize\<close> and \<^verbatim>\<open>u64\<close>, little-endian codecs.
  \<^item> \<open>Lsn\<close>: the LSN allocator (\<^verbatim>\<open>common/src/cdc/lsn.rs\<close>) with the atomic steps of concurrent callers, the
    memtable id sequence (\<^verbatim>\<open>storage/src/sequence.rs\<close>), the lifecycle gate (\<^verbatim>\<open>storage/src/lifecycle.rs\<close>).
    LSNs are unique and increase under every interleaving; ids are fresh across restarts.
  \<^item> \<open>Wal_Format\<close>, \<open>Wal_Reader\<close>, \<open>Wal_Segment\<close>: encoding, readers and writer of a WAL segment
    (\<^verbatim>\<open>storage/src/wal/format.rs\<close>). \<open>Wal_Log\<close> and \<open>Wal_Tail\<close> relate the bytes to the list of appended
    entries: what replay, strict reading, the tailing cursor and reopening return for every crash point.
  \<^item> \<open>Budget\<close>: the memory controller (\<^verbatim>\<open>storage/src/memory.rs\<close>) and the WAL backlog (\<^verbatim>\<open>storage/src/wal/backlog.rs\<close>).
    The locale \<open>budget\<close> is the contract of both: the accounting is exact, and reservations that are checked
    stay within the limit. Waiting writers never get stuck.
  \<^item> \<open>Wal_Writer\<close>: segment rotation, micro-batches, workers, the command loop (\<^verbatim>\<open>storage/src/wal/writer.rs\<close>).
    \<open>Wal_Durable\<close> and \<open>Wal_Commit\<close>: what is acknowledged is durable, across rotation and I/O
    failures, unless the write of a memtable-end marker fails.
    \<open>Wal_Thread\<close>: a thread that serves many writers isolates them and flushes all of them at each tick.
  \<^item> \<open>Names\<close>, \<open>Sst\<close>: file names, SST identities and the file index (\<^verbatim>\<open>storage/src/compaction/sst_id.rs\<close>,
    \<^verbatim>\<open>sst.rs\<close>): names round-trip and are distinct, coverage of LSN ranges is exact.
  \<^item> \<open>Wal_Recover\<close>: recovery walk and removal of WAL files (\<^verbatim>\<open>storage/src/wal/lsn_recover.rs\<close>,
    \<^verbatim>\<open>storage/src/table.rs\<close>): after a history without a failed memtable-end write and a crash the walk hands
    over exactly the batches beyond the SSTs, at least up to everything acknowledged, and removing files does not change that.
  \<^item> \<open>Batch\<close>: record batches, the time column and sorting (\<^verbatim>\<open>common/src/arrow/\<close>), the rows of a batch and
    the reference \<open>newest\<close>: per timestamp the last written row.
  \<^item> \<open>Dedup\<close>, \<open>Dedup_Newest\<close>, \<open>Dedup_Layers\<close>: flush plan, scan preparation and layered merge
    (\<^verbatim>\<open>storage/src/compaction/dedup.rs\<close>) equal the reference.
  \<^item> \<open>Memtable\<close>: the batch buffer and the memtable (\<^verbatim>\<open>storage/src/memtable/\<close>): no row is lost, invented or
    reordered, the memory charge is exact; a seal between the critical sections of an insert reorders rows.
  \<^item> \<open>Kmerge\<close>: the k-way merge on rows. \<open>Lsm_Merge\<close>: the poll-driven merge of the layers of a query
    (\<^verbatim>\<open>query/src/lsm_stream.rs\<close>) refines it: it ends and returns the newest-wins result, however long its
    inputs make it wait.
  \<^item> \<open>Compact_Pick\<close>: selection of the files of a compaction (\<^verbatim>\<open>storage/src/compaction/job.rs\<close>): a run inside the
    index without LSN holes, within the limits. \<open>Align\<close>: alignment of a batch to a newer schema is well typed
    (\<^verbatim>\<open>storage/src/compaction/reader.rs\<close>), the time filter (\<^verbatim>\<open>parquet_read.rs\<close>). \<open>Compact_Merge\<close>: the merge of
    the files of a compaction ends for every input and refines \<open>Kmerge\<close>. \<open>Compact_Job\<close>: a whole pass, with the
    writing and promotion of its SST (\<^verbatim>\<open>sst.rs\<close>), keeps the content of the table if the index does not change
    meanwhile; a concurrent insert can make it drop a file that it did not merge.

  \<^bold>\<open>Conventions\<close>

  \<^item> A struct is a \<open>record\<close>, an enum a \<open>datatype\<close>, a method a function from the state to its result and the
    new state, also when it fails. \<^verbatim>\<open>u32\<close> and \<^verbatim>\<open>u64\<close> are words, \<^verbatim>\<open>usize\<close> is \<open>nat\<close> with its wrap-around or
    saturation where the code has it, \<^verbatim>\<open>i64\<close> is \<open>int\<close> (timestamps are only compared). Errors keep their
    constructor; the message is a fixed text.
  \<^item> A file is its bytes and the length that is durable. A crash keeps any prefix at least that long. The
    outcome of each I/O call is an argument.
  \<^item> Code of other packages is a parameter: Arrow IPC and the checksum (\<open>arrow\<close>, with \<open>arrow_ok\<close>), the
    compute kernels of Arrow (\<open>kernels\<close>, with \<open>kernels_ok\<close>), the memory size of a batch. \<open>raw_arrow\<close> and
    \<open>list_kernels\<close> are instances that satisfy the hypotheses.
  \<^item> A loop that ends for every input is a \<open>fun\<close> or \<open>function\<close>; one that ends only under the invariant is a
    \<open>partial_function\<close> into \<open>option\<close>, and that it returns is part of the theorem. There is no fuel.

  \<^bold>\<open>Not modelled\<close>

  \<^item> The encoding of Parquet files (a file is its batches), DataFusion plans, the network service, clients of Kafka, Pulsar, MQTT, Delta and Iceberg:
    the code calls these libraries and has little logic of its own.
  \<^item> Scheduling of the background tasks, directories, hard links, logging, configuration files.
  \<^item> The SQL front end and the streaming subsystem.
\<close>

end
